(* ===== verification/Prelude.thy ===== *)
theory Prelude
  imports Main "HOL-Library.Word" "HOL-Library.Char_ord" "HOL-Library.List_Lexorder"
    "HOL-Library.AList" "HOL-Library.Multiset" "HOL-Library.Code_Target_Nat"
begin

text \<open>
  Shared vocabulary of the development: machine integers and byte strings, the Rust standard
  library operations the crates use (\<open>Result\<close> chaining, little-endian integer codecs, checked and
  saturating arithmetic, UTF-8 validation, \<open>str::split\<close>, slice comparison), and the interface
  \<open>cursor_reader\<close> that every binary decoder of the repository is built on.
\<close>

unbundle bit_operations_syntax

named_theorems rust_defs \<open>definitions of modelled operations that proofs unfold freely\<close>
named_theorems cursor_simps \<open>how a decoder advances over the bytes its encoder wrote\<close>

section \<open>Machine types\<close>

type_synonym byte = "8 word"
type_synonym u16 = "16 word"
type_synonym u32 = "32 word"
type_synonym u64 = "64 word"
type_synonym bytes = "8 word list"

text \<open>
  A Rust \<open>String\<close> is the list of its UTF-8 bytes; HOL's \<open>char\<close> is an 8-bit value, so a
  \<open>string\<close> holds those bytes and \<open>as_bytes\<close> only changes their type.
\<close>

definition byte_of_char :: "char \<Rightarrow> byte" where
  "byte_of_char c = of_nat (of_char c)"

definition char_of_byte :: "byte \<Rightarrow> char" where
  "char_of_byte b = char_of (unat b)"

definition as_bytes :: "string \<Rightarrow> bytes" where
  "as_bytes s = map byte_of_char s"

definition string_of_bytes :: "bytes \<Rightarrow> string" where
  "string_of_bytes bs = map char_of_byte bs"

lemma char_of_byte_inverse [simp]: "char_of_byte (byte_of_char c) = c"
proof -
  have "of_char c < (256::nat)" by simp
  then show ?thesis
    by (simp add: char_of_byte_def byte_of_char_def unat_of_nat)
qed

lemma byte_of_char_inverse [simp]: "byte_of_char (char_of_byte b) = b"
proof -
  have "unat b < 2 ^ LENGTH(8)" by (rule unsigned_less)
  then show ?thesis
    by (simp add: char_of_byte_def byte_of_char_def)
qed

lemma string_of_as_bytes [simp]: "string_of_bytes (as_bytes s) = s"
  by (induction s) (simp_all add: as_bytes_def string_of_bytes_def)

lemma as_bytes_of_string [simp]: "as_bytes (string_of_bytes bs) = bs"
  by (induction bs) (simp_all add: as_bytes_def string_of_bytes_def)

lemma length_as_bytes [simp]: "length (as_bytes s) = length s"
  by (simp add: as_bytes_def)

lemma length_string_of_bytes [simp]: "length (string_of_bytes bs) = length bs"
  by (simp add: string_of_bytes_def)

lemma as_bytes_inject [simp]: "as_bytes s = as_bytes t \<longleftrightarrow> s = t"
  by (metis string_of_as_bytes)

section \<open>Results\<close>

text \<open>\<open>Result<T, E>\<close> is \<open>'e + 'a\<close>; \<open>and_then\<close> is the \<open>?\<close> operator.\<close>

definition and_then :: "'e + 'a \<Rightarrow> ('a \<Rightarrow> 'e + 'b) \<Rightarrow> 'e + 'b" where
  "and_then r f = (case r of Inl e \<Rightarrow> Inl e | Inr x \<Rightarrow> f x)"

definition map_err :: "('e \<Rightarrow> 'f) \<Rightarrow> 'e + 'a \<Rightarrow> 'f + 'a" where
  "map_err g r = (case r of Inl e \<Rightarrow> Inl (g e) | Inr x \<Rightarrow> Inr x)"

definition ok_or :: "'e \<Rightarrow> 'a option \<Rightarrow> 'e + 'a" where
  "ok_or e x = (case x of None \<Rightarrow> Inl e | Some v \<Rightarrow> Inr v)"

lemma and_then_simps [simp]:
  "and_then (Inl e) f = Inl e"
  "and_then (Inr x) f = f x"
  by (simp_all add: and_then_def)

lemma and_then_Inr_iff: "and_then r f = Inr y \<longleftrightarrow> (\<exists>x. r = Inr x \<and> f x = Inr y)"
  by (cases r) simp_all

lemma and_then_Inl_iff:
  "and_then r f = Inl e \<longleftrightarrow> r = Inl e \<or> (\<exists>x. r = Inr x \<and> f x = Inl e)"
  by (cases r) simp_all

lemma and_then_cong [fundef_cong]:
  "r = r' \<Longrightarrow> (\<And>x. r' = Inr x \<Longrightarrow> f x = g x) \<Longrightarrow> and_then r f = and_then r' g"
  by (cases r') simp_all

lemma map_err_simps [simp]:
  "map_err g (Inl e) = Inl (g e)"
  "map_err g (Inr x) = Inr x"
  by (simp_all add: map_err_def)

lemma map_err_Inr_iff [simp]: "map_err g r = Inr x \<longleftrightarrow> r = Inr x"
  by (cases r) simp_all

lemma map_err_Inl_iff: "map_err g r = Inl e \<longleftrightarrow> (\<exists>e'. r = Inl e' \<and> e = g e')"
  by (cases r) auto

lemma ok_or_simps [simp]:
  "ok_or e None = Inl e"
  "ok_or e (Some v) = Inr v"
  by (simp_all add: ok_or_def)

lemma ok_or_Inr_iff [simp]: "ok_or e x = Inr v \<longleftrightarrow> x = Some v"
  by (cases x) simp_all

text \<open>A \<open>for\<close> loop whose body may return early with an error.\<close>

fun try_fold :: "('a \<Rightarrow> 's \<Rightarrow> 'e + 's) \<Rightarrow> 'a list \<Rightarrow> 's \<Rightarrow> 'e + 's" where
  "try_fold f [] s = Inr s"
| "try_fold f (x # xs) s = and_then (f x s) (try_fold f xs)"

lemma option_eqI: "(\<And>m. x = Some m \<longleftrightarrow> y = Some m) \<Longrightarrow> x = y"
  by (cases x; cases y) auto

lemma try_fold_append:
  "try_fold f (xs @ ys) s = and_then (try_fold f xs s) (try_fold f ys)"
  by (induction xs arbitrary: s) (auto simp: and_then_def split: sum.splits)

lemma try_fold_cong [fundef_cong]:
  assumes "xs = ys" "s = t" "\<And>x s. x \<in> set ys \<Longrightarrow> f x s = g x s"
  shows "try_fold f xs s = try_fold g ys t"
proof -
  have "\<forall>x \<in> set ys. \<forall>s. f x s = g x s \<Longrightarrow> try_fold f ys t = try_fold g ys t" for t
    by (induction ys arbitrary: t) (auto simp: and_then_def split: sum.splits)
  with assms show ?thesis by blast
qed

section \<open>Integer arithmetic\<close>

definition u64_max :: nat where
  "u64_max = 2 ^ 64 - 1"

definition u32_max :: nat where
  "u32_max = 2 ^ 32 - 1"

text \<open>\<open>usize\<close> is 64 bits wide.\<close>

abbreviation usize_max :: nat where
  "usize_max \<equiv> u64_max"

definition saturating_inc :: "u64 \<Rightarrow> u64" where
  "saturating_inc w = (if w = - 1 then - 1 else w + 1)"

definition checked_add_usize :: "nat \<Rightarrow> nat \<Rightarrow> nat option" where
  "checked_add_usize a b = (if a + b \<le> usize_max then Some (a + b) else None)"

lemma saturating_inc_greater: "w \<noteq> - 1 \<Longrightarrow> w < saturating_inc w"
  using inc_less_eq_triv_imp [of w] by (auto simp: saturating_inc_def simp flip: not_le)

lemma saturating_inc_ge: "w \<le> saturating_inc w"
  using saturating_inc_greater [of w] by (cases "w = - 1") (auto simp: saturating_inc_def)

lemma saturating_inc_le: "v < w \<Longrightarrow> saturating_inc v \<le> w"
  by (auto simp: saturating_inc_def intro: inc_le)

section \<open>Actions\<close>

text \<open>Code that changes state and may fail: the state reached is kept on every path.\<close>

type_synonym ('s, 'e, 'a) action = "'s \<Rightarrow> ('e + 'a) \<times> 's"

definition ret :: "'a \<Rightarrow> ('s, 'e, 'a) action" where
  "ret x s = (Inr x, s)"

definition raise :: "'e \<Rightarrow> ('s, 'e, 'a) action" where
  "raise e s = (Inl e, s)"

definition then_op :: "('s, 'e, 'a) action \<Rightarrow> ('a \<Rightarrow> ('s, 'e, 'b) action) \<Rightarrow> ('s, 'e, 'b) action" where
  "then_op m f s = (case m s of (Inl e, s') \<Rightarrow> (Inl e, s') | (Inr x, s') \<Rightarrow> f x s')"

lemma action_simps [simp]:
  "ret x s = (Inr x, s)"
  "raise e s = (Inl e, s)"
  "m s = (Inl e, s') \<Longrightarrow> then_op m f s = (Inl e, s')"
  "m s = (Inr x, s') \<Longrightarrow> then_op m f s = f x s'"
  by (simp_all add: ret_def raise_def then_op_def)

lemma then_op_cases:
  assumes "then_op m f s = (res, s')"
  obtains (fails) e where "m s = (Inl e, s')" "res = Inl e"
    | (continues) x t where "m s = (Inr x, t)" "f x t = (res, s')"
  using assms by (auto simp: then_op_def split: prod.splits sum.splits)

lemma then_op_InrE:
  assumes "then_op m f s = (Inr y, s')"
  obtains x t where "m s = (Inr x, t)" "f x t = (Inr y, s')"
  using assms by (auto elim: then_op_cases)

section \<open>Little-endian codecs\<close>

text \<open>\<open>to_le_bytes\<close> and \<open>from_le_bytes\<close>; the width in bytes is an argument of the encoder.\<close>

primrec le_bytes :: "nat \<Rightarrow> 'a::len word \<Rightarrow> bytes" where
  "le_bytes 0 w = []"
| "le_bytes (Suc n) w = ucast w # le_bytes n (drop_bit 8 w)"

primrec from_le :: "bytes \<Rightarrow> 'a::len word" where
  "from_le [] = 0"
| "from_le (b # bs) = ucast b OR push_bit 8 (from_le bs)"

lemma length_le_bytes [simp]: "length (le_bytes n w) = n"
  by (induction n arbitrary: w) simp_all

lemma from_le_le_bytes: "from_le (le_bytes n w) = take_bit (8 * n) w"
proof (induction n arbitrary: w)
  case 0
  show ?case by simp
next
  case (Suc n)
  show ?case
  proof (rule bit_word_eqI)
    fix k
    assume "k < LENGTH('a)"
    then show "bit (from_le (le_bytes (Suc n) w) :: 'a word) k = bit (take_bit (8 * Suc n) w) k"
      by (auto simp: Suc.IH bit_simps)
  qed
qed

lemma from_le_le_bytes_full [simp]: "8 * n = LENGTH('a) \<Longrightarrow> from_le (le_bytes n (w :: 'a::len word)) = w"
  by (simp add: from_le_le_bytes)

lemma le_bytes_from_le:
  "length bs = n \<Longrightarrow> 8 * n \<le> LENGTH('a) \<Longrightarrow> le_bytes n (from_le bs :: 'a::len word) = bs"
proof (induction bs arbitrary: n)
  case Nil
  then show ?case by simp
next
  case (Cons b bs)
  then obtain m where n: "n = Suc m" "length bs = m" by auto
  have lo: "ucast (ucast b OR push_bit 8 (from_le bs) :: 'a word) = b"
    using Cons.prems n by (intro bit_word_eqI) (auto simp: bit_simps)
  have hi: "drop_bit 8 (ucast b OR push_bit 8 (from_le bs) :: 'a word)
      = take_bit (LENGTH('a) - 8) (from_le bs)"
    using Cons.prems n
    by (intro bit_word_eqI) (auto simp: bit_simps dest: bit_imp_le_length)
  have "take_bit (LENGTH('a) - 8) (from_le bs :: 'a word) = from_le bs"
  proof (rule bit_word_eqI)
    fix k
    have "from_le bs = (take_bit (8 * m) (from_le bs) :: 'a word)"
      using Cons.IH [OF n(2)] Cons.prems n from_le_le_bytes [of m "from_le bs :: 'a word"] by simp
    then have "bit (from_le bs :: 'a word) k \<Longrightarrow> k < 8 * m"
      by (metis bit_take_bit_iff)
    then show "bit (take_bit (LENGTH('a) - 8) (from_le bs :: 'a word)) k = bit (from_le bs :: 'a word) k"
      using Cons.prems n by (auto simp: bit_simps)
  qed
  with lo hi n Cons show ?case by simp
qed

lemma from_le_of_nat_unat:
  "8 * n = LENGTH('a) \<Longrightarrow> m < 2 ^ LENGTH('a) \<Longrightarrow>
    unat (from_le (le_bytes n (of_nat m :: 'a::len word)) :: 'a word) = m"
  by (simp add: unat_of_nat take_bit_nat_eq_self)

section \<open>UTF-8\<close>

text \<open>
  \<open>String::from_utf8\<close>: the well-formed byte sequences of the Unicode standard, table 3-7, which
  \<open>core::str::from_utf8\<close> implements.
\<close>

definition in_range :: "byte \<Rightarrow> byte \<Rightarrow> byte \<Rightarrow> bool" where
  "in_range lo hi b \<longleftrightarrow> lo \<le> b \<and> b \<le> hi"

abbreviation utf8_cont :: "byte \<Rightarrow> bool" where
  "utf8_cont \<equiv> in_range 0x80 0xBF"

text \<open>The number of bytes of the code point at the head of the input, \<open>0\<close> when ill-formed.\<close>

definition utf8_step :: "bytes \<Rightarrow> nat" where
  "utf8_step bs = (case bs of
     [] \<Rightarrow> 0
   | b # r \<Rightarrow>
      if b \<le> 0x7F then 1
      else case r of
        [] \<Rightarrow> 0
      | c # r2 \<Rightarrow>
         if in_range 0xC2 0xDF b then (if utf8_cont c then 2 else 0)
         else case r2 of
           [] \<Rightarrow> 0
         | d # r3 \<Rightarrow>
            if b = 0xE0 then (if in_range 0xA0 0xBF c \<and> utf8_cont d then 3 else 0)
            else if b = 0xED then (if in_range 0x80 0x9F c \<and> utf8_cont d then 3 else 0)
            else if in_range 0xE1 0xEF b then (if utf8_cont c \<and> utf8_cont d then 3 else 0)
            else case r3 of
              [] \<Rightarrow> 0
            | e # _ \<Rightarrow>
               if b = 0xF0 then (if in_range 0x90 0xBF c \<and> utf8_cont d \<and> utf8_cont e then 4 else 0)
               else if b = 0xF4 then (if in_range 0x80 0x8F c \<and> utf8_cont d \<and> utf8_cont e then 4 else 0)
               else if in_range 0xF1 0xF3 b then (if utf8_cont c \<and> utf8_cont d \<and> utf8_cont e then 4 else 0)
               else 0)"

function utf8_valid :: "bytes \<Rightarrow> bool" where
  "utf8_valid bs =
     (if bs = [] then True
      else if utf8_step bs = 0 then False
      else utf8_valid (drop (utf8_step bs) bs))"
  by pat_completeness auto
termination
  by (relation "measure length") auto

declare utf8_valid.simps [simp del]

definition from_utf8 :: "bytes \<Rightarrow> string option" where
  "from_utf8 bs = (if utf8_valid bs then Some (string_of_bytes bs) else None)"

text \<open>The invariant of the Rust type \<open>String\<close>.\<close>

definition rust_string :: "string \<Rightarrow> bool" where
  "rust_string s \<longleftrightarrow> utf8_valid (as_bytes s)"

lemma utf8_valid_Nil [simp]: "utf8_valid []"
  by (simp add: utf8_valid.simps)

lemma from_utf8_as_bytes [simp]: "rust_string s \<Longrightarrow> from_utf8 (as_bytes s) = Some s"
  by (simp add: from_utf8_def rust_string_def)

lemma from_utf8_SomeD: "from_utf8 bs = Some s \<Longrightarrow> rust_string s \<and> as_bytes s = bs"
  by (auto simp: from_utf8_def rust_string_def split: if_splits)

lemma rust_string_Nil [simp]: "rust_string []"
  by (simp add: rust_string_def as_bytes_def)

definition is_ascii :: "char \<Rightarrow> bool" where
  "is_ascii c \<longleftrightarrow> byte_of_char c \<le> 0x7F"

lemma utf8_valid_ascii_Cons: "b \<le> 0x7F \<Longrightarrow> utf8_valid (b # bs) = utf8_valid bs"
  by (subst utf8_valid.simps) (simp add: utf8_step_def)

lemma ascii_rust_string: "list_all is_ascii s \<Longrightarrow> rust_string s"
  by (induction s) (auto simp: rust_string_def as_bytes_def is_ascii_def utf8_valid_ascii_Cons)

section \<open>Splitting strings\<close>

text \<open>\<open>s.split(d)\<close> for an ASCII separator: always at least one segment.\<close>

fun split_on :: "char \<Rightarrow> string \<Rightarrow> string list" where
  "split_on d [] = [[]]"
| "split_on d (c # s) =
     (if c = d then [] # split_on d s
      else case split_on d s of
        [] \<Rightarrow> [[c]]
      | w # ws \<Rightarrow> (c # w) # ws)"

lemma split_on_nonempty [simp]: "split_on d s \<noteq> []"
  by (induction s) (auto split: list.splits)

lemma split_on_no_sep: "d \<notin> set s \<Longrightarrow> split_on d s = [s]"
  by (induction s) auto

lemma split_on_segments: "w \<in> set (split_on d s) \<Longrightarrow> d \<notin> set w"
  by (induction s arbitrary: w) (auto split: if_splits list.splits)

text \<open>\<open>s.contains(pat)\<close> for a string pattern.\<close>

fun contains_str :: "string \<Rightarrow> string \<Rightarrow> bool" where
  "contains_str pat [] = (pat = [])"
| "contains_str pat (c # s) = (take (length pat) (c # s) = pat \<or> contains_str pat s)"

lemma contains_str_iff: "contains_str pat s \<longleftrightarrow> (\<exists>xs ys. s = xs @ pat @ ys)"
proof (induction s)
  case Nil
  show ?case by simp
next
  case (Cons c s)
  have "take (length pat) (c # s) = pat \<longleftrightarrow> (\<exists>ys. c # s = pat @ ys)"
    by (metis append_eq_conv_conj append_take_drop_id)
  moreover have "(\<exists>xs ys. c # s = xs @ pat @ ys) \<longleftrightarrow>
      (\<exists>ys. c # s = pat @ ys) \<or> (\<exists>xs ys. s = xs @ pat @ ys)"
    by (metis (no_types, lifting) append_Cons append_Nil list.inject neq_Nil_conv)
  ultimately show ?case using Cons by simp
qed

section \<open>Cursor readers\<close>

text \<open>
  Every decoder of the repository has its own \<open>read_exact::<N>\<close>: it fails with one error of its own
  when fewer than \<open>N\<close> bytes remain after the cursor, and otherwise returns the next \<open>N\<close> bytes and
  advances. That is the contract below; what the decoders build on it (integers, length-prefixed
  fields) is proved here once.
\<close>

type_synonym ('e, 'a) reader = "bytes \<Rightarrow> nat \<Rightarrow> 'e + 'a \<times> nat"

definition read_le :: "(nat \<Rightarrow> ('e, bytes) reader) \<Rightarrow> nat \<Rightarrow> ('e, 'a::len word) reader" where
  "read_le rd n p c = and_then (rd n p c) (\<lambda>(bs, c'). Inr (from_le bs, c'))"

text \<open>The bytes from the cursor on are \<open>bs\<close>, then \<open>r\<close>.\<close>

definition at_cursor :: "bytes \<Rightarrow> nat \<Rightarrow> bytes \<Rightarrow> bool" where
  "at_cursor p c bs \<longleftrightarrow> c \<le> length p \<and> drop c p = bs"

lemma at_cursor_start [simp]: "at_cursor p 0 p"
  by (simp add: at_cursor_def)

lemma at_cursor_advance: "at_cursor p c (bs @ r) \<Longrightarrow> at_cursor p (c + length bs) r"
  unfolding at_cursor_def
  by (metis add.commute append_eq_conv_conj drop_drop length_append length_drop le_add1
      le_add_diff_inverse add_le_mono1 add_left_mono)

lemma at_cursor_end: "at_cursor p c [] \<Longrightarrow> c = length p"
  by (simp add: at_cursor_def)

lemma at_cursor_length: "at_cursor p c bs \<Longrightarrow> length p = c + length bs"
  by (auto simp: at_cursor_def)

lemma at_cursor_exists: "c \<le> length p \<Longrightarrow> \<exists>bs. at_cursor p c bs"
  by (simp add: at_cursor_def)

locale cursor_reader =
  fixes rd :: "nat \<Rightarrow> ('e, bytes) reader"
    and short :: 'e
  assumes rd_eq: "rd n p c =
    (if length p - c < n then Inl short else Inr (take n (drop c p), c + n))"
begin

lemma rd_at:
  "at_cursor p c (bs @ r) \<Longrightarrow> n = length bs \<Longrightarrow> rd n p c = Inr (bs, c + n)"
  by (frule at_cursor_length) (auto simp: rd_eq at_cursor_def)

lemma read_le_at:
  assumes "at_cursor p c (le_bytes n (w :: 'a::len word) @ r)" and "8 * n = LENGTH('a)"
  shows "read_le rd n p c = Inr (w, c + n)"
  using rd_at [OF assms(1), of n] assms(2) by (simp add: read_le_def)

lemma rd_InrD:
  assumes "rd n p c = Inr (bs, c')" and "c \<le> length p"
  shows "c' = c + n \<and> length bs = n \<and> at_cursor p c (bs @ drop c' p) \<and> c' \<le> length p"
  using assms by (auto simp: rd_eq at_cursor_def split: if_splits) (metis add.commute append_take_drop_id drop_drop)

lemma read_le_InrD:
  assumes "read_le rd n p c = Inr (w :: 'a::len word, c')" and "c \<le> length p" and "8 * n = LENGTH('a)"
  shows "c' = c + n \<and> c' \<le> length p \<and> at_cursor p c (le_bytes n w @ drop c' p)"
proof -
  from assms(1) obtain bs where bs: "rd n p c = Inr (bs, c')" "w = from_le bs"
    by (auto simp: read_le_def and_then_Inr_iff)
  with rd_InrD [OF bs(1) assms(2)] assms(3) show ?thesis
    by (auto simp: le_bytes_from_le)
qed

lemma rd_short: "rd n p c = Inl e \<Longrightarrow> e = short"
  by (auto simp: rd_eq split: if_splits)

lemma read_le_short: "read_le rd n p c = Inl e \<Longrightarrow> e = short"
  by (auto simp: read_le_def and_then_Inl_iff dest: rd_short)

end

text \<open>
  A length-prefixed field: a little-endian \<open>u32\<close> length, a limit on it, then the bytes. The limit's
  error and the truncation error are the decoder's own.
\<close>

definition read_prefixed ::
    "(nat \<Rightarrow> ('e, bytes) reader) \<Rightarrow> nat \<Rightarrow> 'e \<Rightarrow> 'e \<Rightarrow> ('e, bytes) reader" where
  "read_prefixed rd limit too_large short p c =
     and_then (read_le rd 4 p c) (\<lambda>(w :: u32, c1).
       let len = unat w in
       if len > limit then Inl too_large
       else if length p - c1 < len then Inl short
       else Inr (take len (drop c1 p), c1 + len))"

definition prefixed :: "bytes \<Rightarrow> bytes" where
  "prefixed bs = le_bytes 4 (of_nat (length bs) :: u32) @ bs"

lemma length_prefixed [simp]: "length (prefixed bs) = 4 + length bs"
  by (simp add: prefixed_def)

lemma unat_of_nat_u32: "n < 2 ^ 32 \<Longrightarrow> unat (of_nat n :: u32) = n"
  by (simp add: unat_of_nat take_bit_nat_eq_self)

lemma unat_of_nat_u64: "n < 2 ^ 64 \<Longrightarrow> unat (of_nat n :: u64) = n"
  by (simp add: unat_of_nat take_bit_nat_eq_self)

context cursor_reader
begin

lemma read_prefixed_at:
  assumes "at_cursor p c (prefixed bs @ r)" and "length bs \<le> limit" and "limit < 2 ^ 32"
  shows "read_prefixed rd limit tlr sh p c = Inr (bs, c + length (prefixed bs))"
proof -
  let ?w = "of_nat (length bs) :: u32"
  from assms(1) have a: "at_cursor p c (le_bytes 4 ?w @ (bs @ r))"
    by (simp add: prefixed_def)
  have r: "read_le rd 4 p c = Inr (?w, c + 4)"
    by (rule read_le_at [OF a]) simp
  have b: "at_cursor p (c + 4) (bs @ r)"
    using at_cursor_advance [OF a] by simp
  have u: "unat ?w = length bs"
    using assms(2,3) by (intro unat_of_nat_u32) simp
  from at_cursor_length [OF b] have "\<not> length p - (c + 4) < length bs" by simp
  moreover from b have "take (length bs) (drop (c + 4) p) = bs"
    by (simp add: at_cursor_def)
  ultimately show ?thesis
    using r u assms(2) by (simp add: read_prefixed_def Let_def)
qed

lemma read_prefixed_InrD:
  assumes "read_prefixed rd limit tlr sh p c = Inr (bs, c')" and "c \<le> length p" and "limit < 2 ^ 32"
  shows "c' = c + length (prefixed bs) \<and> c' \<le> length p \<and> length bs \<le> limit
    \<and> at_cursor p c (prefixed bs @ drop c' p)"
proof -
  from assms(1) obtain w :: u32 and c1 where
    w: "read_le rd 4 p c = Inr (w, c1)" and le: "unat w \<le> limit"
    and room: "\<not> length p - c1 < unat w"
    and bs: "bs = take (unat w) (drop c1 p)" and c': "c' = c1 + unat w"
    by (auto simp: read_prefixed_def and_then_Inr_iff Let_def split: if_splits)
  from read_le_InrD [OF w assms(2)] have c1: "c1 = c + 4" "c1 \<le> length p"
    and a: "at_cursor p c (le_bytes 4 w @ drop c1 p)" by auto
  have len: "length bs = unat w" using bs room by simp
  then have "of_nat (length bs) = w" by simp
  moreover have "drop c1 p = bs @ drop c' p"
    using bs c' by (metis add.commute append_take_drop_id drop_drop)
  ultimately have "at_cursor p c (prefixed bs @ drop c' p)"
    using a by (simp add: prefixed_def)
  then show ?thesis
    using c1 c' len le room by simp
qed

lemma read_prefixed_Inl:
  "read_prefixed rd limit tlr sh p c = Inl e \<Longrightarrow> e = short \<or> e = tlr \<or> e = sh"
  by (auto simp: read_prefixed_def and_then_Inl_iff Let_def split: if_splits dest: read_le_short)

end

end
