(* ===== verification/Schema.thy ===== *)
theory Schema
  imports Prelude
begin

text \<open>
  Schema definitions (\<open>crates/mfs-store/src/schema.rs\<close>): the declared fields of a collection, the
  type syntax \<open>SchemaFieldType::parse\<close> and the validator every schema operation of the store calls
  first. \<open>wf_schema\<close> states what a valid schema promises; \<open>validate_iff\<close> shows that the early-return
  loops of the source accept exactly the schemas with those properties.
\<close>

section \<open>Data\<close>

record reference =
  ref_collection :: string
  ref_field :: string

datatype schema_field_type =
    FT_String | FT_Int32 | FT_Int64 | FT_Float | FT_Bool
  | FT_Object "schema_field list"
  | FT_Array schema_field_type
  | FT_Json | FT_Bytes
and schema_field = SchemaField
    (f_name: string) (f_type: schema_field_type)
    (f_primary: bool) (f_optional: bool) (f_indexed: bool) (f_stored: bool) (f_unique: bool)
    (f_reference: "reference option") (f_sort: bool) (f_range_index: bool)

record schema =
  s_name :: string
  s_fields :: "schema_field list"
  enable_nested_fields :: bool
  default_sort_field :: "string option"

datatype (plugins only: code) schema_error =
    EmptySchemaName
  | InvalidSchemaName string
  | EmptyFields
  | EmptyFieldName
  | InvalidFieldPath string
  | NestedFieldDisabled string
  | DuplicateField string
  | MissingPrimaryField
  | MultiplePrimaryFields
  | PrimaryFieldOptional string
  | PrimaryFieldNotStored string
  | InvalidPrimaryType string
  | UnsupportedIndexType string
  | UniqueFieldNotIndexed string
  | UniqueFieldOptional string
  | SortFieldNotIndexed string
  | UnsupportedSortType string
  | RangeFieldNotIndexed string
  | UnsupportedRangeIndexType string
  | InvalidReference string
  | UnsupportedReferenceType string
  | ObjectFieldUsesOperationalFlag string string
  | DefaultSortFieldMissing string
  | DefaultSortFieldNotSortable string
  | UnknownFieldType string
  | ArrayNestingTooDeep string
  | JsonParse
  | JsonShape string

definition new_schema :: "string \<Rightarrow> schema_field list \<Rightarrow> schema" where
  "new_schema name fs =
     \<lparr>s_name = name, s_fields = fs, enable_nested_fields = False, default_sort_field = None\<rparr>"

definition new_field :: "string \<Rightarrow> schema_field_type \<Rightarrow> schema_field" where
  "new_field name ty = SchemaField name ty False False False True False None False False"

definition new_reference :: "string \<Rightarrow> string \<Rightarrow> reference" where
  "new_reference coll fld = \<lparr>ref_collection = coll, ref_field = fld\<rparr>"

section \<open>Field types\<close>

fun is_indexable :: "schema_field_type \<Rightarrow> bool" where
  "is_indexable (FT_Array inner) =
     (case inner of FT_Array _ \<Rightarrow> False | _ \<Rightarrow> is_indexable inner)"
| "is_indexable (FT_Object _) = False"
| "is_indexable FT_Json = False"
| "is_indexable _ = True"

fun is_sortable :: "schema_field_type \<Rightarrow> bool" where
  "is_sortable (FT_Object _) = False"
| "is_sortable (FT_Array _) = False"
| "is_sortable FT_Json = False"
| "is_sortable _ = True"

fun is_numeric :: "schema_field_type \<Rightarrow> bool" where
  "is_numeric FT_Int32 = True"
| "is_numeric FT_Int64 = True"
| "is_numeric FT_Float = True"
| "is_numeric _ = False"

fun is_reference_compatible :: "schema_field_type \<Rightarrow> bool" where
  "is_reference_compatible FT_String = True"
| "is_reference_compatible FT_Int32 = True"
| "is_reference_compatible FT_Int64 = True"
| "is_reference_compatible FT_Bytes = True"
| "is_reference_compatible _ = False"

definition max_array_nesting :: nat where
  "max_array_nesting = 8"

definition strip_suffix :: "string \<Rightarrow> string \<Rightarrow> string option" where
  "strip_suffix suf s =
     (if length suf \<le> length s \<and> drop (length s - length suf) s = suf
      then Some (take (length s - length suf) s) else None)"

lemma strip_suffix_SomeD: "strip_suffix suf s = Some r \<Longrightarrow> s = r @ suf"
  by (auto simp: strip_suffix_def split: if_splits) (metis append_take_drop_id)

lemma strip_suffix_append [simp]: "strip_suffix suf (r @ suf) = Some r"
  by (simp add: strip_suffix_def)

text \<open>The \<open>while let\<close> loop of \<open>parse\<close>: strip one \<open>[]\<close> per round, counting the array depth.\<close>

function strip_arrays :: "string \<Rightarrow> string \<Rightarrow> nat \<Rightarrow> schema_error + string \<times> nat" where
  "strip_arrays input base depth =
     (case strip_suffix ''[]'' base of
        None \<Rightarrow> Inr (base, depth)
      | Some inner \<Rightarrow>
          if inner = [] then Inl (UnknownFieldType input)
          else if depth + 1 > max_array_nesting then Inl (ArrayNestingTooDeep input)
          else strip_arrays input inner (depth + 1))"
  by pat_completeness auto
termination
  by (relation "measure (\<lambda>(input, base, depth). length base)")
    (auto dest: strip_suffix_SomeD)

declare strip_arrays.simps [simp del]

definition base_type :: "string \<Rightarrow> schema_field_type option" where
  "base_type b =
     (if b = ''string'' then Some FT_String
      else if b = ''int32'' then Some FT_Int32
      else if b = ''int64'' then Some FT_Int64
      else if b = ''float'' then Some FT_Float
      else if b = ''bool'' then Some FT_Bool
      else if b = ''object'' then Some (FT_Object [])
      else if b = ''json'' then Some FT_Json
      else if b = ''bytes'' then Some FT_Bytes
      else None)"

definition parse_field_type :: "string \<Rightarrow> schema_error + schema_field_type" where
  "parse_field_type input =
     and_then (strip_arrays input input 0) (\<lambda>(base, depth).
       and_then (ok_or (UnknownFieldType input) (base_type base)) (\<lambda>ty.
         Inr ((FT_Array ^^ depth) ty)))"

section \<open>Names\<close>

definition is_ascii_alphabetic :: "char \<Rightarrow> bool" where
  "is_ascii_alphabetic c \<longleftrightarrow> (CHR ''a'' \<le> c \<and> c \<le> CHR ''z'') \<or> (CHR ''A'' \<le> c \<and> c \<le> CHR ''Z'')"

definition is_ascii_alphanumeric :: "char \<Rightarrow> bool" where
  "is_ascii_alphanumeric c \<longleftrightarrow> is_ascii_alphabetic c \<or> (CHR ''0'' \<le> c \<and> c \<le> CHR ''9'')"

fun is_identifier_segment :: "string \<Rightarrow> bool" where
  "is_identifier_segment [] = False"
| "is_identifier_segment (c # cs) =
     ((is_ascii_alphabetic c \<or> c = CHR ''_'') \<and>
      list_all (\<lambda>ch. is_ascii_alphanumeric ch \<or> ch = CHR ''_'' \<or> ch = CHR ''-'') cs)"

definition validate_collection_name :: "string \<Rightarrow> schema_error + unit" where
  "validate_collection_name name =
     (if name = [] then Inl EmptySchemaName
      else if \<not> is_identifier_segment name then Inl (InvalidSchemaName name)
      else Inr ())"

definition validate_field_name :: "string \<Rightarrow> schema_error + unit" where
  "validate_field_name name =
     (if name = [] then Inl EmptyFieldName
      else if list_ex (\<lambda>segment. \<not> is_identifier_segment segment) (split_on (CHR ''.'') name)
        then Inl (InvalidFieldPath name)
      else Inr ())"

definition reference_text :: "reference \<Rightarrow> string" where
  "reference_text r = ref_collection r @ ''.'' @ ref_field r"

definition validate_reference :: "reference \<Rightarrow> schema_error + unit" where
  "validate_reference r =
     and_then (map_err (\<lambda>_. InvalidReference (reference_text r))
                 (validate_collection_name (ref_collection r))) (\<lambda>_.
     and_then (map_err (\<lambda>_. InvalidReference (reference_text r))
                 (validate_field_name (ref_field r))) (\<lambda>_.
     Inr ()))"

text \<open>\<open>input.split_once('.')\<close>.\<close>

fun split_once :: "char \<Rightarrow> string \<Rightarrow> (string \<times> string) option" where
  "split_once d [] = None"
| "split_once d (c # s) =
     (if c = d then Some ([], s) else map_option (\<lambda>(a, b). (c # a, b)) (split_once d s))"

definition parse_reference :: "string \<Rightarrow> schema_error + reference" where
  "parse_reference input =
     and_then (ok_or (InvalidReference input) (split_once (CHR ''.'') input)) (\<lambda>(collection, fld).
       let r = new_reference collection fld in
       and_then (map_err (\<lambda>_. InvalidReference input) (validate_reference r)) (\<lambda>_. Inr r))"

section \<open>Validation\<close>

fun validate_field_type :: "schema_field_type \<Rightarrow> schema_error + unit"
  and validate_object_fields :: "string list \<Rightarrow> schema_field list \<Rightarrow> schema_error + unit"
  and validate_object_field :: "schema_field \<Rightarrow> schema_error + unit" where
  "validate_field_type (FT_Object fs) = validate_object_fields [] fs"
| "validate_field_type (FT_Array inner) = validate_field_type inner"
| "validate_field_type _ = Inr ()"
| "validate_object_fields seen [] = Inr ()"
| "validate_object_fields seen (f # fs) =
     and_then (validate_object_field f) (\<lambda>_.
       if f_name f \<in> set seen then Inl (DuplicateField (f_name f))
       else validate_object_fields (f_name f # seen) fs)"
| "validate_object_field (SchemaField n ty prim opt idx sto uniq rf srt rng) =
     and_then (validate_field_name n) (\<lambda>_.
     and_then (validate_field_type ty) (\<lambda>_.
       if prim then Inl (ObjectFieldUsesOperationalFlag n ''primary'')
       else if idx then Inl (ObjectFieldUsesOperationalFlag n ''indexed'')
       else if uniq then Inl (ObjectFieldUsesOperationalFlag n ''unique'')
       else if srt then Inl (ObjectFieldUsesOperationalFlag n ''sort'')
       else if rng then Inl (ObjectFieldUsesOperationalFlag n ''range_index'')
       else if rf \<noteq> None then Inl (ObjectFieldUsesOperationalFlag n ''reference'')
       else Inr ()))"

definition validate_primary_field :: "schema_field \<Rightarrow> schema_error + unit" where
  "validate_primary_field f =
     (if f_optional f then Inl (PrimaryFieldOptional (f_name f))
      else if \<not> f_stored f then Inl (PrimaryFieldNotStored (f_name f))
      else if \<not> is_reference_compatible (f_type f) then Inl (InvalidPrimaryType (f_name f))
      else Inr ())"

definition validate_field :: "schema \<Rightarrow> schema_field \<Rightarrow> schema_error + unit" where
  "validate_field s f =
     and_then (validate_field_name (f_name f)) (\<lambda>_.
     if \<not> enable_nested_fields s \<and> CHR ''.'' \<in> set (f_name f)
       then Inl (NestedFieldDisabled (f_name f)) else
     and_then (validate_field_type (f_type f)) (\<lambda>_.
     if f_indexed f \<and> \<not> is_indexable (f_type f) then Inl (UnsupportedIndexType (f_name f))
     else if f_unique f \<and> \<not> f_indexed f then Inl (UniqueFieldNotIndexed (f_name f))
     else if f_unique f \<and> f_optional f then Inl (UniqueFieldOptional (f_name f))
     else if f_sort f \<and> \<not> f_indexed f then Inl (SortFieldNotIndexed (f_name f))
     else if f_sort f \<and> \<not> is_sortable (f_type f) then Inl (UnsupportedSortType (f_name f))
     else if f_range_index f \<and> \<not> f_indexed f then Inl (RangeFieldNotIndexed (f_name f))
     else if f_range_index f \<and> \<not> is_numeric (f_type f) then Inl (UnsupportedRangeIndexType (f_name f))
     else case f_reference f of
         None \<Rightarrow> Inr ()
       | Some r \<Rightarrow>
           and_then (validate_reference r) (\<lambda>_.
             if \<not> is_reference_compatible (f_type f)
             then Inl (UnsupportedReferenceType (f_name f)) else Inr ())))"

definition schema_field_named :: "schema \<Rightarrow> string \<Rightarrow> schema_field option" where
  "schema_field_named s name = find (\<lambda>f. f_name f = name) (s_fields s)"

definition primary_field_of :: "schema \<Rightarrow> schema_field option" where
  "primary_field_of s = find f_primary (s_fields s)"

text \<open>One round of the loop over the fields; the state is \<open>(seen, primary_count)\<close>.\<close>

definition validate_step ::
    "schema \<Rightarrow> schema_field \<Rightarrow> string list \<times> nat \<Rightarrow> schema_error + string list \<times> nat" where
  "validate_step s f st = (case st of (seen, primary_count) \<Rightarrow>
     and_then (validate_field s f) (\<lambda>_.
       if f_name f \<in> set seen then Inl (DuplicateField (f_name f))
       else if f_primary f
         then and_then (validate_primary_field f) (\<lambda>_. Inr (f_name f # seen, primary_count + 1))
         else Inr (f_name f # seen, primary_count)))"

definition validate :: "schema \<Rightarrow> schema_error + unit" where
  "validate s =
     and_then (validate_collection_name (s_name s)) (\<lambda>_.
     if s_fields s = [] then Inl EmptyFields else
     and_then (try_fold (validate_step s) (s_fields s) ([], 0)) (\<lambda>(_, primary_count).
     if primary_count = 0 then Inl MissingPrimaryField
     else if primary_count \<noteq> 1 then Inl MultiplePrimaryFields
     else case default_sort_field s of
         None \<Rightarrow> Inr ()
       | Some n \<Rightarrow>
           and_then (ok_or (DefaultSortFieldMissing n) (schema_field_named s n)) (\<lambda>f.
             if \<not> f_sort f then Inl (DefaultSortFieldNotSortable n) else Inr ())))"

section \<open>What a valid schema promises\<close>

definition valid_path :: "string \<Rightarrow> bool" where
  "valid_path n \<longleftrightarrow> list_all is_identifier_segment (split_on (CHR ''.'') n)"

definition wf_reference :: "reference \<Rightarrow> bool" where
  "wf_reference r \<longleftrightarrow> is_identifier_segment (ref_collection r) \<and> valid_path (ref_field r)"

fun wf_type :: "schema_field_type \<Rightarrow> bool"
  and wf_object_field :: "schema_field \<Rightarrow> bool" where
  "wf_type (FT_Object fs) = (distinct (map f_name fs) \<and> (\<forall>f \<in> set fs. wf_object_field f))"
| "wf_type (FT_Array inner) = wf_type inner"
| "wf_type _ = True"
| "wf_object_field (SchemaField n ty prim opt idx sto uniq rf srt rng) =
     (valid_path n \<and> wf_type ty \<and> \<not> prim \<and> \<not> idx \<and> \<not> uniq \<and> \<not> srt \<and> \<not> rng \<and> rf = None)"

definition wf_field :: "schema \<Rightarrow> schema_field \<Rightarrow> bool" where
  "wf_field s f \<longleftrightarrow>
     valid_path (f_name f)
   \<and> (CHR ''.'' \<in> set (f_name f) \<longrightarrow> enable_nested_fields s)
   \<and> wf_type (f_type f)
   \<and> (f_indexed f \<longrightarrow> is_indexable (f_type f))
   \<and> (f_unique f \<longrightarrow> f_indexed f \<and> \<not> f_optional f)
   \<and> (f_sort f \<longrightarrow> f_indexed f \<and> is_sortable (f_type f))
   \<and> (f_range_index f \<longrightarrow> f_indexed f \<and> is_numeric (f_type f))
   \<and> (\<forall>r. f_reference f = Some r \<longrightarrow> wf_reference r \<and> is_reference_compatible (f_type f))"

definition wf_primary :: "schema_field \<Rightarrow> bool" where
  "wf_primary f \<longleftrightarrow> \<not> f_optional f \<and> f_stored f \<and> is_reference_compatible (f_type f)"

definition wf_schema :: "schema \<Rightarrow> bool" where
  "wf_schema s \<longleftrightarrow>
     is_identifier_segment (s_name s)
   \<and> (\<forall>f \<in> set (s_fields s). wf_field s f)
   \<and> distinct (map f_name (s_fields s))
   \<and> (\<exists>f. filter f_primary (s_fields s) = [f] \<and> wf_primary f)
   \<and> (\<forall>n. default_sort_field s = Some n \<longrightarrow>
        (\<exists>f \<in> set (s_fields s). f_name f = n \<and> f_sort f))"

lemma validate_field_name_iff [simp]: "validate_field_name n = Inr () \<longleftrightarrow> valid_path n"
  by (cases "n = []") (auto simp: validate_field_name_def valid_path_def list_ex_iff list_all_iff)

lemma validate_collection_name_iff [simp]:
  "validate_collection_name n = Inr () \<longleftrightarrow> is_identifier_segment n"
  by (cases n) (auto simp: validate_collection_name_def)

lemma validate_reference_iff [simp]: "validate_reference r = Inr () \<longleftrightarrow> wf_reference r"
  by (auto simp: validate_reference_def wf_reference_def and_then_Inr_iff)

lemma validate_types_iff:
  "validate_field_type ty = Inr () \<longleftrightarrow> wf_type ty"
  "validate_object_fields seen fs = Inr () \<longleftrightarrow>
     distinct (map f_name fs) \<and> set (map f_name fs) \<inter> set seen = {} \<and>
     (\<forall>f \<in> set fs. wf_object_field f)"
  "validate_object_field f = Inr () \<longleftrightarrow> wf_object_field f"
proof (induction ty and seen fs and f
    rule: validate_field_type_validate_object_fields_validate_object_field.induct)
  case (5 ty)
  then show ?case by (auto simp: and_then_Inr_iff)
qed (auto simp: and_then_Inr_iff)

lemma validate_primary_field_iff [simp]: "validate_primary_field f = Inr () \<longleftrightarrow> wf_primary f"
  by (auto simp: validate_primary_field_def wf_primary_def)

lemma validate_field_iff [simp]: "validate_field s f = Inr () \<longleftrightarrow> wf_field s f"
  by (auto simp: validate_field_def wf_field_def and_then_Inr_iff validate_types_iff
      split: if_splits option.splits)

lemma validate_step_iff [simp]:
  "validate_step s f (seen, n) = Inr st \<longleftrightarrow>
     wf_field s f \<and> f_name f \<notin> set seen \<and> (f_primary f \<longrightarrow> wf_primary f) \<and>
     st = (f_name f # seen, n + (if f_primary f then 1 else 0))"
  by (auto simp: validate_step_def and_then_Inr_iff split: if_splits)

lemma validate_loop_iff:
  "try_fold (validate_step s) fs (seen, n) = Inr st \<longleftrightarrow>
     (\<forall>f \<in> set fs. wf_field s f \<and> (f_primary f \<longrightarrow> wf_primary f)) \<and>
     distinct (map f_name fs) \<and> set (map f_name fs) \<inter> set seen = {} \<and>
     st = (rev (map f_name fs) @ seen, n + length (filter f_primary fs))"
proof (induction fs arbitrary: seen n)
  case Nil
  show ?case by auto
next
  case (Cons f fs)
  show ?case
    by (auto simp: and_then_Inr_iff Cons)
qed

lemma find_filter_Cons: "filter P xs = x # ys \<Longrightarrow> find P xs = Some x"
  by (induction xs) (auto split: if_splits)

lemma filter_single_iff:
  "length (filter P xs) = Suc 0 \<longleftrightarrow> (\<exists>x. filter P xs = [x])"
  by (auto simp: length_Suc_conv)

lemma schema_field_named_Some:
  "schema_field_named s n = Some f \<Longrightarrow> f \<in> set (s_fields s) \<and> f_name f = n"
  by (auto simp: schema_field_named_def find_Some_iff)

lemma schema_field_named_distinct:
  "distinct (map f_name (s_fields s)) \<Longrightarrow> f \<in> set (s_fields s) \<Longrightarrow>
     schema_field_named s (f_name f) = Some f"
proof -
  assume d: "distinct (map f_name (s_fields s))" and f: "f \<in> set (s_fields s)"
  then obtain g where g: "schema_field_named s (f_name f) = Some g"
    by (cases "schema_field_named s (f_name f)") (auto simp: schema_field_named_def find_None_iff)
  with schema_field_named_Some [OF g] d f show ?thesis
    by (metis distinct_map inj_onD)
qed

lemma validate_accepts_iff: "validate s = Inr () \<longleftrightarrow> wf_schema s"
proof -
  have "validate s = Inr () \<longleftrightarrow> is_identifier_segment (s_name s) \<and> s_fields s \<noteq> []
     \<and> (\<forall>f \<in> set (s_fields s). wf_field s f \<and> (f_primary f \<longrightarrow> wf_primary f))
     \<and> distinct (map f_name (s_fields s)) \<and> length (filter f_primary (s_fields s)) = Suc 0
     \<and> (\<forall>n. default_sort_field s = Some n \<longrightarrow>
          (\<exists>f. schema_field_named s n = Some f \<and> f_sort f))"
    by (auto simp: validate_def and_then_Inr_iff validate_loop_iff
        split: option.splits if_splits)
  also have "\<dots> \<longleftrightarrow> wf_schema s"
  proof -
    have "(\<exists>f. schema_field_named s n = Some f \<and> f_sort f) \<longleftrightarrow>
        (\<exists>f \<in> set (s_fields s). f_name f = n \<and> f_sort f)"
      if "distinct (map f_name (s_fields s))" for n
      using that by (metis schema_field_named_Some schema_field_named_distinct)
    moreover have "(\<forall>f \<in> set (s_fields s). f_primary f \<longrightarrow> wf_primary f) \<longleftrightarrow> wf_primary g"
      if "filter f_primary (s_fields s) = [g]" for g
    proof -
      have "f \<in> set (s_fields s) \<and> f_primary f \<longleftrightarrow> f \<in> set (filter f_primary (s_fields s))" for f
        by auto
      with that show ?thesis by (metis empty_iff list.set(1) list.set(2) insert_iff)
    qed
    ultimately show ?thesis
      unfolding wf_schema_def filter_single_iff by (auto 4 4)
  qed
  finally show ?thesis .
qed

lemma wf_schema_primary:
  assumes "wf_schema s"
  obtains f where "primary_field_of s = Some f" "f \<in> set (s_fields s)" "wf_primary f" "wf_field s f"
    "filter f_primary (s_fields s) = [f]"
proof -
  from assms obtain f where f: "filter f_primary (s_fields s) = [f]" "wf_primary f"
    by (auto simp: wf_schema_def)
  then have mem: "f \<in> set (s_fields s)" "f_primary f"
    by (metis (mono_tags, lifting) filter_eq_ConsD in_set_conv_decomp)+
  have "primary_field_of s = Some f"
    unfolding primary_field_of_def using f(1) by (rule find_filter_Cons)
  with f mem assms show ?thesis
    by (auto simp: wf_schema_def intro: that)
qed

text \<open>C17. \<open>Schema::validate\<close> accepts a schema exactly when its name and all field paths are identifiers,
  field names are distinct, exactly one required, stored field of a key type is primary, every index, sort,
  range, unique and reference flag sits on a field type that supports it, and the default sort field
  is a declared sortable field.\<close>

theorem validate_iff: "validate s = Inr () \<longleftrightarrow> wf_schema s"
  by (rule validate_accepts_iff)

end
