(* ===== verification/Rust_Collections.thy ===== *)
theory Rust_Collections
  imports Prelude
begin

text \<open>
  The standard collections the crates keep their data in. A \<open>BTreeMap\<close> is the list of its entries in
  strictly increasing key order, a \<open>HashMap\<close> an association list with distinct keys (its order is
  never observed by the code modelled here); \<open>sort_by\<close> on keys is the library's stable
  \<open>sort_key\<close>. Also here: \<open>f64\<close> as its IEEE-754 bit pattern, with the conversions and the
  addition the crates use, and decimal rendering of \<open>usize\<close>.
\<close>

section \<open>BTreeMap\<close>

type_synonym ('k, 'v) btree = "('k \<times> 'v) list"

fun bt_insert :: "'k::linorder \<Rightarrow> 'v \<Rightarrow> ('k, 'v) btree \<Rightarrow> ('k, 'v) btree" where
  "bt_insert k v [] = [(k, v)]"
| "bt_insert k v ((k', v') # m) =
     (if k < k' then (k, v) # (k', v') # m
      else if k = k' then (k, v) # m
      else (k', v') # bt_insert k v m)"

definition bt_remove :: "'k::linorder \<Rightarrow> ('k, 'v) btree \<Rightarrow> ('k, 'v) btree" where
  "bt_remove k m = filter (\<lambda>(k', _). k' \<noteq> k) m"

definition bt_wf :: "('k::linorder, 'v) btree \<Rightarrow> bool" where
  "bt_wf m \<longleftrightarrow> sorted_wrt (<) (map fst m)"

text \<open>\<open>iter.collect::<BTreeMap>()\<close>: later entries overwrite earlier ones.\<close>

definition bt_collect :: "('k::linorder \<times> 'v) list \<Rightarrow> ('k, 'v) btree" where
  "bt_collect es = fold (\<lambda>(k, v) m. bt_insert k v m) es []"

lemma bt_wf_Nil [simp]: "bt_wf []"
  by (simp add: bt_wf_def)

lemma keys_bt_insert [simp]: "fst ` set (bt_insert k v m) = insert k (fst ` set m)"
  by (induction k v m rule: bt_insert.induct) auto

lemma set_bt_insert_subset: "set (bt_insert k v m) \<subseteq> insert (k, v) (set m)"
  by (induction k v m rule: bt_insert.induct) auto

lemma bt_wf_insert [simp]: "bt_wf m \<Longrightarrow> bt_wf (bt_insert k v m)"
proof (induction k v m rule: bt_insert.induct)
  case (1 k v)
  then show ?case by (simp add: bt_wf_def)
next
  case (2 k v k' v' m)
  have "\<forall>y \<in> fst ` set (bt_insert k v m). k' < y" if "k' < k"
    using that 2(2) by (auto simp: bt_wf_def)
  then show ?case
    using 2 by (auto simp: bt_wf_def)
qed

lemma bt_insert_append:
  "\<forall>k' \<in> fst ` set m. k' < k \<Longrightarrow> bt_insert k v m = m @ [(k, v)]"
  by (induction m) (auto dest: order_less_asym)

lemma map_of_bt_insert [simp]: "bt_wf m \<Longrightarrow> map_of (bt_insert k v m) = (map_of m)(k \<mapsto> v)"
proof (induction k v m rule: bt_insert.induct)
  case (1 k v)
  then show ?case by simp
next
  case (2 k v k' v' m)
  then show ?case by (auto simp: bt_wf_def fun_eq_iff)
qed

lemma bt_wf_remove [simp]: "bt_wf m \<Longrightarrow> bt_wf (bt_remove k m)"
  by (induction m) (auto simp: bt_wf_def bt_remove_def)

lemma map_of_bt_remove [simp]: "map_of (bt_remove k m) = (map_of m)(k := None)"
  by (induction m) (auto simp: bt_remove_def fun_eq_iff)

lemma bt_wf_distinct: "bt_wf m \<Longrightarrow> distinct (map fst m)"
  by (simp add: bt_wf_def strict_sorted_iff)

section \<open>HashMap\<close>

type_synonym ('k, 'v) hmap = "('k \<times> 'v) list"

definition hm_insert :: "'k \<Rightarrow> 'v \<Rightarrow> ('k, 'v) hmap \<Rightarrow> ('k, 'v) hmap" where
  "hm_insert k v m = AList.update k v m"

definition hm_remove :: "'k \<Rightarrow> ('k, 'v) hmap \<Rightarrow> ('k, 'v) hmap" where
  "hm_remove k m = AList.delete k m"

definition hm_wf :: "('k, 'v) hmap \<Rightarrow> bool" where
  "hm_wf m \<longleftrightarrow> distinct (map fst m)"

lemma map_of_hm_insert [simp]: "map_of (hm_insert k v m) = (map_of m)(k \<mapsto> v)"
  by (simp add: hm_insert_def update_conv')

lemma map_of_hm_remove [simp]: "map_of (hm_remove k m) = (map_of m)(k := None)"
  by (simp add: hm_remove_def delete_conv')

lemma hm_wf_Nil [simp]: "hm_wf []"
  by (simp add: hm_wf_def)

lemma hm_wf_insert [simp]: "hm_wf m \<Longrightarrow> hm_wf (hm_insert k v m)"
  by (simp add: hm_wf_def hm_insert_def distinct_update)

lemma hm_wf_remove [simp]: "hm_wf m \<Longrightarrow> hm_wf (hm_remove k m)"
  by (simp add: hm_wf_def hm_remove_def distinct_delete)

lemma keys_hm_insert [simp]: "fst ` set (hm_insert k v m) = insert k (fst ` set m)"
  by (simp add: hm_insert_def dom_update)

lemma hm_insert_fresh: "map_of m k = None \<Longrightarrow> hm_insert k v m = m @ [(k, v)]"
  by (induction m) (auto simp: hm_insert_def split: if_splits)

lemma length_hm_insert:
  "length (hm_insert k v m) = (if k \<in> fst ` set m then length m else Suc (length m))"
  by (induction m) (auto simp: hm_insert_def)

lemma hm_remove_keys [simp]: "fst ` set (hm_remove k m) = fst ` set m - {k}"
  by (auto simp: hm_remove_def AList.delete_eq)

section \<open>Decimal rendering\<close>

function dec_string :: "nat \<Rightarrow> string" where
  "dec_string n =
     (if n < 10 then [char_of (48 + n)] else dec_string (n div 10) @ [char_of (48 + n mod 10)])"
  by pat_completeness auto
termination
  by (relation "measure id") auto

declare dec_string.simps [simp del]

section \<open>f64\<close>

text \<open>
  A double is its bit pattern. A finite magnitude is a whole number of units of \<open>2 ^ -1074\<close>, so both
  the conversion from integers and the sum of two doubles are exact integers in that unit, rounded
  once, to nearest with ties to even.
\<close>

type_synonym f64 = u64

definition f64_negative :: "f64 \<Rightarrow> bool" where
  "f64_negative x = bit x 63"

definition f64_exponent :: "f64 \<Rightarrow> int" where
  "f64_exponent x = uint (drop_bit 52 x AND 0x7FF)"

definition f64_fraction :: "f64 \<Rightarrow> int" where
  "f64_fraction x = uint (take_bit 52 x)"

definition f64_is_finite :: "f64 \<Rightarrow> bool" where
  "f64_is_finite x \<longleftrightarrow> f64_exponent x \<noteq> 0x7FF"

definition f64_is_nan :: "f64 \<Rightarrow> bool" where
  "f64_is_nan x \<longleftrightarrow> f64_exponent x = 0x7FF \<and> f64_fraction x \<noteq> 0"

definition f64_infinity :: f64 where
  "f64_infinity = 0x7FF0000000000000"

definition f64_sign_bit :: f64 where
  "f64_sign_bit = 0x8000000000000000"

text \<open>The least \<open>k\<close> with \<open>z < b ^ k\<close>, for \<open>z \<ge> 0\<close> and \<open>b = 2\<close>: the bit length.\<close>

function bit_length :: "int \<Rightarrow> nat" where
  "bit_length z = (if z \<le> 0 then 0 else Suc (bit_length (z div 2)))"
  by pat_completeness auto
termination
  by (relation "measure nat") auto

declare bit_length.simps [simp del]

definition f64_magnitude :: "f64 \<Rightarrow> int" where
  "f64_magnitude x =
     (if f64_exponent x = 0 then f64_fraction x
      else (2 ^ 52 + f64_fraction x) * 2 ^ nat (f64_exponent x - 1))"

definition f64_value :: "f64 \<Rightarrow> int" where
  "f64_value x = (if f64_negative x then - f64_magnitude x else f64_magnitude x)"

definition f64_round_magnitude :: "int \<Rightarrow> f64" where
  "f64_round_magnitude n =
     (let k = bit_length n - 53; q = n div 2 ^ k; r = n mod 2 ^ k;
          up = 2 * r > 2 ^ k \<or> (2 * r = 2 ^ k \<and> odd q);
          b = int k * 2 ^ 52 + (if up then q + 1 else q)
      in if b \<ge> 0x7FF0000000000000 then f64_infinity else word_of_int b)"

definition f64_of_units :: "int \<Rightarrow> f64" where
  "f64_of_units z =
     (if z < 0 then f64_sign_bit OR f64_round_magnitude (- z) else f64_round_magnitude z)"

text \<open>\<open>v as f64\<close> for a signed integer value.\<close>

definition f64_of_int :: "int \<Rightarrow> f64" where
  "f64_of_int v = f64_of_units (v * 2 ^ 1074)"

text \<open>\<open>x + y\<close>; a NaN operand is returned quieted, opposite infinities give the default NaN.\<close>

definition f64_add :: "f64 \<Rightarrow> f64 \<Rightarrow> f64" where
  "f64_add x y =
     (if f64_is_nan x then x OR 0x0008000000000000
      else if f64_is_nan y then y OR 0x0008000000000000
      else if \<not> f64_is_finite x then
        (if \<not> f64_is_finite y \<and> f64_negative x \<noteq> f64_negative y then 0x7FF8000000000000 else x)
      else if \<not> f64_is_finite y then y
      else let z = f64_value x + f64_value y in
        if z = 0 then (if f64_negative x \<and> f64_negative y then f64_sign_bit else 0)
        else f64_of_units z)"

end
