(* ===== verification/Schema_Value.thy ===== *)
theory Schema_Value
  imports Schema Rust_Collections "HOL-Library.Sublist"
begin

text \<open>
  Schema-aware document values (\<open>crates/mfs-store/src/schema_value.rs\<close>), everything but the binary
  codec: dotted-path reads and updates, increments with overflow checks, and the validation of a
  document against a schema.
\<close>

section \<open>Data\<close>

datatype schema_value_kind =
    K_Null | K_String | K_Int32 | K_Int64 | K_Float | K_Bool | K_Object | K_Array | K_Json | K_Bytes

text \<open>\<open>i32\<close> and \<open>i64\<close> are words read with \<open>sint\<close>, \<open>f64\<close> its bits, an object its sorted entries.\<close>

datatype schema_value =
    SV_Null
  | SV_String string
  | SV_Int32 "32 word"
  | SV_Int64 "64 word"
  | SV_Float f64
  | SV_Bool bool
  | SV_Object "(string \<times> schema_value) list"
  | SV_Array "schema_value list"
  | SV_Json bytes
  | SV_Bytes bytes

type_synonym sv_object = "(string, schema_value) btree"

datatype (plugins only: code) schema_value_error =
    InvalidSchema schema_error
  | RootMustBeObject schema_value_kind
  | MissingRequiredField string
  | NullNotAllowed string
  | TypeMismatch string string schema_value_kind
  | Int32OutOfRange string "64 word"
  | NonFiniteFloat string
  | ValueNestingTooDeep string
  | CollectionTooLarge string nat
  | BlobTooLarge string nat
  | EncodedValueTooLarge nat
  | FieldPathNotObject string string schema_value_kind
  | NotIncrementable string schema_value_kind
  | SV_NumericOverflow string

definition object_value :: "(string \<times> schema_value) list \<Rightarrow> schema_value" where
  "object_value fs = SV_Object (bt_collect fs)"

fun kind :: "schema_value \<Rightarrow> schema_value_kind" where
  "kind SV_Null = K_Null"
| "kind (SV_String _) = K_String"
| "kind (SV_Int32 _) = K_Int32"
| "kind (SV_Int64 _) = K_Int64"
| "kind (SV_Float _) = K_Float"
| "kind (SV_Bool _) = K_Bool"
| "kind (SV_Object _) = K_Object"
| "kind (SV_Array _) = K_Array"
| "kind (SV_Json _) = K_Json"
| "kind (SV_Bytes _) = K_Bytes"

fun sv_tag :: "schema_value \<Rightarrow> byte" where
  "sv_tag SV_Null = 0"
| "sv_tag (SV_String _) = 1"
| "sv_tag (SV_Int32 _) = 2"
| "sv_tag (SV_Int64 _) = 3"
| "sv_tag (SV_Float _) = 4"
| "sv_tag (SV_Bool _) = 5"
| "sv_tag (SV_Object _) = 6"
| "sv_tag (SV_Array _) = 7"
| "sv_tag (SV_Json _) = 8"
| "sv_tag (SV_Bytes _) = 9"

fun as_object :: "schema_value \<Rightarrow> sv_object option" where
  "as_object (SV_Object fs) = Some fs"
| "as_object _ = None"

lemma as_object_Some_iff [simp]: "as_object v = Some fs \<longleftrightarrow> v = SV_Object fs"
  by (cases v) simp_all

text \<open>What the Rust types guarantee: strings are UTF-8, objects are sorted maps.\<close>

fun wf_value :: "schema_value \<Rightarrow> bool" where
  "wf_value (SV_String s) = rust_string s"
| "wf_value (SV_Object fs) =
     (bt_wf fs \<and> (\<forall>f \<in> set fs. rust_string (fst f) \<and> wf_value (snd f)))"
| "wf_value (SV_Array vs) = (\<forall>v \<in> set vs. wf_value v)"
| "wf_value _ = True"

section \<open>Paths\<close>

fun resolve_from :: "schema_value \<Rightarrow> string list \<Rightarrow> schema_value option" where
  "resolve_from current [] = Some current"
| "resolve_from current (segment # segments) =
     Option.bind (as_object current) (\<lambda>nested.
       Option.bind (map_of nested segment) (\<lambda>v. resolve_from v segments))"

definition resolve_path :: "sv_object \<Rightarrow> string \<Rightarrow> schema_value option" where
  "resolve_path obj path = (case split_on (CHR ''.'') path of
     [] \<Rightarrow> None
   | first # segments \<Rightarrow> Option.bind (map_of obj first) (\<lambda>v. resolve_from v segments))"

definition field :: "schema_value \<Rightarrow> string \<Rightarrow> schema_value option" where
  "field v path = Option.bind (as_object v) (\<lambda>obj. resolve_path obj path)"

definition join_path :: "string \<Rightarrow> string \<Rightarrow> string" where
  "join_path parent name = (if parent = [] then name else parent @ ''.'' @ name)"

text \<open>
  The walk shared by \<open>set_field_impl\<close> and \<open>apply_increment_impl\<close>: descend through the parent
  segments, creating missing objects, and run \<open>act\<close> on the innermost one. The object is mutated in
  place, so it is returned on the error path too.
\<close>

fun descend_create :: "string \<Rightarrow> string list \<Rightarrow> (sv_object \<Rightarrow> (schema_value_error + unit) \<times> sv_object) \<Rightarrow>
    sv_object \<Rightarrow> (schema_value_error + unit) \<times> sv_object" where
  "descend_create path [] act obj = act obj"
| "descend_create path (segment # parents) act obj =
     (let entry = (case map_of obj segment of Some e \<Rightarrow> e | None \<Rightarrow> SV_Object []) in
      case entry of
        SV_Object nested \<Rightarrow>
          (case descend_create path parents act nested of
             (r, nested') \<Rightarrow> (r, bt_insert segment (SV_Object nested') obj))
      | other \<Rightarrow> (Inl (FieldPathNotObject path segment (kind other)), bt_insert segment other obj))"

definition set_field_impl ::
    "string \<Rightarrow> schema_value \<Rightarrow> sv_object \<Rightarrow> (schema_value_error + unit) \<times> sv_object" where
  "set_field_impl path value obj =
     (let segments = split_on (CHR ''.'') path in
      descend_create path (butlast segments)
        (\<lambda>current. (Inr (), bt_insert (last segments) value current)) obj)"

definition set_field ::
    "string \<Rightarrow> schema_value \<Rightarrow> schema_value \<Rightarrow> (schema_value_error + unit) \<times> schema_value" where
  "set_field path value self = (case as_object self of
     None \<Rightarrow> (Inl (RootMustBeObject (kind self)), self)
   | Some obj \<Rightarrow> map_prod id SV_Object (set_field_impl path value obj))"

fun unset_walk :: "string list \<Rightarrow> string \<Rightarrow> sv_object \<Rightarrow> bool \<times> sv_object" where
  "unset_walk [] lst obj = (map_of obj lst \<noteq> None, bt_remove lst obj)"
| "unset_walk (segment # parents) lst obj =
     (case map_of obj segment of
        Some (SV_Object nested) \<Rightarrow>
          (case unset_walk parents lst nested of
             (b, nested') \<Rightarrow> (b, bt_insert segment (SV_Object nested') obj))
      | _ \<Rightarrow> (False, obj))"

definition unset_field :: "string \<Rightarrow> schema_value \<Rightarrow> bool \<times> schema_value" where
  "unset_field path self = (case as_object self of
     None \<Rightarrow> (False, self)
   | Some obj \<Rightarrow>
       (let segments = split_on (CHR ''.'') path in
        map_prod id SV_Object (unset_walk (butlast segments) (last segments) obj)))"

section \<open>Signed arithmetic\<close>

definition in_i32 :: "int \<Rightarrow> bool" where
  "in_i32 z \<longleftrightarrow> - (2 ^ 31) \<le> z \<and> z < 2 ^ 31"

definition in_i64 :: "int \<Rightarrow> bool" where
  "in_i64 z \<longleftrightarrow> - (2 ^ 63) \<le> z \<and> z < 2 ^ 63"

definition i32_try_from :: "64 word \<Rightarrow> 32 word option" where
  "i32_try_from v = (if in_i32 (sint v) then Some (ucast v) else None)"

definition i64_from_i32 :: "32 word \<Rightarrow> 64 word" where
  "i64_from_i32 v = scast v"

definition checked_add_i64 :: "64 word \<Rightarrow> 64 word \<Rightarrow> 64 word option" where
  "checked_add_i64 a b = (if in_i64 (sint a + sint b) then Some (a + b) else None)"

definition increment_last ::
    "string \<Rightarrow> string \<Rightarrow> 64 word \<Rightarrow> sv_object \<Rightarrow> (schema_value_error + unit) \<times> sv_object" where
  "increment_last path lst delta current = (case map_of current lst of
     Some (SV_Int32 v) \<Rightarrow>
       (case checked_add_i64 (i64_from_i32 v) delta of
          None \<Rightarrow> (Inl (SV_NumericOverflow path), current)
        | Some result \<Rightarrow>
            (case i32_try_from result of
               None \<Rightarrow> (Inl (SV_NumericOverflow path), current)
             | Some narrowed \<Rightarrow> (Inr (), bt_insert lst (SV_Int32 narrowed) current)))
   | Some (SV_Int64 v) \<Rightarrow>
       (case checked_add_i64 v delta of
          None \<Rightarrow> (Inl (SV_NumericOverflow path), current)
        | Some result \<Rightarrow> (Inr (), bt_insert lst (SV_Int64 result) current))
   | Some (SV_Float v) \<Rightarrow>
       (Inr (), bt_insert lst (SV_Float (f64_add v (f64_of_int (sint delta)))) current)
   | Some other \<Rightarrow> (Inl (NotIncrementable path (kind other)), current)
   | None \<Rightarrow> (Inr (), bt_insert lst (SV_Int64 delta) current))"

definition apply_increment_impl ::
    "string \<Rightarrow> 64 word \<Rightarrow> sv_object \<Rightarrow> (schema_value_error + unit) \<times> sv_object" where
  "apply_increment_impl path delta obj =
     (let segments = split_on (CHR ''.'') path in
      descend_create path (butlast segments) (increment_last path (last segments) delta) obj)"

definition apply_increment ::
    "string \<Rightarrow> 64 word \<Rightarrow> schema_value \<Rightarrow> (schema_value_error + unit) \<times> schema_value" where
  "apply_increment path delta self = (case as_object self of
     None \<Rightarrow> (Inl (RootMustBeObject (kind self)), self)
   | Some obj \<Rightarrow> map_prod id SV_Object (apply_increment_impl path delta obj))"

section \<open>Type checks\<close>

fun schema_type_name :: "schema_field_type \<Rightarrow> string" where
  "schema_type_name FT_String = ''string''"
| "schema_type_name FT_Int32 = ''int32''"
| "schema_type_name FT_Int64 = ''int64''"
| "schema_type_name FT_Float = ''float''"
| "schema_type_name FT_Bool = ''bool''"
| "schema_type_name (FT_Object _) = ''object''"
| "schema_type_name (FT_Array _) = ''array''"
| "schema_type_name FT_Json = ''json''"
| "schema_type_name FT_Bytes = ''bytes''"

definition type_mismatch ::
    "string \<Rightarrow> schema_field_type \<Rightarrow> schema_value \<Rightarrow> schema_value_error + unit" where
  "type_mismatch name expected actual =
     Inl (TypeMismatch name (schema_type_name expected) (kind actual))"

definition item_name :: "string \<Rightarrow> nat \<Rightarrow> string" where
  "item_name name idx = name @ ''['' @ dec_string idx @ '']''"

fun validate_fields ::
    "schema_field list \<Rightarrow> sv_object \<Rightarrow> string \<Rightarrow> schema_value_error + unit"
  and validate_schema_field ::
    "schema_field \<Rightarrow> sv_object \<Rightarrow> string \<Rightarrow> schema_value_error + unit"
  and validate_value_type ::
    "schema_field_type \<Rightarrow> schema_value \<Rightarrow> string \<Rightarrow> schema_value_error + unit" where
  "validate_fields [] obj parent = Inr ()"
| "validate_fields (f # fs) obj parent =
     and_then (validate_schema_field f obj parent) (\<lambda>_. validate_fields fs obj parent)"
| "validate_schema_field (SchemaField n ty prim opt idx sto uniq rf srt rng) obj parent =
     (let path = join_path parent n in
      case resolve_path obj n of
        None \<Rightarrow> if opt then Inr () else Inl (MissingRequiredField path)
      | Some value \<Rightarrow>
          if value = SV_Null then (if opt then Inr () else Inl (NullNotAllowed path))
          else validate_value_type ty value path)"
| "validate_value_type FT_String value name =
     (case value of SV_String _ \<Rightarrow> Inr () | _ \<Rightarrow> type_mismatch name FT_String value)"
| "validate_value_type FT_Int32 value name =
     (case value of
        SV_Int32 _ \<Rightarrow> Inr ()
      | SV_Int64 v \<Rightarrow> if i32_try_from v \<noteq> None then Inr () else Inl (Int32OutOfRange name v)
      | _ \<Rightarrow> type_mismatch name FT_Int32 value)"
| "validate_value_type FT_Int64 value name =
     (case value of
        SV_Int32 _ \<Rightarrow> Inr ()
      | SV_Int64 _ \<Rightarrow> Inr ()
      | _ \<Rightarrow> type_mismatch name FT_Int64 value)"
| "validate_value_type FT_Float value name =
     (case value of
        SV_Int32 _ \<Rightarrow> Inr ()
      | SV_Int64 _ \<Rightarrow> Inr ()
      | SV_Float v \<Rightarrow> if f64_is_finite v then Inr () else Inl (NonFiniteFloat name)
      | _ \<Rightarrow> type_mismatch name FT_Float value)"
| "validate_value_type FT_Bool value name =
     (case value of SV_Bool _ \<Rightarrow> Inr () | _ \<Rightarrow> type_mismatch name FT_Bool value)"
| "validate_value_type (FT_Object fs) value name =
     (case value of
        SV_Object obj \<Rightarrow> validate_fields fs obj name
      | _ \<Rightarrow> type_mismatch name (FT_Object fs) value)"
| "validate_value_type (FT_Array inner) value name =
     (case value of
        SV_Array values \<Rightarrow>
          try_fold (\<lambda>(idx, v) _. validate_value_type inner v (item_name name idx))
            (List.enumerate 0 values) ()
      | _ \<Rightarrow> type_mismatch name (FT_Array inner) value)"
| "validate_value_type FT_Json value name = Inr ()"
| "validate_value_type FT_Bytes value name =
     (case value of SV_Bytes _ \<Rightarrow> Inr () | _ \<Rightarrow> type_mismatch name FT_Bytes value)"

section \<open>Encoded size\<close>

definition max_schema_value_bytes :: nat where
  "max_schema_value_bytes = 64 * 1024 * 1024"

definition max_schema_collection_items :: nat where
  "max_schema_collection_items = 1048576"

definition max_schema_blob_bytes :: nat where
  "max_schema_blob_bytes = 64 * 1024 * 1024"

definition max_schema_value_depth :: nat where
  "max_schema_value_depth = 64"

definition checked_add_len :: "nat \<Rightarrow> nat \<Rightarrow> schema_value_error + nat" where
  "checked_add_len l r = ok_or (EncodedValueTooLarge usize_max) (checked_add_usize l r)"

definition encoded_raw_bytes_len :: "string \<Rightarrow> nat \<Rightarrow> schema_value_error + nat" where
  "encoded_raw_bytes_len name len =
     (if len > max_schema_blob_bytes then Inl (BlobTooLarge name len) else checked_add_len 4 len)"

definition encoded_blob_len :: "string \<Rightarrow> nat \<Rightarrow> schema_value_error + nat" where
  "encoded_blob_len name len = and_then (encoded_raw_bytes_len name len) (checked_add_len 1)"

text \<open>\<open>encoded_len\<close>; the two loops over the items of an array and the entries of an object carry the
  running total.\<close>

fun encoded_len :: "schema_value \<Rightarrow> string \<Rightarrow> nat \<Rightarrow> schema_value_error + nat"
  and encoded_len_items :: "schema_value list \<Rightarrow> string \<Rightarrow> nat \<Rightarrow> nat \<Rightarrow> nat \<Rightarrow> schema_value_error + nat"
  and encoded_len_fields :: "(string \<times> schema_value) list \<Rightarrow> string \<Rightarrow> nat \<Rightarrow> nat \<Rightarrow> schema_value_error + nat" where
  "encoded_len v name depth =
     (if depth > max_schema_value_depth then Inl (ValueNestingTooDeep name)
      else case v of
        SV_Null \<Rightarrow> Inr 1
      | SV_String s \<Rightarrow> encoded_blob_len name (length s)
      | SV_Int32 _ \<Rightarrow> Inr (1 + 4)
      | SV_Int64 _ \<Rightarrow> Inr (1 + 8)
      | SV_Float x \<Rightarrow> if f64_is_finite x then Inr (1 + 8) else Inl (NonFiniteFloat name)
      | SV_Bool _ \<Rightarrow> Inr (1 + 1)
      | SV_Json b \<Rightarrow> encoded_blob_len name (length b)
      | SV_Bytes b \<Rightarrow> encoded_blob_len name (length b)
      | SV_Array values \<Rightarrow>
          if length values > max_schema_collection_items
          then Inl (CollectionTooLarge name (length values))
          else encoded_len_items values name depth 0 (1 + 4)
      | SV_Object fs \<Rightarrow>
          if length fs > max_schema_collection_items
          then Inl (CollectionTooLarge name (length fs))
          else encoded_len_fields fs name depth (1 + 4))"
| "encoded_len_items [] name depth idx acc = Inr acc"
| "encoded_len_items (v # vs) name depth idx acc =
     and_then (encoded_len v (item_name name idx) (depth + 1)) (\<lambda>n.
     and_then (checked_add_len acc n) (\<lambda>acc.
       encoded_len_items vs name depth (idx + 1) acc))"
| "encoded_len_fields [] name depth acc = Inr acc"
| "encoded_len_fields ((k, v) # fs) name depth acc =
     (let path = join_path name k in
      and_then (encoded_raw_bytes_len path (length k)) (\<lambda>n.
      and_then (checked_add_len acc n) (\<lambda>acc.
      and_then (encoded_len v path (depth + 1)) (\<lambda>m.
      and_then (checked_add_len acc m) (\<lambda>acc.
        encoded_len_fields fs name depth acc)))))"

definition validate_codec_safe :: "schema_value \<Rightarrow> schema_value_error + unit" where
  "validate_codec_safe v =
     and_then (encoded_len v [] 0) (\<lambda>len.
       if len > max_schema_value_bytes then Inl (EncodedValueTooLarge len) else Inr ())"

definition validate_document :: "schema \<Rightarrow> schema_value \<Rightarrow> schema_value_error + unit" where
  "validate_document s v =
     and_then (map_err InvalidSchema (validate s)) (\<lambda>_.
     and_then (ok_or (RootMustBeObject (kind v)) (as_object v)) (\<lambda>obj.
     and_then (validate_fields (s_fields s) obj []) (\<lambda>_.
       validate_codec_safe v)))"

section \<open>Reads after updates\<close>

definition resolve_segments :: "sv_object \<Rightarrow> string list \<Rightarrow> schema_value option" where
  "resolve_segments obj segs = (case segs of
     [] \<Rightarrow> None
   | s # ss \<Rightarrow> Option.bind (map_of obj s) (\<lambda>v. resolve_from v ss))"

lemma resolve_path_segments: "resolve_path obj path = resolve_segments obj (split_on (CHR ''.'') path)"
  by (simp add: resolve_path_def resolve_segments_def split: list.splits)

lemma resolve_segments_Cons:
  "resolve_segments obj (s # ss) =
     (case map_of obj s of
        None \<Rightarrow> None
      | Some v \<Rightarrow> if ss = [] then Some v
          else case v of SV_Object nested \<Rightarrow> resolve_segments nested ss | _ \<Rightarrow> None)"
  by (cases ss) (auto simp: resolve_segments_def split: option.splits schema_value.splits)

lemma resolve_segments_empty [simp]: "resolve_segments [] ss = None"
  by (cases ss) (simp_all add: resolve_segments_def)

lemma wf_object_member: "wf_value (SV_Object obj) \<Longrightarrow> map_of obj k = Some v \<Longrightarrow> wf_value v"
  by (auto dest!: map_of_SomeD)

lemma wf_object_bt: "wf_value (SV_Object obj) \<Longrightarrow> bt_wf obj"
  by simp

lemma wf_object_insert:
  "wf_value (SV_Object obj) \<Longrightarrow> rust_string k \<Longrightarrow> wf_value v \<Longrightarrow> wf_value (SV_Object (bt_insert k v obj))"
  using set_bt_insert_subset [of k v obj] by auto

lemma map_of_bt_insert_other [simp]: "k' \<noteq> k \<Longrightarrow> map_of (bt_insert k v m) k' = map_of m k'"
  by (induction k v m rule: bt_insert.induct) auto

lemma bt_insert_same: "bt_wf m \<Longrightarrow> map_of m k = Some v \<Longrightarrow> bt_insert k v m = m"
  by (induction m) (auto simp: bt_wf_def split: if_splits dest!: map_of_SomeD)

lemma descend_create_Cons_cases:
  assumes "descend_create path (s # ps) act obj = (r, obj')"
  obtains (enter) nested nested' where
      "map_of obj s = Some (SV_Object nested) \<or> (map_of obj s = None \<and> nested = [])"
      "descend_create path ps act nested = (r, nested')" "obj' = bt_insert s (SV_Object nested') obj"
  | (stop) v where "map_of obj s = Some v" "\<And>n. v \<noteq> SV_Object n"
      "r = Inl (FieldPathNotObject path s (kind v))" "obj' = bt_insert s v obj"
proof (cases "map_of obj s")
  case None
  obtain r' nested' where "descend_create path ps act [] = (r', nested')" by fastforce
  with None assms show ?thesis by (intro enter [of "[]" nested']) auto
next
  case (Some v)
  show ?thesis
  proof (cases "\<exists>n. v = SV_Object n")
    case True
    then obtain n where n: "v = SV_Object n" ..
    obtain r' nested' where "descend_create path ps act n = (r', nested')" by fastforce
    with Some n assms show ?thesis by (intro enter [of n nested']) auto
  next
    case False
    then have ne: "\<And>n. v \<noteq> SV_Object n" by blast
    have "(Inl (FieldPathNotObject path s (kind v)), bt_insert s v obj) = (r, obj')"
      using assms Some False by (cases v) simp_all
    then have "r = Inl (FieldPathNotObject path s (kind v))" "obj' = bt_insert s v obj" by simp_all
    with Some ne show ?thesis by (rule stop)
  qed
qed

lemma descend_create_read:
  assumes "wf_value (SV_Object obj)" and "descend_create path ps act obj = (Inr u, obj')"
  shows "\<exists>inner inner'. act inner = (Inr u, inner') \<and> wf_value (SV_Object inner) \<and>
    (\<forall>l. resolve_segments obj (ps @ [l]) = map_of inner l \<and>
         resolve_segments obj' (ps @ [l]) = map_of inner' l)"
  using assms
proof (induction ps arbitrary: obj obj')
  case Nil
  then show ?case by (intro exI [of _ obj] exI [of _ obj']) (auto simp: resolve_segments_Cons split: option.splits)
next
  case (Cons s ps)
  from Cons.prems(2) obtain nested nested' where
    n: "(map_of obj s = Some (SV_Object nested) \<or> (map_of obj s = None \<and> nested = []))"
    and d: "descend_create path ps act nested = (Inr u, nested')"
    and o': "obj' = bt_insert s (SV_Object nested') obj"
  proof (cases rule: descend_create_Cons_cases)
    case (enter n n')
    then show ?thesis by (rule that)
  next
    case (stop v)
    then show ?thesis by simp
  qed
  have "wf_value (SV_Object nested)"
    using n
  proof
    assume "map_of obj s = Some (SV_Object nested)"
    then show ?thesis by (rule wf_object_member [OF Cons.prems(1)])
  qed simp
  from Cons.IH [OF this d] obtain inner inner' where
    inner: "act inner = (Inr u, inner')" "wf_value (SV_Object inner)"
    and read: "\<And>l. resolve_segments nested (ps @ [l]) = map_of inner l \<and>
         resolve_segments nested' (ps @ [l]) = map_of inner' l"
    by blast
  have "resolve_segments obj ((s # ps) @ [l]) = map_of inner l \<and>
      resolve_segments obj' ((s # ps) @ [l]) = map_of inner' l" for l
    using read [of l] n o' wf_object_bt [OF Cons.prems(1)]
    by (auto simp: resolve_segments_Cons)
  with inner show ?case by blast
qed

lemma wf_object_entered:
  assumes "wf_value (SV_Object obj)"
    and "map_of obj s = Some (SV_Object nested) \<or> (map_of obj s = None \<and> nested = [])"
  shows "wf_value (SV_Object nested)"
  using assms(2)
proof
  assume "map_of obj s = Some (SV_Object nested)"
  then show ?thesis by (rule wf_object_member [OF assms(1)])
qed simp

lemma descend_create_frame:
  assumes "wf_value (SV_Object obj)" and "descend_create path ps act obj = (r, obj')"
    and "\<And>ob k. k \<noteq> l \<Longrightarrow> map_of (snd (act ob)) k = map_of ob k"
    and "\<not> prefix qs (ps @ [l])" and "\<not> prefix (ps @ [l]) qs"
  shows "resolve_segments obj' qs = resolve_segments obj qs"
  using assms(1,2,4,5)
proof (induction ps arbitrary: obj obj' qs)
  case Nil
  then obtain q qs' where "qs = q # qs'" "q \<noteq> l" by (cases qs) auto
  with Nil.prems(2) assms(3) [of q obj] show ?case
    by (simp add: resolve_segments_Cons)
next
  case (Cons s ps)
  then obtain q qs' where qs: "qs = q # qs'" by (cases qs) auto
  note wf = wf_object_bt [OF Cons.prems(1)]
  from Cons.prems(2) show ?case
  proof (cases rule: descend_create_Cons_cases)
    case (enter nested nested')
    note wfn = wf_object_entered [OF Cons.prems(1) enter(1)]
    show ?thesis
    proof (cases "q = s")
      case True
      with Cons.prems(3,4) qs have pre: "\<not> prefix qs' (ps @ [l])" "\<not> prefix (ps @ [l]) qs'" "qs' \<noteq> []"
        by auto
      from Cons.IH [OF wfn enter(2) pre(1,2)] enter qs True wf pre(3) show ?thesis
        by (auto simp: resolve_segments_Cons)
    qed (use qs wf enter(3) in \<open>simp add: resolve_segments_Cons\<close>)
  next
    case (stop v)
    then show ?thesis using wf by (simp add: bt_insert_same)
  qed
qed

lemma descend_create_error_unchanged:
  assumes "wf_value (SV_Object obj)" and "descend_create path ps act obj = (Inl e, obj')"
    and "\<And>ob ob' e. wf_value (SV_Object ob) \<Longrightarrow> act ob = (Inl e, ob') \<Longrightarrow> ob' = ob" and "fst (act []) = Inr ()"
  shows "obj' = obj"
proof -
  have empty: "fst (descend_create path ps act []) = Inr ()" for ps
    using assms(4) by (induction ps) (auto split: prod.splits)
  show ?thesis
    using assms(1,2)
  proof (induction ps arbitrary: obj obj')
    case Nil
    then show ?case using assms(3) by simp
  next
    case (Cons s ps)
    note wf = wf_object_bt [OF Cons.prems(1)]
    from Cons.prems(2) show ?case
    proof (cases rule: descend_create_Cons_cases)
      case (enter nested nested')
      with empty [of ps] have "map_of obj s = Some (SV_Object nested)" by auto
      with Cons.IH [OF wf_object_entered [OF Cons.prems(1) enter(1)] enter(2)] enter(3) wf
      show ?thesis by (simp add: bt_insert_same)
    next
      case (stop v)
      then show ?thesis using wf by (simp add: bt_insert_same)
    qed
  qed
qed

lemma descend_create_wf:
  assumes "wf_value (SV_Object obj)" and "\<forall>s \<in> set ps. rust_string s"
    and "descend_create path ps act obj = (r, obj')"
    and "\<And>ob. wf_value (SV_Object ob) \<Longrightarrow> wf_value (SV_Object (snd (act ob)))"
  shows "wf_value (SV_Object obj')"
  using assms(1,2,3)
proof (induction ps arbitrary: obj obj')
  case Nil
  then show ?case using assms(4) [of obj] by simp
next
  case (Cons s ps)
  from Cons.prems(2) have s: "rust_string s" and ps: "\<forall>s \<in> set ps. rust_string s" by simp_all
  from Cons.prems(3) show ?case
  proof (cases rule: descend_create_Cons_cases)
    case (enter nested nested')
    have "wf_value (SV_Object nested')"
      by (rule Cons.IH [OF wf_object_entered [OF Cons.prems(1) enter(1)] ps enter(2)])
    with enter(3) show ?thesis
      using wf_object_insert [OF Cons.prems(1) s] by blast
  next
    case (stop v)
    from wf_object_insert [OF Cons.prems(1) s wf_object_member [OF Cons.prems(1) stop(1)]] stop(4)
    show ?thesis by simp
  qed
qed

lemma split_last_append: "butlast (split_on d s) @ [last (split_on d s)] = split_on d s"
  by simp

lemma field_object: "field (SV_Object obj) p = resolve_segments obj (split_on (CHR ''.'') p)"
  by (simp add: field_def resolve_path_segments)

lemma set_field_cases:
  assumes "set_field p x v = (r, v')"
  obtains (nonobject) "r = Inl (RootMustBeObject (kind v))" "v' = v" "as_object v = None"
  | (object) obj obj' where "v = SV_Object obj" "v' = SV_Object obj'"
      "descend_create p (butlast (split_on (CHR ''.'') p))
        (\<lambda>c. (Inr (), bt_insert (last (split_on (CHR ''.'') p)) x c)) obj = (r, obj')"
proof (cases "as_object v")
  case None
  with assms show ?thesis by (intro nonobject) (auto simp: set_field_def)
next
  case (Some obj)
  obtain r' obj' where d: "descend_create p (butlast (split_on (CHR ''.'') p))
        (\<lambda>c. (Inr (), bt_insert (last (split_on (CHR ''.'') p)) x c)) obj = (r', obj')"
    by fastforce
  with assms Some have "r = r'" "v' = SV_Object obj'"
    by (simp_all add: set_field_def set_field_impl_def Let_def)
  with d Some show ?thesis by (intro object [of obj obj']) simp_all
qed

lemma set_field_read:
  assumes "wf_value v" and "set_field p x v = (Inr (), v')"
  shows "field v' p = Some x"
  using assms(2)
proof (cases rule: set_field_cases)
  case (object obj obj')
  from descend_create_read [OF assms(1) [unfolded object(1)] object(3)] obtain inner where
    "wf_value (SV_Object inner)"
    and "\<And>l. resolve_segments obj' (butlast (split_on (CHR ''.'') p) @ [l]) =
      map_of (bt_insert (last (split_on (CHR ''.'') p)) x inner) l"
    by auto
  from this(2) [of "last (split_on (CHR ''.'') p)"] this(1) show ?thesis
    using object(2) by (simp add: field_object)
qed simp

lemma set_field_frame:
  assumes "wf_value v" and "set_field p x v = (r, v')"
    and "\<not> prefix (split_on (CHR ''.'') q) (split_on (CHR ''.'') p)"
    and "\<not> prefix (split_on (CHR ''.'') p) (split_on (CHR ''.'') q)"
  shows "field v' q = field v q"
  using assms(2)
proof (cases rule: set_field_cases)
  case (object obj obj')
  have "resolve_segments obj' (split_on (CHR ''.'') q) = resolve_segments obj (split_on (CHR ''.'') q)"
  proof (rule descend_create_frame [OF assms(1) [unfolded object(1)] object(3),
        where l = "last (split_on (CHR ''.'') p)"])
  qed (use assms(3,4) in \<open>simp_all\<close>)
  with object show ?thesis by (simp add: field_object)
qed simp

lemma set_field_error:
  assumes "wf_value v" and "set_field p x v = (Inl e, v')"
  shows "v' = v"
  using assms(2)
proof (cases rule: set_field_cases)
  case (object obj obj')
  have "obj' = obj"
    by (rule descend_create_error_unchanged [OF assms(1) [unfolded object(1)] object(3)]) simp_all
  with object show ?thesis by simp
qed simp

lemma set_field_succeeds:
  assumes "wf_value (SV_Object obj)"
    and "\<And>qs w. strict_prefix qs (split_on (CHR ''.'') p) \<Longrightarrow> qs \<noteq> [] \<Longrightarrow>
      resolve_segments obj qs = Some w \<Longrightarrow> kind w = K_Object"
  shows "fst (set_field p x (SV_Object obj)) = Inr ()"
proof -
  have "fst (descend_create p ps (\<lambda>c. (Inr (), bt_insert l x c)) ob) = Inr ()"
    if "wf_value (SV_Object ob)"
      "\<And>qs w. strict_prefix qs (ps @ [l]) \<Longrightarrow> qs \<noteq> [] \<Longrightarrow> resolve_segments ob qs = Some w \<Longrightarrow> kind w = K_Object"
    for ps l ob
    using that
  proof (induction ps arbitrary: ob)
    case Nil
    then show ?case by simp
  next
    case (Cons s ps)
    let ?e = "case map_of ob s of Some e \<Rightarrow> e | None \<Rightarrow> SV_Object []"
    have "kind ?e = K_Object"
    proof (cases "map_of ob s")
      case (Some w)
      then have "resolve_segments ob [s] = Some w" by (simp add: resolve_segments_Cons)
      with Cons.prems(2) [of "[s]" w] Some show ?thesis by (simp add: strict_prefix_def)
    qed simp
    then obtain nested where n: "?e = SV_Object nested" by (cases ?e) auto
    have wf: "wf_value (SV_Object nested)"
      using n wf_object_member [OF Cons.prems(1), of s "SV_Object nested"] by (auto split: option.splits)
    have "kind w = K_Object"
      if "strict_prefix qs (ps @ [l])" "qs \<noteq> []" "resolve_segments nested qs = Some w" for qs w
      using Cons.prems(2) [of "s # qs" w] that n
      by (auto simp: resolve_segments_Cons split: option.splits)
    from Cons.IH [OF wf this] n show ?case
      by (cases "descend_create p ps (\<lambda>c. (Inr (), bt_insert l x c)) nested") (auto simp: Let_def)
  qed
  from this [of obj "butlast (split_on (CHR ''.'') p)" "last (split_on (CHR ''.'') p)"] assms
  show ?thesis by (simp add: set_field_def set_field_impl_def Let_def)
qed

section \<open>Increments\<close>

lemma sint_plus_i64: "in_i64 (sint a + sint b) \<Longrightarrow> sint (a + b) = sint a + sint (b :: 64 word)"
  by (simp add: in_i64_def sint_word_ariths signed_take_bit_int_eq_self)

lemma checked_add_i64_Some: "checked_add_i64 a b = Some c \<Longrightarrow> sint c = sint a + sint b"
  by (auto simp: checked_add_i64_def sint_plus_i64 split: if_splits)

lemma sint_i64_from_i32 [simp]: "sint (i64_from_i32 v) = sint v"
proof -
  have "- (2 ^ 31) \<le> sint v" "sint v < 2 ^ 31"
    using sint_range_size [of v] by (simp_all add: word_size)
  then show ?thesis
    by (simp add: i64_from_i32_def signed_scast_eq signed_take_bit_int_eq_self)
qed

lemma sint_i32_try_from: "i32_try_from v = Some w \<Longrightarrow> sint w = sint v"
proof -
  assume "i32_try_from v = Some w"
  then have w: "w = ucast v" and r: "- (2 ^ 31) \<le> sint v" "sint v < 2 ^ 31"
    by (auto simp: i32_try_from_def in_i32_def split: if_splits)
  have "sint w = signed_take_bit 31 (sint v)"
    by (simp add: w signed_ucast_eq) (simp add: sint_uint)
  with r show ?thesis by (simp add: signed_take_bit_int_eq_self)
qed

lemma i32_try_from_from [simp]: "i32_try_from (i64_from_i32 v) = Some v"
proof -
  have "in_i32 (sint v)"
    using sint_range_size [of v] by (simp add: in_i32_def word_size)
  then obtain w where w: "i32_try_from (i64_from_i32 v) = Some w"
    by (simp add: i32_try_from_def)
  from sint_i32_try_from [OF this] have "sint w = sint v" by simp
  then show ?thesis using w by (metis signed_word_eqI)
qed


text \<open>What an increment by \<open>delta\<close> makes of the current content of a field.\<close>

definition incremented :: "string \<Rightarrow> 64 word \<Rightarrow> schema_value option \<Rightarrow> schema_value_error + schema_value" where
  "incremented p delta cur = (case cur of
     None \<Rightarrow> Inr (SV_Int64 delta)
   | Some (SV_Int32 v) \<Rightarrow>
       if in_i32 (sint v + sint delta) then Inr (SV_Int32 (word_of_int (sint v + sint delta)))
       else Inl (SV_NumericOverflow p)
   | Some (SV_Int64 v) \<Rightarrow>
       if in_i64 (sint v + sint delta) then Inr (SV_Int64 (word_of_int (sint v + sint delta)))
       else Inl (SV_NumericOverflow p)
   | Some (SV_Float v) \<Rightarrow> Inr (SV_Float (f64_add v (f64_of_int (sint delta))))
   | Some other \<Rightarrow> Inl (NotIncrementable p (kind other)))"

lemma in_i32_in_i64: "in_i32 z \<Longrightarrow> in_i64 z"
  by (simp add: in_i32_def in_i64_def)

lemma ucast_sint: "(ucast (x :: 64 word) :: 32 word) = word_of_int (sint x)"
  by (rule bit_word_eqI) (simp add: bit_simps)

lemma increment_last_eq:
  "increment_last p l delta c = (case incremented p delta (map_of c l) of
     Inl e \<Rightarrow> (Inl e, c) | Inr v \<Rightarrow> (Inr (), bt_insert l v c))"
proof -
  have narrow: "(case checked_add_i64 (i64_from_i32 v) delta of None \<Rightarrow> None | Some r \<Rightarrow> i32_try_from r) =
      (if in_i32 (sint v + sint delta) then Some (word_of_int (sint v + sint delta)) else None)" for v
  proof (cases "in_i64 (sint v + sint delta)")
    case True
    then have s: "sint (i64_from_i32 v + delta) = sint v + sint delta"
      by (simp add: sint_plus_i64)
    have "ucast (i64_from_i32 v + delta) = (word_of_int (sint v + sint delta) :: 32 word)"
      by (simp add: ucast_sint s)
    with True s show ?thesis
      by (simp add: checked_add_i64_def i32_try_from_def)
  next
    case False
    then show ?thesis using in_i32_in_i64 by (auto simp: checked_add_i64_def)
  qed
  have wide: "checked_add_i64 v delta =
      (if in_i64 (sint v + sint delta) then Some (word_of_int (sint v + sint delta)) else None)" for v
    by (simp add: checked_add_i64_def)
  show ?thesis
  proof (cases "\<exists>v. map_of c l = Some (SV_Int32 v)")
    case True
    then obtain v where "map_of c l = Some (SV_Int32 v)" ..
    with narrow [of v] show ?thesis
      by (auto simp: increment_last_def incremented_def split: option.splits if_splits)
  next
    case False
    show ?thesis
    proof (cases "map_of c l")
      case None
      then show ?thesis by (simp add: increment_last_def incremented_def)
    next
      case (Some x)
      with False show ?thesis
        by (cases x) (simp_all add: increment_last_def incremented_def wide)
    qed
  qed
qed


lemma apply_increment_cases:
  assumes "apply_increment p d v = (r, v')"
  obtains (nonobject) "r = Inl (RootMustBeObject (kind v))" "v' = v" "as_object v = None"
  | (object) obj obj' where "v = SV_Object obj" "v' = SV_Object obj'"
      "descend_create p (butlast (split_on (CHR ''.'') p))
        (increment_last p (last (split_on (CHR ''.'') p)) d) obj = (r, obj')"
proof (cases "as_object v")
  case None
  with assms show ?thesis by (intro nonobject) (auto simp: apply_increment_def)
next
  case (Some obj)
  obtain r' obj' where d: "descend_create p (butlast (split_on (CHR ''.'') p))
        (increment_last p (last (split_on (CHR ''.'') p)) d) obj = (r', obj')"
    by fastforce
  with assms Some have "r = r'" "v' = SV_Object obj'"
    by (simp_all add: apply_increment_def apply_increment_impl_def Let_def)
  with d Some show ?thesis by (intro object [of obj obj']) simp_all
qed

lemma apply_increment_read:
  assumes "wf_value v" and "apply_increment p d v = (Inr (), v')"
  shows "\<exists>y. incremented p d (field v p) = Inr y \<and> field v' p = Some y"
  using assms(2)
proof (cases rule: apply_increment_cases)
  case (object obj obj')
  let ?l = "last (split_on (CHR ''.'') p)" and ?ps = "butlast (split_on (CHR ''.'') p)"
  from descend_create_read [OF assms(1) [unfolded object(1)] object(3)] obtain inner inner' where
    i: "increment_last p ?l d inner = (Inr (), inner')" "wf_value (SV_Object inner)"
    and r: "resolve_segments obj (?ps @ [?l]) = map_of inner ?l"
      "resolve_segments obj' (?ps @ [?l]) = map_of inner' ?l"
    by blast
  from i(1) obtain y where "incremented p d (map_of inner ?l) = Inr y" "inner' = bt_insert ?l y inner"
    by (auto simp: increment_last_eq split: sum.splits)
  with r i(2) object(1,2) show ?thesis by (simp add: field_object)
qed simp

lemma apply_increment_error:
  assumes "wf_value v" and "apply_increment p d v = (Inl e, v')"
  shows "v' = v"
  using assms(2)
proof (cases rule: apply_increment_cases)
  case (object obj obj')
  have "obj' = obj"
  proof (rule descend_create_error_unchanged [OF assms(1) [unfolded object(1)] object(3)])
    show "ob' = ob" if "increment_last p (last (split_on (CHR ''.'') p)) d ob = (Inl e, ob')" for ob ob' e
      using that by (auto simp: increment_last_eq split: sum.splits)
    show "fst (increment_last p (last (split_on (CHR ''.'') p)) d []) = Inr ()"
      by (simp add: increment_last_def)
  qed
  with object show ?thesis by simp
qed simp

lemma apply_increment_frame:
  assumes "wf_value v" and "apply_increment p d v = (r, v')"
    and "\<not> prefix (split_on (CHR ''.'') q) (split_on (CHR ''.'') p)"
    and "\<not> prefix (split_on (CHR ''.'') p) (split_on (CHR ''.'') q)"
  shows "field v' q = field v q"
  using assms(2)
proof (cases rule: apply_increment_cases)
  case (object obj obj')
  have "resolve_segments obj' (split_on (CHR ''.'') q) = resolve_segments obj (split_on (CHR ''.'') q)"
  proof (rule descend_create_frame [OF assms(1) [unfolded object(1)] object(3),
        where l = "last (split_on (CHR ''.'') p)"])
    show "map_of (snd (increment_last p (last (split_on (CHR ''.'') p)) d ob)) k = map_of ob k"
      if "k \<noteq> last (split_on (CHR ''.'') p)" for ob k
      using that by (simp add: increment_last_eq split: sum.splits)
  qed (use assms(3,4) in \<open>simp_all\<close>)
  with object show ?thesis by (simp add: field_object)
qed simp

end
