(* ===== verification/Value_Reader.thy ===== *)
theory Value_Reader
  imports Rust_Collections
begin

text \<open>
  The reading helpers at the end of \<open>crates/mfs-store/src/value.rs\<close> and
  \<open>crates/mfs-store/src/schema_value.rs\<close>. The two files have the same functions, with the same
  limits; only the name of the value type in the messages differs, and it is the argument \<open>ty\<close> here.
\<close>

datatype io_error_kind = InvalidData | UnexpectedEof

text \<open>\<open>io::Error::new(kind, message)\<close>; \<open>IoUtf8\<close> is the \<open>InvalidData\<close> error that wraps a
  \<open>FromUtf8Error\<close>.\<close>

datatype io_error = IoError io_error_kind string | IoUtf8

definition max_items :: nat where
  "max_items = 1048576"

definition max_blob_bytes :: nat where
  "max_blob_bytes = 64 * 1024 * 1024"

definition read_u8 :: "(io_error, byte) reader" where
  "read_u8 p c =
     (if length p - c < 1 then Inl (IoError UnexpectedEof ''tag truncated'')
      else Inr (p ! c, c + 1))"

definition fixed_truncated :: io_error where
  "fixed_truncated = IoError UnexpectedEof ''fixed field truncated''"

definition read_exact :: "nat \<Rightarrow> (io_error, bytes) reader" where
  "read_exact n p c =
     (if length p - c < n then Inl fixed_truncated else Inr (take n (drop c p), c + n))"

definition read_len :: "(io_error, nat) reader" where
  "read_len p c = and_then (read_le read_exact 4 p c) (\<lambda>(w :: u32, c'). Inr (unat w, c'))"

definition read_count :: "string \<Rightarrow> nat \<Rightarrow> (io_error, nat) reader" where
  "read_count ty min_bytes_per_item p c =
     and_then (read_len p c) (\<lambda>(count, c').
       if count > max_items
       then Inl (IoError InvalidData (ty @ '' collection exceeds item limit''))
       else if min_bytes_per_item > 0 \<and> count > (length p - c') div min_bytes_per_item
       then Inl (IoError UnexpectedEof (ty @ '' collection length exceeds remaining payload''))
       else Inr (count, c'))"

definition read_bytes :: "string \<Rightarrow> (io_error, bytes) reader" where
  "read_bytes ty = read_prefixed read_exact max_blob_bytes
     (IoError InvalidData (ty @ '' byte field exceeds decoder limit''))
     (IoError UnexpectedEof ''bytes truncated'')"

definition read_string :: "string \<Rightarrow> (io_error, string) reader" where
  "read_string ty p c =
     and_then (read_bytes ty p c) (\<lambda>(bs, c').
       and_then (ok_or IoUtf8 (from_utf8 bs)) (\<lambda>s. Inr (s, c')))"

text \<open>The encoders: \<open>encode_len\<close> and \<open>encode_bytes\<close>.\<close>

definition encode_len :: "nat \<Rightarrow> bytes" where
  "encode_len n = le_bytes 4 (of_nat n :: u32)"

definition encode_bytes :: "bytes \<Rightarrow> bytes" where
  "encode_bytes bs = encode_len (length bs) @ bs"

interpretation vr: cursor_reader read_exact fixed_truncated
  by unfold_locales (simp add: read_exact_def)

lemma length_encode_len [simp]: "length (encode_len n) = 4"
  by (simp add: encode_len_def)

lemma encode_bytes_prefixed: "encode_bytes bs = prefixed bs"
  by (simp add: encode_bytes_def encode_len_def prefixed_def)

lemma length_encode_bytes [simp]: "length (encode_bytes bs) = 4 + length bs"
  by (simp add: encode_bytes_prefixed)

section \<open>Reading back what was written\<close>

lemma max_blob_small: "max_blob_bytes < 2 ^ 32"
  by (simp add: max_blob_bytes_def)

lemma read_u8_at: "at_cursor p c (b # r) \<Longrightarrow> read_u8 p c = Inr (b, c + 1)"
  by (frule at_cursor_length) (auto simp: read_u8_def at_cursor_def nth_via_drop)

lemma at_cursor_Cons: "at_cursor p c (b # r) \<Longrightarrow> at_cursor p (c + 1) r"
  using at_cursor_advance [of p c "[b]" r] by simp

lemma read_len_at:
  "at_cursor p c (encode_len n @ r) \<Longrightarrow> n < 2 ^ 32 \<Longrightarrow> read_len p c = Inr (n, c + 4)"
  using vr.read_le_at [of p c 4 "of_nat n :: u32" r]
  by (simp add: read_len_def encode_len_def unat_of_nat_u32)

lemma read_count_at:
  assumes "at_cursor p c (encode_len n @ r)" and "n \<le> max_items" and "m * n \<le> length r"
  shows "read_count ty m p c = Inr (n, c + 4)"
proof -
  have "n < 2 ^ 32" using assms(2) by (simp add: max_items_def)
  from read_len_at [OF assms(1) this] have r: "read_len p c = Inr (n, c + 4)" .
  have "length p - (c + 4) = length r"
    using at_cursor_length [OF assms(1)] by simp
  moreover have "\<not> n > length r div m" if "m > 0"
    using assms(3) that by (simp add: not_less less_eq_div_iff_mult_less_eq mult.commute)
  ultimately show ?thesis
    using r assms(2) by (cases "m = 0") (simp_all add: read_count_def)
qed

lemma read_bytes_at:
  "at_cursor p c (encode_bytes bs @ r) \<Longrightarrow> length bs \<le> max_blob_bytes \<Longrightarrow>
     read_bytes ty p c = Inr (bs, c + length (encode_bytes bs))"
  unfolding read_bytes_def encode_bytes_prefixed
  by (rule vr.read_prefixed_at [OF _ _ max_blob_small])

lemma read_string_at:
  assumes "at_cursor p c (encode_bytes (as_bytes s) @ r)" and "length s \<le> max_blob_bytes" and "rust_string s"
  shows "read_string ty p c = Inr (s, c + length (encode_bytes (as_bytes s)))"
  using read_bytes_at [OF assms(1)] assms(2,3) by (simp add: read_string_def)

section \<open>What a successful read says of the input\<close>

lemma read_u8_InrD:
  "read_u8 p c = Inr (b, c') \<Longrightarrow> c \<le> length p \<Longrightarrow> c' = c + 1 \<and> c' \<le> length p \<and> at_cursor p c (b # drop c' p)"
  by (auto simp: read_u8_def at_cursor_def Cons_nth_drop_Suc split: if_splits)

lemma read_len_InrD:
  assumes "read_len p c = Inr (n, c')" and "c \<le> length p"
  shows "c' = c + 4 \<and> c' \<le> length p \<and> n < 2 ^ 32 \<and> at_cursor p c (encode_len n @ drop c' p)"
proof -
  from assms(1) obtain w :: u32 where w: "read_le read_exact 4 p c = Inr (w, c')" "n = unat w"
    by (auto simp: read_len_def and_then_Inr_iff)
  from vr.read_le_InrD [OF w(1) assms(2)] have "c' = c + 4 \<and> c' \<le> length p \<and> at_cursor p c (le_bytes 4 w @ drop c' p)"
    by auto
  moreover have "n < 2 ^ LENGTH(32)" unfolding w(2) by (rule unsigned_less)
  ultimately show ?thesis using w(2) by (auto simp: encode_len_def)
qed

lemma read_count_InrD:
  assumes "read_count ty m p c = Inr (n, c')" and "c \<le> length p"
  shows "c' = c + 4 \<and> c' \<le> length p \<and> n \<le> max_items \<and> at_cursor p c (encode_len n @ drop c' p)"
proof -
  from assms(1) have "read_len p c = Inr (n, c')" "n \<le> max_items"
    by (auto simp: read_count_def and_then_Inr_iff split: if_splits)
  with read_len_InrD [OF _ assms(2)] show ?thesis by blast
qed

lemma read_bytes_InrD:
  "read_bytes ty p c = Inr (bs, c') \<Longrightarrow> c \<le> length p \<Longrightarrow>
     c' = c + 4 + length bs \<and> c' \<le> length p \<and> length bs \<le> max_blob_bytes
     \<and> at_cursor p c (encode_bytes bs @ drop c' p)"
  unfolding read_bytes_def encode_bytes_prefixed
  by (drule (1) vr.read_prefixed_InrD [OF _ _ max_blob_small]) auto

lemma read_string_InrD:
  "read_string ty p c = Inr (s, c') \<Longrightarrow> c \<le> length p \<Longrightarrow>
     c' = c + 4 + length s \<and> c' \<le> length p \<and> length s \<le> max_blob_bytes \<and> rust_string s
     \<and> at_cursor p c (encode_bytes (as_bytes s) @ drop c' p)"
  by (auto simp: read_string_def and_then_Inr_iff dest!: from_utf8_SomeD read_bytes_InrD)

end
