(* ===== verification/Schema_Codec.thy ===== *)
theory Schema_Codec
  imports Schema_Value Value_Reader
begin

text \<open>
  The binary codec of document values (\<open>crates/mfs-store/src/schema_value.rs\<close>):
  \<open>encode_schema_value\<close>, \<open>decode_schema_value\<close> and the round trip between them.
\<close>

section \<open>Encoder\<close>

fun encode_schema_value_unchecked :: "schema_value \<Rightarrow> bytes"
  and encode_items :: "schema_value list \<Rightarrow> bytes"
  and encode_fields :: "(string \<times> schema_value) list \<Rightarrow> bytes" where
  "encode_schema_value_unchecked SV_Null = [sv_tag SV_Null]"
| "encode_schema_value_unchecked (SV_String s) = sv_tag (SV_String s) # encode_bytes (as_bytes s)"
| "encode_schema_value_unchecked (SV_Int32 w) = sv_tag (SV_Int32 w) # le_bytes 4 w"
| "encode_schema_value_unchecked (SV_Int64 w) = sv_tag (SV_Int64 w) # le_bytes 8 w"
| "encode_schema_value_unchecked (SV_Float x) = sv_tag (SV_Float x) # le_bytes 8 x"
| "encode_schema_value_unchecked (SV_Bool b) = [sv_tag (SV_Bool b), if b then 1 else 0]"
| "encode_schema_value_unchecked (SV_Object fs) = sv_tag (SV_Object fs) # encode_len (length fs) @ encode_fields fs"
| "encode_schema_value_unchecked (SV_Array vs) = sv_tag (SV_Array vs) # encode_len (length vs) @ encode_items vs"
| "encode_schema_value_unchecked (SV_Json b) = sv_tag (SV_Json b) # encode_bytes b"
| "encode_schema_value_unchecked (SV_Bytes b) = sv_tag (SV_Bytes b) # encode_bytes b"
| "encode_items [] = []"
| "encode_items (v # vs) = encode_schema_value_unchecked v @ encode_items vs"
| "encode_fields [] = []"
| "encode_fields ((k, v) # fs) =
     encode_bytes (as_bytes k) @ encode_schema_value_unchecked v @ encode_fields fs"

text \<open>The \<open>expect\<close> of \<open>encode_schema_value\<close> panics on a value that is not codec-safe: \<open>None\<close>.\<close>

definition encode_schema_value :: "schema_value \<Rightarrow> bytes option" where
  "encode_schema_value v = (case validate_codec_safe v of
     Inl _ \<Rightarrow> None
   | Inr _ \<Rightarrow> Some (encode_schema_value_unchecked v))"

section \<open>Decoder\<close>

abbreviation sv_ty :: string where
  "sv_ty \<equiv> ''SchemaValue''"

definition invalid_data :: "string \<Rightarrow> io_error" where
  "invalid_data msg = IoError InvalidData msg"

text \<open>Each call of \<open>decode_schema_value_at\<close> goes one level deeper, up to the limit; the two loops
  count down.\<close>

definition decode_rank :: "bool \<Rightarrow> nat \<Rightarrow> nat" where
  "decode_rank is_loop depth =
     (if depth > max_schema_value_depth then (if is_loop then 1 else 0)
      else 2 * (max_schema_value_depth + 2 - depth) - (if is_loop then 1 else 0))"

function decode_schema_value_at :: "bytes \<Rightarrow> nat \<Rightarrow> nat \<Rightarrow> io_error + schema_value \<times> nat"
  and decode_items :: "bytes \<Rightarrow> nat \<Rightarrow> nat \<Rightarrow> nat \<Rightarrow> schema_value list \<Rightarrow> io_error + schema_value list \<times> nat"
  and decode_fields :: "bytes \<Rightarrow> nat \<Rightarrow> nat \<Rightarrow> nat \<Rightarrow> sv_object \<Rightarrow> io_error + sv_object \<times> nat" where
  "decode_schema_value_at p c depth =
     (if depth > max_schema_value_depth
      then Inl (invalid_data ''SchemaValue nesting exceeds decoder limit'')
      else and_then (read_u8 p c) (\<lambda>(tag, c).
        if tag = 0 then Inr (SV_Null, c)
        else if tag = 1 then
          and_then (read_string sv_ty p c) (\<lambda>(s, c). Inr (SV_String s, c))
        else if tag = 2 then
          and_then (read_le read_exact 4 p c) (\<lambda>(w, c). Inr (SV_Int32 w, c))
        else if tag = 3 then
          and_then (read_le read_exact 8 p c) (\<lambda>(w, c). Inr (SV_Int64 w, c))
        else if tag = 4 then
          and_then (read_le read_exact 8 p c) (\<lambda>(x, c).
            if \<not> f64_is_finite x then Inl (invalid_data ''SchemaValue float must be finite'')
            else Inr (SV_Float x, c))
        else if tag = 5 then
          and_then (read_u8 p c) (\<lambda>(b, c).
            if b = 0 then Inr (SV_Bool False, c)
            else if b = 1 then Inr (SV_Bool True, c)
            else Inl (invalid_data ''SchemaValue bool must be 0 or 1''))
        else if tag = 6 then
          and_then (read_count sv_ty 5 p c) (\<lambda>(count, c).
            and_then (decode_fields p c depth count []) (\<lambda>(fs, c). Inr (SV_Object fs, c)))
        else if tag = 7 then
          and_then (read_count sv_ty 1 p c) (\<lambda>(count, c).
            and_then (decode_items p c depth count []) (\<lambda>(vs, c). Inr (SV_Array vs, c)))
        else if tag = 8 then
          and_then (read_bytes sv_ty p c) (\<lambda>(b, c). Inr (SV_Json b, c))
        else if tag = 9 then
          and_then (read_bytes sv_ty p c) (\<lambda>(b, c). Inr (SV_Bytes b, c))
        else Inl (invalid_data ''unknown SchemaValue tag'')))"
| "decode_items p c depth 0 vs = Inr (vs, c)"
| "decode_items p c depth (Suc n) vs =
     and_then (decode_schema_value_at p c (depth + 1)) (\<lambda>(v, c).
       decode_items p c depth n (vs @ [v]))"
| "decode_fields p c depth 0 fs = Inr (fs, c)"
| "decode_fields p c depth (Suc n) fs =
     and_then (read_string sv_ty p c) (\<lambda>(name, c).
       if map_of fs name \<noteq> None
       then Inl (invalid_data ''SchemaValue object contains duplicate field'')
       else and_then (decode_schema_value_at p c (depth + 1)) (\<lambda>(v, c).
         decode_fields p c depth n (bt_insert name v fs)))"
  by pat_completeness auto

termination
  by (relation "inv_image (less_than <*lex*> less_than) (\<lambda>x. case x of
        Inl (p, c, depth) \<Rightarrow> (decode_rank False depth, 0)
      | Inr (Inl (p, c, depth, n, vs)) \<Rightarrow> (decode_rank True depth, n)
      | Inr (Inr (p, c, depth, n, fs)) \<Rightarrow> (decode_rank True depth, n))")
    (auto simp: decode_rank_def max_schema_value_depth_def)

declare decode_schema_value_at.simps [simp del]

definition decode_schema_value :: "bytes \<Rightarrow> io_error + schema_value" where
  "decode_schema_value bs =
     (if length bs > max_schema_value_bytes
      then Inl (invalid_data ''SchemaValue payload exceeds decoder limit'')
      else and_then (decode_schema_value_at bs 0 0) (\<lambda>(v, c).
        if c = length bs then Inr v else Inl (invalid_data ''trailing SchemaValue bytes'')))"

section \<open>Codec-safe values\<close>

text \<open>What \<open>encoded_len\<close> checks, without the size arithmetic.\<close>

fun codec_safe :: "nat \<Rightarrow> schema_value \<Rightarrow> bool" where
  "codec_safe d (SV_String s) = (d \<le> max_schema_value_depth \<and> length s \<le> max_schema_blob_bytes)"
| "codec_safe d (SV_Float x) = (d \<le> max_schema_value_depth \<and> f64_is_finite x)"
| "codec_safe d (SV_Json b) = (d \<le> max_schema_value_depth \<and> length b \<le> max_schema_blob_bytes)"
| "codec_safe d (SV_Bytes b) = (d \<le> max_schema_value_depth \<and> length b \<le> max_schema_blob_bytes)"
| "codec_safe d (SV_Array vs) =
     (d \<le> max_schema_value_depth \<and> length vs \<le> max_schema_collection_items \<and>
      (\<forall>v \<in> set vs. codec_safe (d + 1) v))"
| "codec_safe d (SV_Object fs) =
     (d \<le> max_schema_value_depth \<and> length fs \<le> max_schema_collection_items \<and>
      (\<forall>f \<in> set fs. length (fst f) \<le> max_schema_blob_bytes \<and> codec_safe (d + 1) (snd f)))"
| "codec_safe d v = (d \<le> max_schema_value_depth)"

lemma checked_add_len_Inr_iff [simp]:
  "checked_add_len a b = Inr n \<longleftrightarrow> n = a + b \<and> a + b \<le> usize_max"
  by (auto simp: checked_add_len_def checked_add_usize_def)

lemma encoded_raw_bytes_len_Inr_iff [simp]:
  "encoded_raw_bytes_len name len = Inr n \<longleftrightarrow> len \<le> max_schema_blob_bytes \<and> n = 4 + len"
  by (auto simp: encoded_raw_bytes_len_def max_schema_blob_bytes_def u64_max_def)

lemma encoded_blob_len_Inr_iff [simp]:
  "encoded_blob_len name len = Inr n \<longleftrightarrow> len \<le> max_schema_blob_bytes \<and> n = 5 + len"
  by (auto simp: encoded_blob_len_def and_then_Inr_iff max_schema_blob_bytes_def u64_max_def)

declare encoded_len.simps [simp del]

lemma encoded_len_Inr_iff:
  "encoded_len v name d = Inr n \<longleftrightarrow>
     codec_safe d v \<and> n = length (encode_schema_value_unchecked v) \<and> n \<le> usize_max"
  "acc \<le> usize_max \<Longrightarrow> encoded_len_items vs name d i acc = Inr n \<longleftrightarrow>
     (\<forall>v \<in> set vs. codec_safe (d + 1) v) \<and> n = acc + length (encode_items vs) \<and> n \<le> usize_max"
  "acc \<le> usize_max \<Longrightarrow> encoded_len_fields fs name d acc = Inr n \<longleftrightarrow>
     (\<forall>f \<in> set fs. length (fst f) \<le> max_schema_blob_bytes \<and> codec_safe (d + 1) (snd f)) \<and>
     n = acc + length (encode_fields fs) \<and> n \<le> usize_max"
proof (induction v name d and vs name d i acc and fs name d acc arbitrary: n and n and n
    rule: encoded_len_encoded_len_items_encoded_len_fields.induct)
  case (1 v name d)
  have big: "10 + max_schema_blob_bytes \<le> usize_max"
    by (simp add: max_schema_blob_bytes_def u64_max_def)
  show ?case
  proof (cases "d > max_schema_value_depth")
    case True
    then show ?thesis by (cases v) (simp_all add: encoded_len.simps)
  next
    case False
    show ?thesis
    proof (cases v)
      case (SV_Array vs)
      show ?thesis
        using 1(2) [OF False SV_Array] False SV_Array big
        by (auto simp: encoded_len.simps)
    next
      case (SV_Object fs)
      show ?thesis
        using 1(1) [OF False SV_Object] False SV_Object big
        by (auto simp: encoded_len.simps)
    qed (use False big in \<open>auto simp: encoded_len.simps\<close>)
  qed
next
  case (2 name d i acc)
  then show ?case by auto
next
  case (3 v vs name d i acc)
  let ?m = "length (encode_schema_value_unchecked v)"
  note IH1 = 3(1) [unfolded Suc_eq_plus1 [symmetric]]
  show ?case
  proof (cases "codec_safe (d + 1) v \<and> acc + ?m \<le> usize_max")
    case True
    then have e: "encoded_len v (item_name name i) (d + 1) = Inr ?m" by (simp add: IH1)
    have c: "checked_add_len acc ?m = Inr (acc + ?m)" using True by simp
    note e' = e [unfolded Suc_eq_plus1 [symmetric]]
    from 3(2) [OF e c, of n] True show ?thesis by (auto simp: e' c)
  next
    case False
    then show ?thesis by (auto simp: and_then_Inr_iff IH1)
  qed
next
  case (4 name d acc)
  then show ?case by auto
next
  case (5 k v fs name d acc)
  let ?m = "length (encode_schema_value_unchecked v)"
  note IH1 = 5(1) [OF refl, unfolded Suc_eq_plus1 [symmetric]]
  show ?case
  proof (cases "length k \<le> max_schema_blob_bytes \<and> codec_safe (d + 1) v \<and> acc + (4 + length k) + ?m \<le> usize_max")
    case True
    let ?path = "join_path name k"
    from True have r: "encoded_raw_bytes_len ?path (length k) = Inr (4 + length k)"
      and c1: "checked_add_len acc (4 + length k) = Inr (acc + (4 + length k))"
      and c2: "checked_add_len (acc + (4 + length k)) ?m = Inr (acc + (4 + length k) + ?m)" by simp_all
    have e: "encoded_len v ?path (d + 1) = Inr ?m"
      using True by (subst 5(1) [OF refl r c1]) simp
    note e' = e [unfolded Suc_eq_plus1 [symmetric]]
    from 5(2) [OF refl r c1 e c2, of n] True show ?thesis by (auto simp: Let_def r c1 e' c2 simp del: add.assoc)
  next
    case False
    then show ?thesis by (auto simp: and_then_Inr_iff Let_def IH1)
  qed
qed

lemma validate_codec_safe_iff:
  "validate_codec_safe v = Inr () \<longleftrightarrow>
     codec_safe 0 v \<and> length (encode_schema_value_unchecked v) \<le> max_schema_value_bytes"
proof -
  have "max_schema_value_bytes \<le> usize_max"
    by (simp add: max_schema_value_bytes_def u64_max_def)
  then show ?thesis
    by (auto simp: validate_codec_safe_def and_then_Inr_iff encoded_len_Inr_iff split: if_splits)
qed

section \<open>Decoding what was encoded\<close>

lemma limits_agree [simp]:
  "max_schema_blob_bytes = max_blob_bytes" "max_schema_collection_items = max_items"
  by (simp_all add: max_schema_blob_bytes_def max_blob_bytes_def max_schema_collection_items_def max_items_def)

lemma length_encode_pos: "1 \<le> length (encode_schema_value_unchecked v)"
  by (cases v) simp_all

lemma length_encode_items_ge: "length vs \<le> length (encode_items vs)"
proof (induction vs)
  case (Cons v vs)
  then show ?case using length_encode_pos [of v] by simp
qed simp

lemma length_encode_fields_ge: "5 * length fs \<le> length (encode_fields fs)"
proof (induction fs)
  case (Cons f fs)
  then show ?case using length_encode_pos [of "snd f"] by (cases f) simp
qed simp

lemma codec_safe_depth: "codec_safe d v \<Longrightarrow> d \<le> max_schema_value_depth"
  by (cases v) simp_all

lemma decode_scalar_at:
  assumes "at_cursor p c (encode_schema_value_unchecked v @ r)" and "codec_safe d v" and "wf_value v"
    and "\<And>fs. v \<noteq> SV_Object fs" and "\<And>vs. v \<noteq> SV_Array vs"
  shows "decode_schema_value_at p c d = Inr (v, c + length (encode_schema_value_unchecked v))"
proof -
  note d = codec_safe_depth [OF assms(2)]
  obtain t e where te: "encode_schema_value_unchecked v = t # e" by (cases v) auto
  with assms(1) have a: "at_cursor p c (t # e @ r)" by simp
  note u8 = read_u8_at [OF a] and a' = at_cursor_Cons [OF a]
  show ?thesis
  proof (cases v)
    case (SV_String s)
    with te a' assms(2,3) read_string_at [of p "c + 1" s r sv_ty] d u8 show ?thesis
      by (auto simp: decode_schema_value_at.simps)
  next
    case (SV_Int32 w)
    with te a' vr.read_le_at [of p "c + 1" 4 w r] d u8 show ?thesis
      by (auto simp: decode_schema_value_at.simps)
  next
    case (SV_Int64 w)
    with te a' vr.read_le_at [of p "c + 1" 8 w r] d u8 show ?thesis
      by (auto simp: decode_schema_value_at.simps)
  next
    case (SV_Float x)
    with te a' vr.read_le_at [of p "c + 1" 8 x r] d u8 assms(2) show ?thesis
      by (auto simp: decode_schema_value_at.simps)
  next
    case (SV_Bool b)
    with te a' d u8 read_u8_at [of p "c + 1" "if b then 1 else 0" r] show ?thesis
      by (auto simp: decode_schema_value_at.simps)
  next
    case (SV_Json b)
    with te a' read_bytes_at [of p "c + 1" b r sv_ty] d u8 assms(2) show ?thesis
      by (auto simp: decode_schema_value_at.simps)
  next
    case (SV_Bytes b)
    with te a' read_bytes_at [of p "c + 1" b r sv_ty] d u8 assms(2) show ?thesis
      by (auto simp: decode_schema_value_at.simps)
  qed (use te u8 d assms(4,5) in \<open>auto simp: decode_schema_value_at.simps\<close>)
qed

lemma decode_encode_at:
  "at_cursor p c (encode_schema_value_unchecked v @ r) \<Longrightarrow> codec_safe d v \<Longrightarrow> wf_value v \<Longrightarrow>
     decode_schema_value_at p c d = Inr (v, c + length (encode_schema_value_unchecked v))"
  "at_cursor p c (encode_items vs @ r) \<Longrightarrow> \<forall>v \<in> set vs. codec_safe (d + 1) v \<and> wf_value v \<Longrightarrow>
     decode_items p c d (length vs) vacc = Inr (vacc @ vs, c + length (encode_items vs))"
  "at_cursor p c (encode_fields fs @ r) \<Longrightarrow>
     \<forall>f \<in> set fs. length (fst f) \<le> max_blob_bytes \<and> codec_safe (d + 1) (snd f) \<and>
       rust_string (fst f) \<and> wf_value (snd f) \<Longrightarrow>
     bt_wf (facc @ fs) \<Longrightarrow>
     decode_fields p c d (length fs) facc = Inr (facc @ fs, c + length (encode_fields fs))"
proof (induction v and vs and fs arbitrary: c d r and c d r vacc and c d r facc
    rule: encode_schema_value_unchecked_encode_items_encode_fields.induct)
  case (7 fs)
  then have a: "at_cursor p c (6 # encode_len (length fs) @ encode_fields fs @ r)" by simp
  note a1 = at_cursor_Cons [OF a]
  from at_cursor_advance [OF a1] have a2: "at_cursor p (c + 1 + 4) (encode_fields fs @ r)" by simp
  have cnt: "read_count sv_ty 5 p (c + 1) = Inr (length fs, c + 1 + 4)"
    by (rule read_count_at [OF a1]) (use 7(3) length_encode_fields_ge [of fs] in auto)
  have "decode_fields p (c + 1 + 4) d (length fs) [] = Inr ([] @ fs, c + 1 + 4 + length (encode_fields fs))"
    by (rule 7(1) [OF a2]) (use 7(3,4) in auto)
  with cnt read_u8_at [OF a] codec_safe_depth [OF 7(3)] show ?case
    by (simp add: decode_schema_value_at.simps)
next
  case (8 vs)
  then have a: "at_cursor p c (7 # encode_len (length vs) @ encode_items vs @ r)" by simp
  note a1 = at_cursor_Cons [OF a]
  from at_cursor_advance [OF a1] have a2: "at_cursor p (c + 1 + 4) (encode_items vs @ r)" by simp
  have cnt: "read_count sv_ty 1 p (c + 1) = Inr (length vs, c + 1 + 4)"
    by (rule read_count_at [OF a1]) (use 8(3) length_encode_items_ge [of vs] in auto)
  have "decode_items p (c + 1 + 4) d (length vs) [] = Inr ([] @ vs, c + 1 + 4 + length (encode_items vs))"
    by (rule 8(1) [OF a2]) (use 8(3,4) in auto)
  with cnt read_u8_at [OF a] codec_safe_depth [OF 8(3)] show ?case
    by (simp add: decode_schema_value_at.simps)
next
  case (12 v vs)
  from 12(3) have a: "at_cursor p c (encode_schema_value_unchecked v @ (encode_items vs @ r))" by simp
  from 12(1) [OF a] 12(4)
  have d1: "decode_schema_value_at p c (d + 1) = Inr (v, c + length (encode_schema_value_unchecked v))"
    by simp
  from 12(2) [OF at_cursor_advance [OF a], of d "vacc @ [v]"] 12(4) d1 show ?case
    by (simp add: add.assoc)
next
  case (14 k v fs)
  from 14(3) have a: "at_cursor p c (encode_bytes (as_bytes k) @ (encode_schema_value_unchecked v @ (encode_fields fs @ r)))"
    by simp
  note a1 = at_cursor_advance [OF a]
  note a2 = at_cursor_advance [OF a1]
  from 14(4) have k: "length k \<le> max_blob_bytes" "rust_string k" by simp_all
  note s1 = read_string_at [OF a k, of sv_ty]
  from 14(1) [OF a1] 14(4) have d1: "decode_schema_value_at p (c + length (encode_bytes (as_bytes k))) (d + 1)
      = Inr (v, c + length (encode_bytes (as_bytes k)) + length (encode_schema_value_unchecked v))"
    by simp
  have less: "\<forall>k' \<in> fst ` set facc. k' < k"
    using 14(5) by (auto simp: bt_wf_def sorted_wrt_append)
  then have ins: "bt_insert k v facc = facc @ [(k, v)]" by (rule bt_insert_append)
  have fresh: "map_of facc k = None"
    using less by (metis map_of_eq_None_iff less_irrefl)
  from 14(2) [OF a2, of d "facc @ [(k, v)]"] 14(4,5) s1 d1 fresh ins show ?case
    by (simp add: add.assoc)
qed ((rule decode_scalar_at, assumption, assumption, assumption, simp, simp) | simp)+

section \<open>What the decoder accepts\<close>

definition sound_field :: "nat \<Rightarrow> string \<times> schema_value \<Rightarrow> bool" where
  "sound_field d f \<longleftrightarrow>
     length (fst f) \<le> max_blob_bytes \<and> rust_string (fst f) \<and> codec_safe d (snd f) \<and> wf_value (snd f)"

lemma length_bt_insert_fresh:
  "map_of m k = None \<Longrightarrow> length (bt_insert k v m) = Suc (length m)"
  by (induction k v m rule: bt_insert.induct) (auto split: if_splits)

lemma length_encode_fields_insert:
  "map_of m k = None \<Longrightarrow> length (encode_fields (bt_insert k v m))
     = length (encode_fields m) + (4 + length k + length (encode_schema_value_unchecked v))"
  by (induction k v m rule: bt_insert.induct) (auto split: if_splits)

lemma length_encode_items_append:
  "length (encode_items (vs @ [v])) = length (encode_items vs) + length (encode_schema_value_unchecked v)"
  by (induction vs) simp_all

lemma sound_field_insert:
  "sound_field d (k, v) \<Longrightarrow> \<forall>f \<in> set m. sound_field d f \<Longrightarrow> \<forall>f \<in> set (bt_insert k v m). sound_field d f"
  using set_bt_insert_subset [of k v m] by auto

lemma decode_sound:
  "decode_schema_value_at p c d = Inr (v, c') \<Longrightarrow> c \<le> length p \<Longrightarrow>
     codec_safe d v \<and> wf_value v \<and> c' = c + length (encode_schema_value_unchecked v) \<and> c' \<le> length p"
  "decode_items p c d n vacc = Inr (vs, c') \<Longrightarrow> c \<le> length p \<Longrightarrow>
     \<forall>v \<in> set vacc. codec_safe (d + 1) v \<and> wf_value v \<Longrightarrow>
     (\<forall>v \<in> set vs. codec_safe (d + 1) v \<and> wf_value v) \<and> length vs = length vacc + n
     \<and> c' + length (encode_items vacc) = c + length (encode_items vs) \<and> c' \<le> length p"
  "decode_fields p c d n facc = Inr (fs, c') \<Longrightarrow> c \<le> length p \<Longrightarrow>
     \<forall>f \<in> set facc. sound_field (d + 1) f \<Longrightarrow> bt_wf facc \<Longrightarrow>
     (\<forall>f \<in> set fs. sound_field (d + 1) f) \<and> bt_wf fs \<and> length fs = length facc + n
     \<and> c' + length (encode_fields facc) = c + length (encode_fields fs) \<and> c' \<le> length p"
proof (induction p c d and p c d n vacc and p c d n facc arbitrary: v c' and vs c' and fs c'
    rule: decode_schema_value_at_decode_items_decode_fields.induct)
  case (1 p c depth)
  from 1(3) obtain tag c1 where d: "\<not> depth > max_schema_value_depth" and u8: "read_u8 p c = Inr (tag, c1)"
    by (subst (asm) decode_schema_value_at.simps) (auto simp: and_then_Inr_iff split: if_splits)
  from read_u8_InrD [OF u8 1(4)] have c1: "c1 = c + 1" "c1 \<le> length p" by auto
  note res = 1(3) [unfolded decode_schema_value_at.simps [of p c depth], simplified d u8, simplified]
  consider "tag = 0" | "tag = 1" | "tag = 2" | "tag = 3" | "tag = 4" | "tag = 5" | "tag = 6" | "tag = 7"
    | "tag = 8" | "tag = 9" using res by (auto split: if_splits)
  then show ?case
  proof cases
    case 7
    with res obtain n c2 fs where r: "read_count sv_ty 5 p c1 = Inr (n, c2)"
      "decode_fields p c2 depth n [] = Inr (fs, c')" "v = SV_Object fs"
      by (auto simp: and_then_Inr_iff)
    from read_count_InrD [OF r(1) c1(2)] have c2: "c2 = c1 + 4" "c2 \<le> length p" "n \<le> max_items" by auto
    from 1(1) [OF d u8 refl _ _ _ _ _ _ _ r(1) refl r(2)] 7 c2 c1 r(3) d show ?thesis
      by (auto simp: sound_field_def)
  next
    case 8
    with res obtain n c2 vs where r: "read_count sv_ty 1 p c1 = Inr (n, c2)"
      "decode_items p c2 depth n [] = Inr (vs, c')" "v = SV_Array vs"
      by (auto simp: and_then_Inr_iff)
    from read_count_InrD [OF r(1) c1(2)] have c2: "c2 = c1 + 4" "c2 \<le> length p" "n \<le> max_items" by auto
    from 1(2) [OF d u8 refl _ _ _ _ _ _ _ _ r(1) refl r(2)] 8 c2 c1 r(3) d show ?thesis
      by auto
  qed (use res d c1 in \<open>auto simp: and_then_Inr_iff split: if_splits
        dest!: read_string_InrD read_bytes_InrD vr.read_le_InrD read_u8_InrD\<close>)
next
  case (3 p c depth n vacc)
  from 3(3) obtain v c1 where r: "decode_schema_value_at p c (depth + 1) = Inr (v, c1)"
    "decode_items p c1 depth n (vacc @ [v]) = Inr (vs, c')" by (auto simp: and_then_Inr_iff)
  from 3(1) [OF r(1) 3(4)] have v: "codec_safe (depth + 1) v" "wf_value v"
    "c1 = c + length (encode_schema_value_unchecked v)" "c1 \<le> length p" by auto
  have "\<forall>w \<in> set (vacc @ [v]). codec_safe (depth + 1) w \<and> wf_value w" using v 3(5) by auto
  from 3(2) [OF r(1) refl r(2) v(4) this] v show ?case
    by (auto simp: length_encode_items_append)
next
  case (5 p c depth n facc)
  from 5(3) obtain k v c1 c2 where r: "read_string sv_ty p c = Inr (k, c1)" "map_of facc k = None"
    "decode_schema_value_at p c1 (depth + 1) = Inr (v, c2)"
    "decode_fields p c2 depth n (bt_insert k v facc) = Inr (fs, c')"
    by (auto simp: and_then_Inr_iff split: if_splits)
  from read_string_InrD [OF r(1) 5(4)]
  have k: "c1 = c + 4 + length k" "c1 \<le> length p" "length k \<le> max_blob_bytes" "rust_string k" by auto
  have nk: "\<not> map_of facc k \<noteq> None" using r(2) by simp
  from 5(1) [OF r(1) refl nk r(3) k(2)] have v: "codec_safe (depth + 1) v" "wf_value v"
    "c2 = c1 + length (encode_schema_value_unchecked v)" "c2 \<le> length p" by auto
  have "sound_field (depth + 1) (k, v)" using k v by (simp add: sound_field_def)
  from 5(2) [OF r(1) refl nk r(3) refl r(4) v(4) sound_field_insert [OF this 5(5)] bt_wf_insert [OF 5(6)]] v(3) k(1)
  show ?case
    by (auto simp: length_bt_insert_fresh [OF r(2)] length_encode_fields_insert [OF r(2)])
qed auto

lemma encode_schema_value_Some_iff:
  "encode_schema_value v = Some bs \<longleftrightarrow>
     codec_safe 0 v \<and> length (encode_schema_value_unchecked v) \<le> max_schema_value_bytes
     \<and> bs = encode_schema_value_unchecked v"
  using validate_codec_safe_iff [of v] by (auto simp: encode_schema_value_def split: sum.splits)

lemma decode_encode_document:
  assumes "wf_value v" and "encode_schema_value v = Some bs"
  shows "decode_schema_value bs = Inr v"
proof -
  note bs = assms(2) [unfolded encode_schema_value_Some_iff]
  have "decode_schema_value_at bs 0 0 = Inr (v, 0 + length (encode_schema_value_unchecked v))"
    by (rule decode_encode_at(1) [where r = "[]"]) (use bs assms(1) in simp_all)
  with bs show ?thesis
    by (simp add: decode_schema_value_def)
qed

lemma decode_document_sound:
  assumes "decode_schema_value bs = Inr v"
  shows "wf_value v \<and> (\<exists>bs'. encode_schema_value v = Some bs' \<and> length bs' = length bs)"
proof -
  from assms have l: "length bs \<le> max_schema_value_bytes"
    and d: "decode_schema_value_at bs 0 0 = Inr (v, length bs)"
    by (auto simp: decode_schema_value_def and_then_Inr_iff split: if_splits)
  from decode_sound(1) [OF d] l show ?thesis
    by (auto simp: encode_schema_value_Some_iff)
qed

text \<open>C9. Round trip of the schema value codec: every value built from valid UTF-8 strings and sorted
  maps that the encoder accepts (it does not panic) decodes, from exactly the bytes written, to the
  same value.\<close>

theorem schema_value_roundtrip:
  assumes "wf_value v" and "encode_schema_value v = Some bs"
  shows "decode_schema_value bs = Inr v"
  using assms by (rule decode_encode_document)

definition sample_document :: schema_value where
  "sample_document = SV_Object
     [(''id'', SV_String ''u1''), (''n'', SV_Int32 7), (''tags'', SV_Array [SV_Null, SV_Bool True])]"

theorem schema_value_roundtrip_witness:
  "wf_value sample_document \<and>
   (\<exists>bs. encode_schema_value sample_document = Some bs \<and> length bs = 44
      \<and> decode_schema_value bs = Inr sample_document)"
proof -
  have wf: "wf_value sample_document" by code_simp
  have "map_option length (encode_schema_value sample_document) = Some 44" by code_simp
  then obtain bs where bs: "encode_schema_value sample_document = Some bs" "length bs = 44" by blast
  from schema_value_roundtrip [OF wf bs(1)] wf bs show ?thesis by blast
qed

text \<open>C19. Whatever bytes the schema value decoder accepts, the result is a well-formed value within the
  codec limits, so encoding it never panics, takes exactly as many bytes as were read, and decodes
  to the same value again.\<close>

theorem decode_schema_value_stable:
  assumes "decode_schema_value bs = Inr v"
  shows "wf_value v \<and> (\<exists>bs'. encode_schema_value v = Some bs' \<and> length bs' = length bs
    \<and> decode_schema_value bs' = Inr v)"
  using decode_document_sound [OF assms] decode_encode_document by blast

theorem decode_schema_value_stable_witness:
  "decode_schema_value [6, 1, 0, 0, 0, 1, 0, 0, 0, 97, 5, 1] = Inr (SV_Object [(''a'', SV_Bool True)])
   \<and> (\<exists>bs'. encode_schema_value (SV_Object [(''a'', SV_Bool True)]) = Some bs' \<and> length bs' = 12
      \<and> decode_schema_value bs' = Inr (SV_Object [(''a'', SV_Bool True)]))"
proof -
  have d: "decode_schema_value [6, 1, 0, 0, 0, 1, 0, 0, 0, 97, 5, 1] = Inr (SV_Object [(''a'', SV_Bool True)])"
    by code_simp
  from decode_schema_value_stable [OF d] d show ?thesis by (simp add: numeral_eq_Suc)
qed

end
