(* ===== verification/Schema_Document.thy ===== *)
theory Schema_Document
  imports Schema_Value
begin

text \<open>
  What the document operations of \<open>schema_value.rs\<close> promise. \<open>conforms\<close> says when a value has a
  schema type, and \<open>validate_document\<close> accepts exactly the conforming, codec-safe objects of a valid
  schema; \<open>set_field\<close>, \<open>unset_field\<close> and \<open>apply_increment\<close> are described by the reads after them.
\<close>

section \<open>Conformance\<close>

fun conforms :: "schema_field_type \<Rightarrow> schema_value \<Rightarrow> bool"
  and conforms_field :: "schema_field \<Rightarrow> sv_object \<Rightarrow> bool" where
  "conforms FT_String v = (kind v = K_String)"
| "conforms FT_Int32 v = (case v of SV_Int32 _ \<Rightarrow> True | SV_Int64 w \<Rightarrow> in_i32 (sint w) | _ \<Rightarrow> False)"
| "conforms FT_Int64 v = (kind v \<in> {K_Int32, K_Int64})"
| "conforms FT_Float v = (case v of SV_Float x \<Rightarrow> f64_is_finite x | _ \<Rightarrow> kind v \<in> {K_Int32, K_Int64})"
| "conforms FT_Bool v = (kind v = K_Bool)"
| "conforms (FT_Object fs) v = (case v of
     SV_Object obj \<Rightarrow> (\<forall>f \<in> set fs. conforms_field f obj) | _ \<Rightarrow> False)"
| "conforms (FT_Array inner) v = (case v of
     SV_Array vs \<Rightarrow> (\<forall>w \<in> set vs. conforms inner w) | _ \<Rightarrow> False)"
| "conforms FT_Json v = True"
| "conforms FT_Bytes v = (kind v = K_Bytes)"
| "conforms_field (SchemaField n ty prim opt idx sto uniq rf srt rng) obj =
     (case resolve_path obj n of
        None \<Rightarrow> opt
      | Some v \<Rightarrow> if v = SV_Null then opt else conforms ty v)"

lemma try_fold_unit_iff: "try_fold (\<lambda>x _. g x) xs () = Inr () \<longleftrightarrow> (\<forall>x \<in> set xs. g x = Inr ())"
  by (induction xs) (auto simp: and_then_Inr_iff)

lemma set_enumerate_snd: "(\<forall>x \<in> set (List.enumerate n vs). P (snd x)) \<longleftrightarrow> (\<forall>v \<in> set vs. P v)"
  by (induction vs arbitrary: n) auto

lemma validate_types_conform:
  "validate_fields fs obj parent = Inr () \<longleftrightarrow> (\<forall>f \<in> set fs. conforms_field f obj)"
  "validate_schema_field f obj parent = Inr () \<longleftrightarrow> conforms_field f obj"
  "validate_value_type ty v name = Inr () \<longleftrightarrow> conforms ty v"
proof (induction fs obj parent and f obj parent and ty v name
    rule: validate_fields_validate_schema_field_validate_value_type.induct)
  case (10 inner v name)
  show ?case
  proof (cases v)
    case (SV_Array vs)
    have "(\<forall>x \<in> set (List.enumerate 0 vs). validate_value_type inner (snd x) (item_name name (fst x)) = Inr ())
        \<longleftrightarrow> (\<forall>x \<in> set (List.enumerate 0 vs). conforms inner (snd x))"
      using 10 [OF SV_Array] by force
    with SV_Array show ?thesis
      by (simp add: case_prod_unfold try_fold_unit_iff set_enumerate_snd)
  qed (simp_all add: type_mismatch_def)
qed (auto simp: and_then_Inr_iff type_mismatch_def i32_try_from_def Let_def split: schema_value.splits option.splits)

lemma validate_document_accepts:
  "validate_document s v = Inr () \<longleftrightarrow>
     wf_schema s \<and> (\<exists>obj. v = SV_Object obj \<and> (\<forall>f \<in> set (s_fields s). conforms_field f obj))
     \<and> validate_codec_safe v = Inr ()"
  by (cases "as_object v")
    (auto simp: validate_document_def and_then_Inr_iff validate_accepts_iff validate_types_conform ok_or_def)

section \<open>Removal\<close>

lemma unset_walk_effect:
  assumes "wf_value (SV_Object obj)" and "unset_walk ps l obj = (b, obj')"
  shows "(b \<longleftrightarrow> resolve_segments obj (ps @ [l]) \<noteq> None)
    \<and> resolve_segments obj' (ps @ [l]) = None \<and> (\<not> b \<longrightarrow> obj' = obj) \<and> wf_value (SV_Object obj')"
  using assms
proof (induction ps arbitrary: b obj obj')
  case Nil
  then have "bt_remove l obj = obj" if "map_of obj l = None"
    using that by (auto simp: bt_remove_def filter_id_conv map_of_eq_None_iff rev_image_eqI)
  moreover have "wf_value (SV_Object (bt_remove l obj))"
    using Nil.prems(1) by (auto simp: bt_remove_def [symmetric]) (auto simp: bt_remove_def)
  ultimately show ?case
    using Nil.prems(2) by (auto simp: resolve_segments_Cons split: option.splits)
next
  case (Cons s ps)
  note wf = Cons.prems(1)
  show ?case
  proof (cases "\<exists>nested. map_of obj s = Some (SV_Object nested)")
    case True
    then obtain nested where m: "map_of obj s = Some (SV_Object nested)" by blast
    obtain b' nested' where w: "unset_walk ps l nested = (b', nested')" by fastforce
    with Cons.prems(2) m have r: "b' = b" "obj' = bt_insert s (SV_Object nested') obj" by auto
    note wfn = wf_object_member [OF wf m]
    note ih = Cons.IH [OF wfn w]
    have "rust_string s" using wf m by (auto dest!: map_of_SomeD)
    with ih have "wf_value (SV_Object obj')"
      unfolding r(2) by (intro wf_object_insert [OF wf]) auto
    moreover have "obj' = obj" if "\<not> b"
      using that ih r m bt_insert_same [OF wf_object_bt [OF wf] m] by simp
    moreover have "resolve_segments obj (s # ps @ [l]) = resolve_segments nested (ps @ [l])"
      "resolve_segments obj' (s # ps @ [l]) = resolve_segments nested' (ps @ [l])"
      using m r(2) wf_object_bt [OF wf] by (simp_all add: resolve_segments_Cons)
    ultimately show ?thesis using ih r(1) by simp
  next
    case False
    then have "unset_walk (s # ps) l obj = (False, obj)"
      by (auto split: option.splits schema_value.splits)
    moreover have "resolve_segments obj (s # ps @ [l]) = None"
      using False by (auto simp: resolve_segments_Cons split: option.splits schema_value.splits)
    ultimately show ?thesis using Cons.prems by auto
  qed
qed

lemma unset_walk_frame:
  assumes "wf_value (SV_Object obj)" and "unset_walk ps l obj = (b, obj')"
    and "\<not> prefix qs (ps @ [l])" and "\<not> prefix (ps @ [l]) qs"
  shows "resolve_segments obj' qs = resolve_segments obj qs"
  using assms
proof (induction ps arbitrary: b obj obj' qs)
  case Nil
  then obtain q qs' where "qs = q # qs'" "q \<noteq> l" by (cases qs) auto
  with Nil.prems(2) show ?case by (auto simp: resolve_segments_Cons)
next
  case (Cons s ps)
  note wf = Cons.prems(1)
  obtain q qs' where q: "qs = q # qs'" using Cons.prems(3) by (cases qs) auto
  show ?case
  proof (cases "\<exists>nested. map_of obj s = Some (SV_Object nested)")
    case True
    then obtain nested where m: "map_of obj s = Some (SV_Object nested)" by blast
    obtain b' nested' where w: "unset_walk ps l nested = (b', nested')" by fastforce
    with Cons.prems(2) m have r: "obj' = bt_insert s (SV_Object nested') obj" by auto
    show ?thesis
    proof (cases "q = s")
      case True
      with Cons.prems(3,4) q have "qs' \<noteq> []" "\<not> prefix qs' (ps @ [l])" "\<not> prefix (ps @ [l]) qs'" by auto
      with Cons.IH [OF wf_object_member [OF wf m] w] show ?thesis
        using m r q True wf_object_bt [OF wf] by (simp add: resolve_segments_Cons)
    next
      case False
      with r q show ?thesis by (simp add: resolve_segments_Cons)
    qed
  next
    case False
    then have "unset_walk (s # ps) l obj = (False, obj)"
      by (auto split: option.splits schema_value.splits)
    with Cons.prems(2) show ?thesis by simp
  qed
qed

section \<open>Paths that do not touch\<close>

definition disjoint_paths :: "string \<Rightarrow> string \<Rightarrow> bool" where
  "disjoint_paths p q \<longleftrightarrow>
     \<not> prefix (split_on (CHR ''.'') p) (split_on (CHR ''.'') q)
   \<and> \<not> prefix (split_on (CHR ''.'') q) (split_on (CHR ''.'') p)"

text \<open>C18. A document passes \<open>validate_document\<close> exactly when the schema is valid, the document is an
  object in which every declared field is present with its type (or optional and absent or null),
  and the document is within the codec limits.\<close>

theorem validate_document_iff:
  "validate_document s v = Inr () \<longleftrightarrow>
     wf_schema s \<and> (\<exists>obj. v = SV_Object obj \<and> list_all (\<lambda>f. conforms_field f obj) (s_fields s))
     \<and> validate_codec_safe v = Inr ()"
  by (simp add: validate_document_accepts list_all_iff)

text \<open>C26. Setting a dotted path: on success the path reads back the new value and every path that
  neither contains nor is contained in it reads as before; on an error the value is unchanged
  although the walk mutates in place.\<close>

theorem set_field_effect:
  assumes "wf_value v" and "set_field p x v = (r, v')"
  shows "case r of
      Inr _ \<Rightarrow> field v' p = Some x \<and> (\<forall>q. disjoint_paths p q \<longrightarrow> field v' q = field v q)
    | Inl _ \<Rightarrow> v' = v"
  using assms set_field_frame [OF assms]
  by (auto simp: disjoint_paths_def dest: set_field_read set_field_error split: sum.splits)

theorem set_field_effect_witness:
  "\<exists>v'. set_field ''a.b'' SV_Null (SV_Object [(''c'', SV_Bool True)]) = (Inr (), v')
     \<and> field v' ''a.b'' = Some SV_Null \<and> field v' ''c'' = Some (SV_Bool True)"
proof -
  let ?v = "SV_Object [(''c'', SV_Bool True)]"
  have wf: "wf_value ?v" by code_simp
  have s: "set_field ''a.b'' SV_Null ?v =
      (Inr (), SV_Object [(''a'', SV_Object [(''b'', SV_Null)]), (''c'', SV_Bool True)])" by code_simp
  have d: "disjoint_paths ''a.b'' ''c''" "field ?v ''c'' = Some (SV_Bool True)" by code_simp+
  from set_field_effect [OF wf s] s d show ?thesis by simp
qed

text \<open>C27. Removing a dotted path reports exactly whether the path was present; afterwards it is absent,
  disjoint paths read as before, and when it was absent the value is unchanged.\<close>

theorem unset_field_effect:
  assumes "wf_value v" and "unset_field p v = (b, v')"
  shows "(b \<longleftrightarrow> field v p \<noteq> None) \<and> field v' p = None \<and> (\<not> b \<longrightarrow> v' = v) \<and> wf_value v'
    \<and> (\<forall>q. disjoint_paths p q \<longrightarrow> field v' q = field v q)"
proof (cases "as_object v")
  case None
  with assms show ?thesis by (auto simp: unset_field_def field_def)
next
  case (Some obj)
  let ?ss = "split_on (CHR ''.'') p"
  from Some have v: "v = SV_Object obj" by simp
  obtain obj' where w: "unset_walk (butlast ?ss) (last ?ss) obj = (b, obj')" and v': "v' = SV_Object obj'"
    using assms(2) v by (auto simp: unset_field_def Let_def map_prod_def split: prod.splits)
  note e = unset_walk_effect [OF assms(1) [unfolded v] w]
  note f = unset_walk_frame [OF assms(1) [unfolded v] w]
  have "field v' q = field v q" if "disjoint_paths p q" for q
    using that f [of "split_on (CHR ''.'') q"] v v' by (simp add: disjoint_paths_def field_object)
  with e v v' show ?thesis by (simp add: field_object)
qed

theorem unset_field_effect_witness:
  "\<exists>v'. unset_field ''a.b'' (SV_Object [(''a'', SV_Object [(''b'', SV_Null), (''c'', SV_Bool True)])]) = (True, v')
     \<and> field v' ''a.b'' = None \<and> field v' ''a.c'' = Some (SV_Bool True)"
proof -
  let ?v = "SV_Object [(''a'', SV_Object [(''b'', SV_Null), (''c'', SV_Bool True)])]"
  have wf: "wf_value ?v" by code_simp
  have s: "unset_field ''a.b'' ?v = (True, SV_Object [(''a'', SV_Object [(''c'', SV_Bool True)])])" by code_simp
  have d: "disjoint_paths ''a.b'' ''a.c''" "field ?v ''a.c'' = Some (SV_Bool True)" by code_simp+
  from unset_field_effect [OF wf s] s d show ?thesis by simp
qed

text \<open>C28. Incrementing a dotted path: the path then holds the exact sum in the type it had (or the delta
  itself, as int64, when absent), disjoint paths read as before, and on an error, overflow of the
  field's own width included, the value is unchanged.\<close>

theorem apply_increment_effect:
  assumes "wf_value v" and "apply_increment p d v = (r, v')"
  shows "case r of
      Inr _ \<Rightarrow> (\<exists>y. incremented p d (field v p) = Inr y \<and> field v' p = Some y)
        \<and> (\<forall>q. disjoint_paths p q \<longrightarrow> field v' q = field v q)
    | Inl _ \<Rightarrow> v' = v"
  using assms apply_increment_frame [OF assms]
  by (auto simp: disjoint_paths_def dest: apply_increment_read apply_increment_error split: sum.splits)

theorem apply_increment_effect_witness:
  "\<exists>v'. apply_increment ''n'' (- 3) (SV_Object [(''n'', SV_Int32 1)]) = (Inr (), v')
     \<and> field v' ''n'' = Some (SV_Int32 (- 2))"
proof -
  let ?v = "SV_Object [(''n'', SV_Int32 1)]"
  have wf: "wf_value ?v" by code_simp
  have s: "apply_increment ''n'' (- 3) ?v = (Inr (), SV_Object [(''n'', SV_Int32 (- 2))])" by code_simp
  have "incremented ''n'' (- 3) (field ?v ''n'') = Inr (SV_Int32 (- 2))" by code_simp
  with apply_increment_effect [OF wf s] s show ?thesis by simp
qed

end
