(* ===== verification/Concurrent_Map.thy ===== *)
theory Concurrent_Map
  imports Prelude
begin

text \<open>
  \<open>concurrent_map.rs\<close> and \<open>hasher.rs\<close> of \<open>mfs-core\<close>: the fixed-capacity open-addressed table and the
  Fibonacci-multiply hasher. The table is modelled slot by slot, with its metadata bytes, its entry
  pointers (\<open>None\<close> is null) and its probe sequence; every operation runs alone, so each
  \<open>compare_exchange\<close> succeeds. Reclamation of replaced boxes has no effect on contents and is left
  out. The hash function is an argument, as the \<open>hash_builder\<close> is in the code.
\<close>

unbundle bit_operations_syntax

section \<open>Hasher\<close>

definition fast_k :: u64 where
  "fast_k = 0x9E3779B97F4A7C15"

definition mix :: "u64 \<Rightarrow> u64 \<Rightarrow> u64" where
  "mix state word = (word_rotl 5 state XOR word) * fast_k"

fun write_chunks :: "u64 \<Rightarrow> bytes \<Rightarrow> u64" where
  "write_chunks h (b0 # b1 # b2 # b3 # b4 # b5 # b6 # b7 # rest) =
     write_chunks (mix h (from_le [b0, b1, b2, b3, b4, b5, b6, b7])) rest"
| "write_chunks h rest =
     (if rest \<noteq> [] then mix h (from_le (rest @ replicate (8 - length rest) 0)) else h)"

text \<open>\<open>hash_one\<close> of a \<open>u64\<close> key and of a byte vector, which hashes its length first.\<close>

definition hash_u64 :: "u64 \<Rightarrow> u64" where
  "hash_u64 k = mix 0 k"

definition hash_bytes :: "bytes \<Rightarrow> u64" where
  "hash_bytes bs = write_chunks (mix 0 (of_nat (length bs))) bs"

section \<open>Table\<close>

definition meta_empty :: byte where "meta_empty = 0x80"
definition meta_tombstone :: byte where "meta_tombstone = 0xFE"
definition h2_mask :: byte where "h2_mask = 0x7F"

record ('k, 'v) concurrent_map =
  cm_capacity :: nat
  cm_mask :: nat
  cm_probe_limit :: nat
  cm_meta :: "byte list"
  cm_entries :: "('k \<times> 'v) option list"
  cm_len :: nat
  cm_retire_batch_size :: nat

datatype insert_outcome = Inserted | Replaced | Full

definition default_retire_batch :: nat where
  "default_retire_batch = 4096"

function next_power_from :: "nat \<Rightarrow> nat \<Rightarrow> nat" where
  "next_power_from n p = (if n \<le> p \<or> p = 0 then p else next_power_from n (2 * p))"
  by pat_completeness auto
termination
  by (relation "measure (\<lambda>(n, p). n - p)") auto

declare next_power_from.simps [simp del]

definition next_power_of_two :: "nat \<Rightarrow> nat" where
  "next_power_of_two n = next_power_from n 1"

function ilog2 :: "nat \<Rightarrow> nat" where
  "ilog2 n = (if n \<le> 1 then 0 else Suc (ilog2 (n div 2)))"
  by pat_completeness auto
termination
  by (relation "measure id") auto

declare ilog2.simps [simp del]

definition probe_limit :: "nat \<Rightarrow> nat" where
  "probe_limit cap = 5 * max (ilog2 cap) 1"

definition table_capacity :: "nat \<Rightarrow> nat" where
  "table_capacity cap = max (next_power_of_two (min (max cap 8 * 4) u64_max div 3)) 8"

definition with_capacity_and_batch :: "nat \<Rightarrow> nat \<Rightarrow> ('k, 'v) concurrent_map" where
  "with_capacity_and_batch requested batch_size =
     (let cap = table_capacity requested in
      \<lparr>cm_capacity = cap, cm_mask = cap - 1, cm_probe_limit = probe_limit cap,
       cm_meta = replicate cap meta_empty, cm_entries = replicate cap None, cm_len = 0,
       cm_retire_batch_size = batch_size\<rparr>)"

definition with_capacity :: "nat \<Rightarrow> ('k, 'v) concurrent_map" where
  "with_capacity requested = with_capacity_and_batch requested default_retire_batch"

definition h1_of :: "('k \<Rightarrow> u64) \<Rightarrow> ('k, 'v) concurrent_map \<Rightarrow> 'k \<Rightarrow> nat" where
  "h1_of hash m k = unat (hash k) AND cm_mask m"

definition h2_of :: "('k \<Rightarrow> u64) \<Rightarrow> 'k \<Rightarrow> byte" where
  "h2_of hash k = ucast (drop_bit 57 (hash k)) AND h2_mask"

text \<open>The slots a probe visits: from \<open>i\<close> after \<open>n\<close> advances, stepping by one more each time, until
  \<open>probe_limit\<close> advances have been made.\<close>

function probes :: "nat \<Rightarrow> nat \<Rightarrow> nat \<Rightarrow> nat \<Rightarrow> nat list" where
  "probes limit msk i n =
     i # (if n + 1 > limit then [] else probes limit msk ((i + (n + 1)) AND msk) (n + 1))"
  by pat_completeness auto
termination
  by (relation "measure (\<lambda>(limit, msk, i, n). limit - n)") auto

declare probes.simps [simp del]

definition probe_sequence :: "('k \<Rightarrow> u64) \<Rightarrow> ('k, 'v) concurrent_map \<Rightarrow> 'k \<Rightarrow> nat list" where
  "probe_sequence hash m k = probes (cm_probe_limit m) (cm_mask m) (h1_of hash m k) 0"

definition holds_key :: "('k, 'v) concurrent_map \<Rightarrow> nat \<Rightarrow> 'k \<Rightarrow> bool" where
  "holds_key m i k \<longleftrightarrow> (case cm_entries m ! i of Some (k', _) \<Rightarrow> k' = k | None \<Rightarrow> False)"

fun get_loop :: "('k, 'v) concurrent_map \<Rightarrow> byte \<Rightarrow> 'k \<Rightarrow> nat list \<Rightarrow> 'v option" where
  "get_loop m h2 k [] = None"
| "get_loop m h2 k (i # is) =
     (if cm_meta m ! i = h2 then
        (case cm_entries m ! i of
           Some (k', v) \<Rightarrow> if k' = k then Some v else get_loop m h2 k is
         | None \<Rightarrow> get_loop m h2 k is)
      else if cm_meta m ! i = meta_empty then None
      else get_loop m h2 k is)"

definition cm_get :: "('k \<Rightarrow> u64) \<Rightarrow> ('k, 'v) concurrent_map \<Rightarrow> 'k \<Rightarrow> 'v option" where
  "cm_get hash m k = get_loop m (h2_of hash k) k (probe_sequence hash m k)"

definition get_with_hash :: "('k \<Rightarrow> u64) \<Rightarrow> ('k, 'v) concurrent_map \<Rightarrow> 'k \<Rightarrow> ('v \<times> u64) option" where
  "get_with_hash hash m k =
     map_option (\<lambda>v. (v, hash k)) (get_loop m (h2_of hash k) k (probe_sequence hash m k))"

definition cm_contains_key :: "('k \<Rightarrow> u64) \<Rightarrow> ('k, 'v) concurrent_map \<Rightarrow> 'k \<Rightarrow> bool" where
  "cm_contains_key hash m k \<longleftrightarrow> cm_get hash m k \<noteq> None"

definition set_entry :: "nat \<Rightarrow> ('k \<times> 'v) option \<Rightarrow> ('k, 'v) concurrent_map \<Rightarrow> ('k, 'v) concurrent_map" where
  "set_entry i e m = m\<lparr>cm_entries := (cm_entries m)[i := e]\<rparr>"

definition set_meta :: "nat \<Rightarrow> byte \<Rightarrow> ('k, 'v) concurrent_map \<Rightarrow> ('k, 'v) concurrent_map" where
  "set_meta i b m = m\<lparr>cm_meta := (cm_meta m)[i := b]\<rparr>"

fun insert_loop :: "('k, 'v) concurrent_map \<Rightarrow> byte \<Rightarrow> 'k \<Rightarrow> 'v \<Rightarrow> nat list \<Rightarrow>
    (insert_outcome \<times> 'v option) \<times> ('k, 'v) concurrent_map" where
  "insert_loop m h2 k v [] = ((Full, None), m)"
| "insert_loop m h2 k v (i # is) =
     (if cm_meta m ! i = h2 then
        (case cm_entries m ! i of
           Some (k', old) \<Rightarrow>
             if k' = k then ((Replaced, Some old), set_entry i (Some (k, v)) m)
             else insert_loop m h2 k v is
         | None \<Rightarrow> insert_loop m h2 k v is)
      else if cm_meta m ! i = meta_empty \<or> cm_meta m ! i = meta_tombstone then
        (case cm_entries m ! i of
           None \<Rightarrow> ((Inserted, None),
             (set_meta i h2 (set_entry i (Some (k, v)) m))\<lparr>cm_len := cm_len m + 1\<rparr>)
         | Some _ \<Rightarrow> insert_loop m h2 k v is)
      else insert_loop m h2 k v is)"

definition insert_inner :: "('k \<Rightarrow> u64) \<Rightarrow> 'k \<Rightarrow> 'v \<Rightarrow> ('k, 'v) concurrent_map \<Rightarrow>
    (insert_outcome \<times> 'v option) \<times> ('k, 'v) concurrent_map" where
  "insert_inner hash k v m = insert_loop m (h2_of hash k) k v (probe_sequence hash m k)"

definition cm_insert :: "('k \<Rightarrow> u64) \<Rightarrow> 'k \<Rightarrow> 'v \<Rightarrow> ('k, 'v) concurrent_map \<Rightarrow>
    insert_outcome \<times> ('k, 'v) concurrent_map" where
  "cm_insert hash k v m = map_prod fst id (insert_inner hash k v m)"

fun can_insert_loop :: "('k, 'v) concurrent_map \<Rightarrow> byte \<Rightarrow> 'k \<Rightarrow> nat list \<Rightarrow> bool" where
  "can_insert_loop m h2 k [] = False"
| "can_insert_loop m h2 k (i # is) =
     (if cm_meta m ! i = h2 then
        (case cm_entries m ! i of
           Some (k', _) \<Rightarrow> k' = k \<or> can_insert_loop m h2 k is
         | None \<Rightarrow> can_insert_loop m h2 k is)
      else if cm_meta m ! i = meta_empty \<or> cm_meta m ! i = meta_tombstone then
        cm_entries m ! i = None \<or> can_insert_loop m h2 k is
      else can_insert_loop m h2 k is)"

definition can_insert_or_replace :: "('k \<Rightarrow> u64) \<Rightarrow> 'k \<Rightarrow> ('k, 'v) concurrent_map \<Rightarrow> bool" where
  "can_insert_or_replace hash k m = can_insert_loop m (h2_of hash k) k (probe_sequence hash m k)"

text \<open>\<open>remove_inner\<close> and \<open>remove_if_value_inner\<close>, which differ in the test on the value found.\<close>

fun remove_loop :: "('v \<Rightarrow> bool) \<Rightarrow> ('k, 'v) concurrent_map \<Rightarrow> byte \<Rightarrow> 'k \<Rightarrow> nat list \<Rightarrow>
    'v option \<times> ('k, 'v) concurrent_map" where
  "remove_loop ok m h2 k [] = (None, m)"
| "remove_loop ok m h2 k (i # is) =
     (if cm_meta m ! i = h2 then
        (case cm_entries m ! i of
           Some (k', v) \<Rightarrow>
             if k' = k then
               (if ok v then
                  (Some v, (set_meta i meta_tombstone (set_entry i None m))\<lparr>cm_len := cm_len m - 1\<rparr>)
                else (None, m))
             else remove_loop ok m h2 k is
         | None \<Rightarrow> remove_loop ok m h2 k is)
      else if cm_meta m ! i = meta_empty then (None, m)
      else remove_loop ok m h2 k is)"

definition cm_remove :: "('k \<Rightarrow> u64) \<Rightarrow> 'k \<Rightarrow> ('k, 'v) concurrent_map \<Rightarrow>
    'v option \<times> ('k, 'v) concurrent_map" where
  "cm_remove hash k m = remove_loop (\<lambda>_. True) m (h2_of hash k) k (probe_sequence hash m k)"

definition remove_if_value :: "('k \<Rightarrow> u64) \<Rightarrow> 'k \<Rightarrow> 'v \<Rightarrow> ('k, 'v) concurrent_map \<Rightarrow>
    bool \<times> ('k, 'v) concurrent_map" where
  "remove_if_value hash k expected m =
     (case remove_loop (\<lambda>v. v = expected) m (h2_of hash k) k (probe_sequence hash m k) of
        (r, m') \<Rightarrow> (r \<noteq> None, m'))"

text \<open>The entries \<open>for_each\<close> visits, in order.\<close>

definition cm_visited :: "('k, 'v) concurrent_map \<Rightarrow> ('k \<times> 'v) list" where
  "cm_visited m = List.map_filter (\<lambda>i.
     if cm_meta m ! i = meta_empty \<or> cm_meta m ! i = meta_tombstone then None else cm_entries m ! i)
     [0..<cm_capacity m]"

record rebuild_error =
  requested_capacity :: nat
  rebuild_copied :: nat
  entry_count :: nat

fun rebuild_loop :: "('k \<Rightarrow> u64) \<Rightarrow> nat \<Rightarrow> nat \<Rightarrow> nat \<Rightarrow> ('k \<times> 'v) list \<Rightarrow> ('k, 'v) concurrent_map \<Rightarrow>
    rebuild_error + ('k, 'v) concurrent_map" where
  "rebuild_loop hash requested n i [] m = Inr m"
| "rebuild_loop hash requested n i ((k, v) # es) m =
     (case cm_insert hash k v m of
        (Full, _) \<Rightarrow> Inl \<lparr>requested_capacity = requested, rebuild_copied = i, entry_count = n\<rparr>
      | (_, m') \<Rightarrow> rebuild_loop hash requested n (i + 1) es m')"

definition rebuild_with_capacity :: "('k \<Rightarrow> u64) \<Rightarrow> nat \<Rightarrow> ('k, 'v) concurrent_map \<Rightarrow>
    rebuild_error + ('k, 'v) concurrent_map" where
  "rebuild_with_capacity hash requested m =
     (let es = cm_visited m in
      rebuild_loop hash requested (length es) 0 es
        (with_capacity_and_batch requested (cm_retire_batch_size m)))"

section \<open>Capacity and probe sequence\<close>

lemma next_power_from_ex: "\<exists>k. next_power_from n (2 ^ j) = 2 ^ k"
proof (induction n "2 ^ j :: nat" arbitrary: j rule: next_power_from.induct)
  case (1 n)
  show ?case
  proof (cases "n \<le> 2 ^ j")
    case False
    with 1 [of "Suc j"] show ?thesis by (subst next_power_from.simps) auto
  qed (subst next_power_from.simps, auto)
qed

lemma table_capacity_power: "\<exists>k. table_capacity n = 2 ^ k \<and> 3 \<le> k"
proof -
  obtain k where k: "next_power_of_two (min (max n 8 * 4) u64_max div 3) = 2 ^ k"
    using next_power_from_ex [of _ 0] by (auto simp: next_power_of_two_def)
  show ?thesis
  proof (cases "k \<le> 3")
    case True
    then have "(2 :: nat) ^ k \<le> 2 ^ 3" by (intro power_increasing) auto
    with k have "table_capacity n = 2 ^ 3" by (simp add: table_capacity_def)
    then show ?thesis by blast
  next
    case False
    then have "(2 :: nat) ^ 3 \<le> 2 ^ k" by (intro power_increasing) auto
    with k False have "table_capacity n = 2 ^ k \<and> 3 \<le> k" by (simp add: table_capacity_def)
    then show ?thesis by blast
  qed
qed

lemma and_mask_less: "n AND (2 ^ k - 1 :: nat) < 2 ^ k"
proof -
  have "n AND (2 ^ k - 1) = take_bit k n" by (simp add: take_bit_eq_mask mask_eq_exp_minus_1)
  then show ?thesis by simp
qed

lemmas and_mask_less' = and_mask_less [unfolded One_nat_def]

lemma probes_bounded:
  "i < 2 ^ k \<Longrightarrow> j \<in> set (probes limit (2 ^ k - 1) i n) \<Longrightarrow> j < 2 ^ k"
proof (induction limit "2 ^ k - 1 :: nat" i n rule: probes.induct)
  case (1 limit i n)
  then show ?case by (subst (asm) (2) probes.simps) (auto split: if_splits simp: and_mask_less and_mask_less')
qed

lemma probes_hd: "\<exists>is. probes limit m i n = i # is"
  by (subst probes.simps) blast

section \<open>Invariant\<close>

text \<open>\<open>slot_ok\<close>: a slot is free exactly when its metadata says so, and a live slot carries the signature
  of its key. \<open>reachable_slot\<close>: no empty slot lies before a live slot on the probe of its key.\<close>

definition free_meta :: "byte \<Rightarrow> bool" where
  "free_meta b \<longleftrightarrow> b = meta_empty \<or> b = meta_tombstone"

definition slot_ok :: "('k \<Rightarrow> u64) \<Rightarrow> byte \<Rightarrow> ('k \<times> 'v) option \<Rightarrow> bool" where
  "slot_ok hash b e \<longleftrightarrow> (case e of None \<Rightarrow> free_meta b | Some (k, _) \<Rightarrow> b = h2_of hash k)"

definition reachable_slot :: "('k \<Rightarrow> u64) \<Rightarrow> ('k, 'v) concurrent_map \<Rightarrow> nat \<Rightarrow> 'k \<Rightarrow> bool" where
  "reachable_slot hash m i k \<longleftrightarrow>
     (\<exists>before after. probe_sequence hash m k = before @ i # after \<and>
        (\<forall>j \<in> set before. cm_meta m ! j \<noteq> meta_empty))"

definition cm_wf :: "('k \<Rightarrow> u64) \<Rightarrow> ('k, 'v) concurrent_map \<Rightarrow> bool" where
  "cm_wf hash m \<longleftrightarrow>
     (\<exists>k \<ge> 3. cm_capacity m = 2 ^ k) \<and> cm_mask m = cm_capacity m - 1
   \<and> length (cm_meta m) = cm_capacity m \<and> length (cm_entries m) = cm_capacity m
   \<and> (\<forall>i < cm_capacity m. slot_ok hash (cm_meta m ! i) (cm_entries m ! i))
   \<and> (\<forall>i < cm_capacity m. \<forall>k v. cm_entries m ! i = Some (k, v) \<longrightarrow> reachable_slot hash m i k)
   \<and> cm_len m = length (filter (\<lambda>e. e \<noteq> None) (cm_entries m))"

definition unique_keys :: "('k, 'v) concurrent_map \<Rightarrow> bool" where
  "unique_keys m \<longleftrightarrow> (\<forall>i < cm_capacity m. \<forall>j < cm_capacity m. \<forall>k v w.
     cm_entries m ! i = Some (k, v) \<longrightarrow> cm_entries m ! j = Some (k, w) \<longrightarrow> i = j)"

lemma h2_not_free [simp]: "\<not> free_meta (h2_of hash k)"
proof -
  have "\<not> bit (h2_of hash k) 7" by (simp add: h2_of_def h2_mask_def bit_and_iff)
  moreover have "bit meta_empty 7" "bit meta_tombstone 7"
    by (simp_all add: meta_empty_def meta_tombstone_def)
  ultimately show ?thesis by (auto simp: free_meta_def)
qed

lemma h2_neq [simp]: "h2_of hash k \<noteq> meta_empty" "h2_of hash k \<noteq> meta_tombstone"
  "meta_empty \<noteq> h2_of hash k" "meta_tombstone \<noteq> h2_of hash k"
  using h2_not_free [of hash k] by (auto simp: free_meta_def)

lemma probe_sequence_bounded:
  assumes "cm_wf hash m" and "i \<in> set (probe_sequence hash m k)"
  shows "i < cm_capacity m"
proof -
  from assms(1) obtain e where "cm_capacity m = 2 ^ e" "cm_mask m = 2 ^ e - 1"
    by (auto simp: cm_wf_def)
  with assms(2) probes_bounded [of "h1_of hash m k" e] show ?thesis
    by (auto simp: probe_sequence_def h1_of_def and_mask_less and_mask_less')
qed

lemma cm_wf_slot: "cm_wf hash m \<Longrightarrow> i < cm_capacity m \<Longrightarrow> slot_ok hash (cm_meta m ! i) (cm_entries m ! i)"
  by (simp add: cm_wf_def)

lemma cm_wf_reach:
  "cm_wf hash m \<Longrightarrow> i < cm_capacity m \<Longrightarrow> cm_entries m ! i = Some (k, v) \<Longrightarrow> reachable_slot hash m i k"
  unfolding cm_wf_def by blast

lemma cm_wf_lengths: "cm_wf hash m \<Longrightarrow> length (cm_meta m) = cm_capacity m \<and> length (cm_entries m) = cm_capacity m"
  by (simp add: cm_wf_def)

lemma cm_wf_with_capacity: "cm_wf hash (with_capacity_and_batch n b) \<and> unique_keys (with_capacity_and_batch n b)"
proof -
  obtain k where "table_capacity n = 2 ^ k" "3 \<le> k" using table_capacity_power by blast
  then show ?thesis
    by (auto simp: cm_wf_def with_capacity_and_batch_def Let_def slot_ok_def free_meta_def unique_keys_def)
qed

section \<open>Lookup\<close>

text \<open>The first slot of the probe that holds the key: with the invariant, the early stop at an empty
  slot loses nothing.\<close>

fun first_value :: "('k, 'v) concurrent_map \<Rightarrow> 'k \<Rightarrow> nat list \<Rightarrow> 'v option" where
  "first_value m k [] = None"
| "first_value m k (i # is) =
     (case cm_entries m ! i of
        Some (k', v) \<Rightarrow> if k' = k then Some v else first_value m k is
      | None \<Rightarrow> first_value m k is)"

lemma first_value_None: "first_value m k is = None \<longleftrightarrow> (\<forall>i \<in> set is. \<forall>v. cm_entries m ! i \<noteq> Some (k, v))"
  by (induction "is") (auto split: option.splits)

lemma first_value_append:
  "\<forall>i \<in> set before. \<forall>v. cm_entries m ! i \<noteq> Some (k, v) \<Longrightarrow> first_value m k (before @ is) = first_value m k is"
  by (induction before) (auto split: option.splits)

lemma empty_before_none:
  assumes wf: "cm_wf hash m" and ps: "probe_sequence hash m k = before @ i # after"
    and e: "cm_meta m ! i = meta_empty" and b: "\<forall>j \<in> set before. \<forall>v. cm_entries m ! j \<noteq> Some (k, v)"
    and j: "j < cm_capacity m"
  shows "cm_entries m ! j \<noteq> Some (k, v)"
proof
  assume en: "cm_entries m ! j = Some (k, v)"
  from cm_wf_reach [OF wf j en] obtain b' a' where
    ps': "probe_sequence hash m k = b' @ j # a'" and nb: "\<forall>l \<in> set b'. cm_meta m ! l \<noteq> meta_empty"
    by (auto simp: reachable_slot_def)
  have "i \<noteq> j" using e en cm_wf_slot [OF wf j] by (auto simp: slot_ok_def)
  from ps ps' have "before @ i # after = b' @ j # a'" by simp
  then consider (l) us where "before = b' @ us" "us @ i # after = j # a'"
    | (g) us where "before @ us = b'" "i # after = us @ j # a'"
    by (auto simp: append_eq_append_conv2)
  then show False
  proof cases
    case l
    then have "j \<in> set before" using \<open>i \<noteq> j\<close> by (cases us) auto
    with b en show False by blast
  next
    case g
    then have "i \<in> set b'" using \<open>i \<noteq> j\<close> by (cases us) auto
    with nb e show False by blast
  qed
qed

lemma get_loop_first_value:
  assumes wf: "cm_wf hash m"
  shows "probe_sequence hash m k = before @ is \<Longrightarrow>
    \<forall>j \<in> set before. \<forall>v. cm_entries m ! j \<noteq> Some (k, v) \<Longrightarrow>
    get_loop m (h2_of hash k) k is = first_value m k is"
proof (induction "is" arbitrary: before)
  case (Cons i "is")
  have i: "i < cm_capacity m" by (rule probe_sequence_bounded [OF wf, of _ k]) (simp add: Cons.prems(1))
  note ok = cm_wf_slot [OF wf i]
  show ?case
  proof (cases "\<exists>v. cm_entries m ! i = Some (k, v)")
    case True
    then show ?thesis using ok by (auto simp: slot_ok_def)
  next
    case False
    show ?thesis
    proof (cases "cm_meta m ! i = meta_empty")
      case True
      have "first_value m k (i # is) = None"
        unfolding first_value_None
        using empty_before_none [OF wf Cons.prems(1) True Cons.prems(2)]
          probe_sequence_bounded [OF wf, of _ k] by (simp add: Cons.prems(1))
      then show ?thesis using True by simp
    next
      case ne: False
      have "get_loop m (h2_of hash k) k is = first_value m k is"
        by (rule Cons.IH [of "before @ [i]"]) (use Cons.prems False in \<open>simp_all add: ball_Un\<close>)
      with ne False show ?thesis by (cases "cm_entries m ! i") auto
    qed
  qed
qed simp

lemma cm_get_first_value:
  assumes "cm_wf hash m"
  shows "cm_get hash m k = first_value m k (probe_sequence hash m k)"
  unfolding cm_get_def by (rule get_loop_first_value [OF assms, of k "[]"]) simp_all

lemma cm_get_None:
  assumes "cm_wf hash m"
  shows "cm_get hash m k = None \<longleftrightarrow> (\<forall>i < cm_capacity m. \<forall>v. cm_entries m ! i \<noteq> Some (k, v))"
proof -
  have "i \<in> set (probe_sequence hash m k)" if "i < cm_capacity m" "cm_entries m ! i = Some (k, v)" for i v
    using cm_wf_reach [OF assms that] by (auto simp: reachable_slot_def)
  then show ?thesis
    unfolding cm_get_first_value [OF assms] first_value_None
    using probe_sequence_bounded [OF assms] by blast
qed

lemma first_value_SomeD: "first_value m k is = Some v \<Longrightarrow> \<exists>i \<in> set is. cm_entries m ! i = Some (k, v)"
  by (induction "is") (auto split: option.splits if_splits)

lemma cm_get_SomeD:
  assumes "cm_wf hash m" and "cm_get hash m k = Some v"
  shows "\<exists>i < cm_capacity m. cm_entries m ! i = Some (k, v)"
  using first_value_SomeD [OF assms(2) [unfolded cm_get_first_value [OF assms(1)]]]
    probe_sequence_bounded [OF assms(1)] by blast

lemma cm_get_Some_iff:
  assumes "cm_wf hash m" and "unique_keys m"
  shows "cm_get hash m k = Some v \<longleftrightarrow> (\<exists>i < cm_capacity m. cm_entries m ! i = Some (k, v))"
proof
  assume "\<exists>i < cm_capacity m. cm_entries m ! i = Some (k, v)"
  then obtain i where i: "i < cm_capacity m" "cm_entries m ! i = Some (k, v)" by blast
  then obtain w where w: "cm_get hash m k = Some w"
    using cm_get_None [OF assms(1), of k] by (cases "cm_get hash m k") auto
  from cm_get_SomeD [OF assms(1) w] i assms(2) show "cm_get hash m k = Some v"
    unfolding unique_keys_def w by (metis option.inject prod.inject)
qed (rule cm_get_SomeD [OF assms(1)])

section \<open>Insertion\<close>

definition blocked :: "('k, 'v) concurrent_map \<Rightarrow> 'k \<Rightarrow> nat list \<Rightarrow> bool" where
  "blocked m k is \<longleftrightarrow> (\<forall>j \<in> set is. \<exists>k' w. cm_entries m ! j = Some (k', w) \<and> k' \<noteq> k)"

definition place :: "('k \<Rightarrow> u64) \<Rightarrow> nat \<Rightarrow> 'k \<Rightarrow> 'v \<Rightarrow> ('k, 'v) concurrent_map \<Rightarrow> ('k, 'v) concurrent_map" where
  "place hash i k v m = m\<lparr>cm_meta := (cm_meta m)[i := h2_of hash k],
     cm_entries := (cm_entries m)[i := Some (k, v)],
     cm_len := cm_len m + (if cm_entries m ! i = None then 1 else 0)\<rparr>"

lemma insert_loop_spec:
  assumes "\<forall>i \<in> set is. i < length (cm_meta m) \<and> slot_ok hash (cm_meta m ! i) (cm_entries m ! i)"
  obtains (replaced) b i a old where "is = b @ i # a" "blocked m k b" "cm_entries m ! i = Some (k, old)"
      "insert_loop m (h2_of hash k) k v is = ((Replaced, Some old), place hash i k v m)"
  | (inserted) b i a where "is = b @ i # a" "blocked m k b" "cm_entries m ! i = None"
      "insert_loop m (h2_of hash k) k v is = ((Inserted, None), place hash i k v m)"
  | (full) "blocked m k is" "insert_loop m (h2_of hash k) k v is = ((Full, None), m)"
  using assms
proof (induction "is" arbitrary: thesis)
  case Nil
  then show ?case by (simp add: blocked_def)
next
  case (Cons i "is")
  note ok = Cons.prems(4) [simplified]
  consider (hit) old where "cm_entries m ! i = Some (k, old)" | (free) "cm_entries m ! i = None"
    | (other) k' w where "cm_entries m ! i = Some (k', w)" "k' \<noteq> k" by (metis option.exhaust surj_pair)
  then show ?case
  proof cases
    case hit
    then have mt: "cm_meta m ! i = h2_of hash k" using ok by (simp add: slot_ok_def)
    then have "(cm_meta m)[i := h2_of hash k] = cm_meta m" by (metis list_update_id)
    then have "set_entry i (Some (k, v)) m = place hash i k v m"
      using hit by (simp add: set_entry_def place_def)
    with Cons.prems(1) [of "[]" i "is" old] hit mt show ?thesis by (simp add: blocked_def)
  next
    case free
    then have "cm_meta m ! i = meta_empty \<or> cm_meta m ! i = meta_tombstone"
      using ok by (simp add: slot_ok_def free_meta_def)
    moreover have "(set_meta i (h2_of hash k) (set_entry i (Some (k, v)) m))\<lparr>cm_len := cm_len m + 1\<rparr> = place hash i k v m"
      using free by (simp add: set_entry_def set_meta_def place_def)
    ultimately show ?thesis using Cons.prems(2) [of "[]" i "is"] free by (auto simp: blocked_def)
  next
    case other
    then have "cm_meta m ! i = h2_of hash k'" using ok by (simp add: slot_ok_def)
    with other have step: "insert_loop m (h2_of hash k) k v (i # is) = insert_loop m (h2_of hash k) k v is" by simp
    have bl: "blocked m k (i # b) = blocked m k b" for b using other by (auto simp: blocked_def)
    show ?thesis
    proof (rule Cons.IH)
      show thesis if "is = b @ j # a" "blocked m k b" "cm_entries m ! j = Some (k, old)"
        "insert_loop m (h2_of hash k) k v is = ((Replaced, Some old), place hash j k v m)" for b j a old
        by (rule Cons.prems(1) [of "i # b" j a old]) (use that step bl in simp_all)
      show thesis if "is = b @ j # a" "blocked m k b" "cm_entries m ! j = None"
        "insert_loop m (h2_of hash k) k v is = ((Inserted, None), place hash j k v m)" for b j a
        by (rule Cons.prems(2) [of "i # b" j a]) (use that step bl in simp_all)
      show thesis if "blocked m k is" "insert_loop m (h2_of hash k) k v is = ((Full, None), m)"
        by (rule Cons.prems(3)) (use that step bl in simp_all)
    qed (use ok in simp)
  qed
qed

lemma length_filter_update:
  "i < length xs \<Longrightarrow> length (filter P (xs[i := y])) + (if P (xs ! i) then 1 else 0)
     = length (filter P xs) + (if P y then 1 else 0)"
proof (induction xs arbitrary: i)
  case (Cons x xs)
  show ?case
  proof (cases i)
    case (Suc n)
    with Cons.prems Cons.IH [of n] show ?thesis by simp
  qed simp
qed simp

lemma nth_update_if: "xs[i := x] ! j = (if i = j \<and> j < length xs then x else xs ! j)"
  by (cases "i < length xs") (auto simp: nth_list_update list_update_beyond)

lemma probe_sequence_place [simp]: "probe_sequence hash' (place hash i k v m) = probe_sequence hash' m"
  by (simp add: fun_eq_iff probe_sequence_def place_def h1_of_def)

lemma place_sel [simp]: "cm_capacity (place hash i k v m) = cm_capacity m"
  "cm_entries (place hash i k v m) = (cm_entries m)[i := Some (k, v)]"
  "cm_meta (place hash i k v m) = (cm_meta m)[i := h2_of hash k]"
  "cm_mask (place hash i k v m) = cm_mask m" "cm_probe_limit (place hash i k v m) = cm_probe_limit m"
  by (simp_all add: place_def)

lemma reachable_place:
  assumes "reachable_slot hash m j k'"
  shows "reachable_slot hash (place hash i k v m) j k'"
proof -
  have "(cm_meta m)[i := h2_of hash k] ! l \<noteq> meta_empty" if "cm_meta m ! l \<noteq> meta_empty" for l
    using that by (cases "i = l \<and> l < length (cm_meta m)") (auto simp: nth_update_if)
  with assms show ?thesis by (auto simp: reachable_slot_def)
qed

lemma cm_wf_place:
  assumes wf: "cm_wf hash m" and ps: "probe_sequence hash m k = b @ i # a" and bl: "blocked m k b"
    and e: "cm_entries m ! i = None \<or> (\<exists>old. cm_entries m ! i = Some (k, old))"
  shows "cm_wf hash (place hash i k v m)"
proof -
  have i: "i < cm_capacity m" by (rule probe_sequence_bounded [OF wf, of _ k]) (simp add: ps)
  note l = cm_wf_lengths [OF wf]
  have "cm_meta m ! j \<noteq> meta_empty" if j: "j \<in> set b" for j
  proof -
    from j bl obtain k' w where "cm_entries m ! j = Some (k', w)" by (auto simp: blocked_def)
    moreover have "j < cm_capacity m" by (rule probe_sequence_bounded [OF wf, of _ k]) (simp add: ps j)
    ultimately have "cm_meta m ! j = h2_of hash k'" using cm_wf_slot [OF wf, of j] by (simp add: slot_ok_def)
    then show ?thesis by simp
  qed
  then have new: "reachable_slot hash m i k" using ps by (auto simp: reachable_slot_def)
  have "reachable_slot hash (place hash i k v m) j k'"
    if "j < cm_capacity m" "(cm_entries m)[i := Some (k, v)] ! j = Some (k', w)" for j k' w
    using that new cm_wf_reach [OF wf] i l by (intro reachable_place) (auto simp: nth_list_update split: if_splits)
  moreover have "slot_ok hash ((cm_meta m)[i := h2_of hash k] ! j) ((cm_entries m)[i := Some (k, v)] ! j)"
    if "j < cm_capacity m" for j
    using that cm_wf_slot [OF wf that] i l by (auto simp: nth_list_update slot_ok_def)
  moreover have "cm_len (place hash i k v m) = length (filter (\<lambda>e. e \<noteq> None) ((cm_entries m)[i := Some (k, v)]))"
    using length_filter_update [of i "cm_entries m" "\<lambda>e. e \<noteq> None" "Some (k, v)"] i l wf e
    by (auto simp: place_def cm_wf_def)
  ultimately show ?thesis using wf unfolding cm_wf_def by auto
qed

lemma first_value_place_other:
  assumes "k' \<noteq> k" and "cm_entries m ! i = None \<or> (\<exists>old. cm_entries m ! i = Some (k, old))"
    and "i < length (cm_entries m)"
  shows "first_value (place hash i k v m) k' is = first_value m k' is"
  using assms by (induction "is") (auto simp: nth_list_update split: option.splits)

lemma cm_get_place:
  assumes wf: "cm_wf hash m" and ps: "probe_sequence hash m k = b @ i # a" and bl: "blocked m k b"
    and e: "cm_entries m ! i = None \<or> (\<exists>old. cm_entries m ! i = Some (k, old))"
  shows "cm_get hash (place hash i k v m) = (cm_get hash m)(k \<mapsto> v)"
proof
  fix k'
  have i: "i < length (cm_entries m)"
    using probe_sequence_bounded [OF wf, of i k] cm_wf_lengths [OF wf] by (simp add: ps)
  note g = cm_get_first_value [OF cm_wf_place [OF assms, of v], simplified]
  show "cm_get hash (place hash i k v m) k' = ((cm_get hash m)(k \<mapsto> v)) k'"
  proof (cases "k' = k")
    case True
    have "i \<notin> set b" using bl e by (auto simp: blocked_def)
    then have "first_value (place hash i k v m) k (b @ i # a) = first_value (place hash i k v m) k (i # a)"
      using bl by (intro first_value_append) (auto simp: blocked_def nth_update_if)
    with True i show ?thesis by (simp add: g ps)
  next
    case False
    then show ?thesis using first_value_place_other [OF False e i] by (simp add: g cm_get_first_value [OF wf])
  qed
qed

lemma insert_cases:
  assumes "cm_wf hash m"
  obtains (replaced) b i a old where "probe_sequence hash m k = b @ i # a" "blocked m k b"
      "cm_entries m ! i = Some (k, old)" "insert_inner hash k v m = ((Replaced, Some old), place hash i k v m)"
  | (inserted) b i a where "probe_sequence hash m k = b @ i # a" "blocked m k b" "cm_entries m ! i = None"
      "insert_inner hash k v m = ((Inserted, None), place hash i k v m)"
  | (full) "blocked m k (probe_sequence hash m k)" "insert_inner hash k v m = ((Full, None), m)"
proof -
  have "\<forall>i \<in> set (probe_sequence hash m k). i < length (cm_meta m) \<and> slot_ok hash (cm_meta m ! i) (cm_entries m ! i)"
    using probe_sequence_bounded [OF assms] cm_wf_slot [OF assms] cm_wf_lengths [OF assms] by simp
  then show ?thesis
    by (cases rule: insert_loop_spec [of "probe_sequence hash m k" m hash k v])
      (auto simp: insert_inner_def intro: replaced inserted full)
qed

lemma first_value_blocked: "blocked m k b \<Longrightarrow> first_value m k (b @ is) = first_value m k is"
  by (rule first_value_append) (auto simp: blocked_def)

lemma insert_inner_effect:
  assumes wf: "cm_wf hash m" and ins: "insert_inner hash k v m = ((r, old), m')"
  shows "cm_wf hash m'" and "cm_get hash m' = (if r = Full then cm_get hash m else (cm_get hash m)(k \<mapsto> v))"
    and "r = Full \<Longrightarrow> m' = m" and "r = Replaced \<Longrightarrow> old = cm_get hash m k \<and> old \<noteq> None"
    and "r = Full \<Longrightarrow> cm_get hash m k = None" and "cm_len m' = cm_len m + (if r = Inserted then 1 else 0)"
proof -
  show "cm_wf hash m'"
    by (cases rule: insert_cases [OF wf, of k v]) (use ins wf in \<open>auto intro: cm_wf_place\<close>)
  show "cm_get hash m' = (if r = Full then cm_get hash m else (cm_get hash m)(k \<mapsto> v))"
    by (cases rule: insert_cases [OF wf, of k v]) (use ins wf in \<open>auto simp: cm_get_place\<close>)
  show "r = Full \<Longrightarrow> m' = m"
    by (cases rule: insert_cases [OF wf, of k v]) (use ins in auto)
  show "r = Replaced \<Longrightarrow> old = cm_get hash m k \<and> old \<noteq> None"
    by (cases rule: insert_cases [OF wf, of k v])
      (use ins in \<open>auto simp: cm_get_first_value [OF wf] first_value_blocked\<close>)
  show "r = Full \<Longrightarrow> cm_get hash m k = None"
    by (cases rule: insert_cases [OF wf, of k v])
      (use ins first_value_blocked [of m k _ "[]"] in \<open>auto simp: cm_get_first_value [OF wf]\<close>)
  show "cm_len m' = cm_len m + (if r = Inserted then 1 else 0)"
    by (cases rule: insert_cases [OF wf, of k v]) (use ins in \<open>auto simp: place_def\<close>)
qed

lemma can_insert_loop_iff: "can_insert_loop m h2 k is \<longleftrightarrow> fst (fst (insert_loop m h2 k v is)) \<noteq> Full"
  by (induction "is") (auto split: option.splits)

lemma can_insert_iff: "can_insert_or_replace hash k m \<longleftrightarrow> fst (cm_insert hash k v m) \<noteq> Full"
  by (simp add: can_insert_or_replace_def can_insert_loop_iff cm_insert_def insert_inner_def)

section \<open>Removal\<close>

definition erase :: "nat \<Rightarrow> ('k, 'v) concurrent_map \<Rightarrow> ('k, 'v) concurrent_map" where
  "erase i m = (set_meta i meta_tombstone (set_entry i None m))\<lparr>cm_len := cm_len m - 1\<rparr>"

lemma remove_loop_spec:
  assumes "cm_wf hash m"
  shows "probe_sequence hash m k = before @ is \<Longrightarrow>
     \<forall>j \<in> set before. \<forall>v. cm_entries m ! j \<noteq> Some (k, v) \<Longrightarrow>
     (case first_value m k is of
        None \<Rightarrow> remove_loop ok m (h2_of hash k) k is = (None, m)
      | Some v \<Rightarrow> if ok v then \<exists>i \<in> set is. cm_entries m ! i = Some (k, v) \<and>
            remove_loop ok m (h2_of hash k) k is = (Some v, erase i m)
          else remove_loop ok m (h2_of hash k) k is = (None, m))"
proof (induction "is" arbitrary: before)
  case (Cons i "is")
  have i: "i < cm_capacity m" by (rule probe_sequence_bounded [OF assms, of _ k]) (simp add: Cons.prems(1))
  note slot = cm_wf_slot [OF assms i]
  show ?case
  proof (cases "\<exists>v. cm_entries m ! i = Some (k, v)")
    case True
    then show ?thesis using slot by (auto simp: slot_ok_def erase_def)
  next
    case False
    show ?thesis
    proof (cases "cm_meta m ! i = meta_empty")
      case True
      have "first_value m k (i # is) = None"
        unfolding first_value_None
        using empty_before_none [OF assms Cons.prems(1) True Cons.prems(2)]
          probe_sequence_bounded [OF assms, of _ k] by (simp add: Cons.prems(1))
      then show ?thesis using True by (simp del: first_value.simps)
    next
      case ne: False
      note ih = Cons.IH [of "before @ [i]", simplified, OF Cons.prems(1)]
      have "first_value m k (i # is) = first_value m k is"
        "remove_loop ok m (h2_of hash k) k (i # is) = remove_loop ok m (h2_of hash k) k is"
        using ne False by (auto split: option.splits)
      with ih False Cons.prems(2) show ?thesis
        by (auto simp del: first_value.simps remove_loop.simps split: option.splits)
    qed
  qed
qed simp

lemma erase_sel [simp]: "cm_capacity (erase i m) = cm_capacity m"
  "cm_entries (erase i m) = (cm_entries m)[i := None]" "cm_meta (erase i m) = (cm_meta m)[i := meta_tombstone]"
  "cm_mask (erase i m) = cm_mask m" "cm_len (erase i m) = cm_len m - 1"
  "probe_sequence hash (erase i m) = probe_sequence hash m"
  by (simp_all add: erase_def set_meta_def set_entry_def fun_eq_iff probe_sequence_def h1_of_def)

lemma tombstone_not_empty [simp]: "meta_tombstone \<noteq> meta_empty" "meta_empty \<noteq> meta_tombstone"
  by (simp_all add: meta_tombstone_def meta_empty_def)

lemma cm_wf_erase:
  assumes wf: "cm_wf hash m" and i: "i < cm_capacity m" and e: "cm_entries m ! i = Some (k, v)"
  shows "cm_wf hash (erase i m)"
proof -
  note l = cm_wf_lengths [OF wf]
  have "(cm_meta m)[i := meta_tombstone] ! j \<noteq> meta_empty" if "cm_meta m ! j \<noteq> meta_empty" for j
    using that by (simp add: nth_update_if)
  then have r: "reachable_slot hash (erase i m) j k'" if "reachable_slot hash m j k'" for j k'
    using that by (auto simp: reachable_slot_def)
  have "reachable_slot hash (erase i m) j k'"
    if "j < cm_capacity m" "(cm_entries m)[i := None] ! j = Some (k', w)" for j k' w
    using that cm_wf_reach [OF wf that(1)] by (intro r) (auto simp: nth_update_if split: if_splits)
  moreover have "slot_ok hash ((cm_meta m)[i := meta_tombstone] ! j) ((cm_entries m)[i := None] ! j)"
    if "j < cm_capacity m" for j
    using that cm_wf_slot [OF wf that] i l by (auto simp: nth_list_update slot_ok_def free_meta_def)
  moreover have "cm_len m - 1 = length (filter (\<lambda>e. e \<noteq> None) ((cm_entries m)[i := None]))"
    using length_filter_update [of i "cm_entries m" "\<lambda>e. e \<noteq> None" "None"] i l wf e
    by (auto simp: cm_wf_def)
  ultimately show ?thesis using wf unfolding cm_wf_def by auto
qed

lemma remove_effect:
  assumes wf: "cm_wf hash m" and uk: "unique_keys m"
    and rem: "remove_loop ok m (h2_of hash k) k (probe_sequence hash m k) = (r, m')"
  shows "cm_wf hash m' \<and> unique_keys m' \<and>
    r = (case cm_get hash m k of None \<Rightarrow> None | Some v \<Rightarrow> if ok v then Some v else None) \<and>
    cm_get hash m' = (if r = None then cm_get hash m else (cm_get hash m)(k := None))"
proof (cases "r = None")
  case True
  with remove_loop_spec [OF wf, of k "[]" "probe_sequence hash m k" ok] rem wf uk show ?thesis
    by (auto simp: cm_get_first_value [OF wf] split: option.splits if_splits)
next
  case False
  then obtain v i where r: "r = Some v" "cm_get hash m k = Some v" "ok v" "cm_entries m ! i = Some (k, v)"
    "m' = erase i m" and i: "i < cm_capacity m"
    using remove_loop_spec [OF wf, of k "[]" "probe_sequence hash m k" ok] rem probe_sequence_bounded [OF wf]
    by (fastforce simp: cm_get_first_value [OF wf] split: option.splits if_splits)
  note l = cm_wf_lengths [OF wf]
  note wf' = cm_wf_erase [OF wf i r(4)]
  have uk': "unique_keys (erase i m)"
    using uk unfolding unique_keys_def by (auto simp: nth_update_if split: if_splits)
  have "cm_get hash (erase i m) k' = Some w \<longleftrightarrow> ((cm_get hash m)(k := None)) k' = Some w" for k' w
  proof (cases "k' = k")
    case True
    have "\<not> (\<exists>j < cm_capacity m. (cm_entries m)[i := None] ! j = Some (k, w))"
      using uk i r(4) l unfolding unique_keys_def by (auto simp: nth_update_if split: if_splits)
    with True show ?thesis by (simp add: cm_get_Some_iff [OF wf' uk'])
  next
    case False
    then have "(cm_entries m)[i := None] ! j = Some (k', w) \<longleftrightarrow> cm_entries m ! j = Some (k', w)" for j
      using r(4) by (auto simp: nth_update_if)
    with False show ?thesis by (simp add: cm_get_Some_iff [OF wf' uk'] cm_get_Some_iff [OF wf uk])
  qed
  then have "cm_get hash (erase i m) = (cm_get hash m)(k := None)"
    by (intro ext option.expand) (metis not_Some_eq, metis option.sel not_Some_eq)
  with r wf' uk' show ?thesis by simp
qed

section \<open>Enumeration\<close>

lemma set_map_filter: "set (List.map_filter f xs) = {y. \<exists>x \<in> set xs. f x = Some y}"
  by (induction xs) (auto simp: List.map_filter_def)

lemma distinct_map_filter:
  assumes "distinct xs"
    and "\<And>i j k v w. i \<in> set xs \<Longrightarrow> j \<in> set xs \<Longrightarrow> f i = Some (k, v) \<Longrightarrow> f j = Some (k, w) \<Longrightarrow> i = j"
  shows "distinct (map fst (List.map_filter f xs))"
  using assms
proof (induction xs)
  case Nil
  then show ?case by (simp add: List.map_filter_def)
next
  case (Cons i xs)
  from Cons.prems have ih: "distinct (map fst (List.map_filter f xs))" by (intro Cons.IH) auto
  show ?case
  proof (cases "f i")
    case None
    with ih show ?thesis by (simp add: List.map_filter_def)
  next
    case (Some kv)
    then obtain k v where kv: "f i = Some (k, v)" by (cases kv) auto
    have "k \<notin> fst ` set (List.map_filter f xs)"
      using Cons.prems(1) Cons.prems(2) [OF _ _ kv] by (force simp: set_map_filter)
    with ih kv show ?thesis by (simp add: map_filter_simps)
  qed
qed

lemma map_filter_cong:
  "xs = ys \<Longrightarrow> (\<And>x. x \<in> set ys \<Longrightarrow> f x = g x) \<Longrightarrow> List.map_filter f xs = List.map_filter g ys"
  by (induction xs arbitrary: ys) (auto simp: List.map_filter_def)

lemma length_map_filter_nth:
  "n = length xs \<Longrightarrow> length (List.map_filter (\<lambda>i. xs ! i) [0..<n]) = length (filter (\<lambda>e. e \<noteq> None) xs)"
proof (induction xs arbitrary: n rule: rev_induct)
  case (snoc x xs)
  have "List.map_filter (\<lambda>i. (xs @ [x]) ! i) [0..<length xs] = List.map_filter (\<lambda>i. xs ! i) [0..<length xs]"
    by (intro map_filter_cong) (simp_all add: nth_append)
  with snoc show ?case by (auto simp: List.map_filter_def nth_append)
qed (simp add: List.map_filter_def)

lemma cm_visited_entries:
  assumes "cm_wf hash m"
  shows "cm_visited m = List.map_filter (\<lambda>i. cm_entries m ! i) [0..<cm_capacity m]"
proof -
  have "(if cm_meta m ! i = meta_empty \<or> cm_meta m ! i = meta_tombstone then None else cm_entries m ! i)
      = cm_entries m ! i" if "i < cm_capacity m" for i
    using cm_wf_slot [OF assms that] by (auto simp: slot_ok_def split: option.splits)
  then show ?thesis
    unfolding cm_visited_def by (intro map_filter_cong) simp_all
qed

lemma cm_visited_length: "cm_wf hash m \<Longrightarrow> length (cm_visited m) = cm_len m"
  using length_map_filter_nth [of "cm_capacity m" "cm_entries m"]
  by (metis cm_visited_entries cm_wf_def)

lemma cm_visited_map_of:
  assumes "cm_wf hash m" and "unique_keys m"
  shows "distinct (map fst (cm_visited m))" and "map_of (cm_visited m) = cm_get hash m"
proof -
  show d: "distinct (map fst (cm_visited m))"
    unfolding cm_visited_entries [OF assms(1)]
    by (rule distinct_map_filter) (use assms(2) in \<open>auto simp: unique_keys_def\<close>)
  have "map_of (cm_visited m) k = Some v \<longleftrightarrow> cm_get hash m k = Some v" for k v
    unfolding map_of_eq_Some_iff [OF d] cm_get_Some_iff [OF assms]
    by (auto simp: set_map_filter cm_visited_entries [OF assms(1)])
  then show "map_of (cm_visited m) = cm_get hash m"
    by (intro ext option.expand) (metis not_Some_eq, metis option.sel not_Some_eq)
qed

section \<open>The contract of a table\<close>

text \<open>What the store relies on: lookup after insert, the capacity test, and the enumeration. It holds of
  tables without tombstones, which is how the store uses them (it marks deletions in the values).\<close>

locale kv_table =
  fixes inv :: "'t \<Rightarrow> bool"
    and lookup :: "'t \<Rightarrow> 'k \<Rightarrow> 'v option"
    and ins :: "'k \<Rightarrow> 'v \<Rightarrow> 't \<Rightarrow> insert_outcome \<times> 't"
    and fits :: "'k \<Rightarrow> 't \<Rightarrow> bool"
    and elems :: "'t \<Rightarrow> ('k \<times> 'v) list"
    and size_of :: "'t \<Rightarrow> nat"
  assumes ins_inv: "inv t \<Longrightarrow> inv (snd (ins k v t))"
    and ins_lookup: "inv t \<Longrightarrow> fst (ins k v t) \<noteq> Full \<Longrightarrow> lookup (snd (ins k v t)) = (lookup t)(k \<mapsto> v)"
    and ins_full: "inv t \<Longrightarrow> fst (ins k v t) = Full \<Longrightarrow> snd (ins k v t) = t"
    and ins_replaced: "inv t \<Longrightarrow> fst (ins k v t) \<noteq> Full \<Longrightarrow> fst (ins k v t) = Replaced \<longleftrightarrow> lookup t k \<noteq> None"
    and fits_iff: "inv t \<Longrightarrow> fits k t \<longleftrightarrow> fst (ins k v t) \<noteq> Full"
    and elems_distinct: "inv t \<Longrightarrow> distinct (map fst (elems t))"
    and elems_lookup: "inv t \<Longrightarrow> map_of (elems t) = lookup t"
    and size_elems: "inv t \<Longrightarrow> size_of t = length (elems t)"
begin

lemma size_card: "inv t \<Longrightarrow> size_of t = card (dom (lookup t))"
  using elems_distinct [of t] elems_lookup [of t] size_elems [of t]
  by (metis card_length distinct_card dom_map_of_conv_image_fst length_map list.set_map)

lemma elems_finite: "inv t \<Longrightarrow> finite (dom (lookup t))"
  by (metis elems_lookup finite_dom_map_of)

lemma lookup_replaced_fits: "inv t \<Longrightarrow> lookup t k \<noteq> None \<Longrightarrow> size_of (snd (ins k v t)) = size_of t"
  using ins_lookup [of t k v] ins_full [of t k v] size_card [of t] size_card [OF ins_inv, of t k v]
  by (cases "fst (ins k v t) = Full") (auto simp: insert_absorb domIff)

lemma size_inserted: "inv t \<Longrightarrow> lookup t k = None \<Longrightarrow> fits k t \<Longrightarrow> size_of (snd (ins k v t)) = Suc (size_of t)"
  using ins_lookup [of t k v] fits_iff [of t k v] size_card [of t] size_card [OF ins_inv, of t k v] elems_finite [of t]
  by (simp add: domIff)

lemma ins_pair_lookup:
  "inv t \<Longrightarrow> ins k v t = (r, t') \<Longrightarrow> inv t' \<and> lookup t' = (if r = Full then lookup t else (lookup t)(k \<mapsto> v))"
  using ins_inv [of t k v] ins_lookup [of t k v] ins_full [of t k v] by auto

end

definition no_tombstones :: "('k, 'v) concurrent_map \<Rightarrow> bool" where
  "no_tombstones m \<longleftrightarrow> (\<forall>i < cm_capacity m. cm_meta m ! i \<noteq> meta_tombstone)"

definition insert_only :: "('k \<Rightarrow> u64) \<Rightarrow> ('k, 'v) concurrent_map \<Rightarrow> bool" where
  "insert_only hash m \<longleftrightarrow> cm_wf hash m \<and> unique_keys m \<and> no_tombstones m"

lemma insert_only_new: "insert_only hash (with_capacity_and_batch n b)"
  using cm_wf_with_capacity [of hash n b]
  by (auto simp: insert_only_def no_tombstones_def with_capacity_and_batch_def Let_def)

lemma no_tombstones_place:
  "no_tombstones m \<Longrightarrow> no_tombstones (place hash i k v m)"
  by (auto simp: no_tombstones_def nth_update_if)

lemma unique_keys_place:
  assumes wf: "cm_wf hash m" and uk: "unique_keys m" and nt: "no_tombstones m"
    and ps: "probe_sequence hash m k = b @ i # a" and bl: "blocked m k b"
    and e: "cm_entries m ! i = None \<or> (\<exists>old. cm_entries m ! i = Some (k, old))"
  shows "unique_keys (place hash i k v m)"
proof -
  have i: "i < cm_capacity m" by (rule probe_sequence_bounded [OF wf, of _ k]) (simp add: ps)
  have only: "j = i" if "cm_entries m ! j = Some (k, w)" "j < cm_capacity m" for j w
  proof (cases "cm_entries m ! i")
    case None
    with cm_wf_slot [OF wf i] nt i have "cm_meta m ! i = meta_empty"
      by (auto simp: slot_ok_def free_meta_def no_tombstones_def)
    moreover have "\<forall>j \<in> set b. \<forall>v. cm_entries m ! j \<noteq> Some (k, v)" using bl by (auto simp: blocked_def)
    ultimately show ?thesis using empty_before_none [OF wf ps _ _ that(2)] that(1) by blast
  next
    case (Some kv)
    with e uk i that show ?thesis by (auto simp: unique_keys_def)
  qed
  show ?thesis
    unfolding unique_keys_def
  proof (intro allI impI)
    fix j l k' w w'
    assume j: "j < cm_capacity (place hash i k v m)" and l: "l < cm_capacity (place hash i k v m)"
      and "cm_entries (place hash i k v m) ! j = Some (k', w)" "cm_entries (place hash i k v m) ! l = Some (k', w')"
    then have "j = i \<and> k' = k \<or> cm_entries m ! j = Some (k', w)" "l = i \<and> k' = k \<or> cm_entries m ! l = Some (k', w')"
      by (auto simp: nth_update_if split: if_splits)
    with only uk j l show "j = l" unfolding unique_keys_def by (metis place_sel(1))
  qed
qed

lemma insert_only_insert: "insert_only hash m \<Longrightarrow> insert_only hash (snd (cm_insert hash k v m))"
  unfolding insert_only_def
  by (cases rule: insert_cases [of hash m k v])
    (auto simp: cm_insert_def intro: cm_wf_place unique_keys_place no_tombstones_place)

interpretation cmt: kv_table "insert_only hash" "cm_get hash" "cm_insert hash"
  "can_insert_or_replace hash" cm_visited cm_len for hash
proof
  fix t k v
  assume i: "insert_only hash t"
  then have wf: "cm_wf hash t" and uk: "unique_keys t" by (auto simp: insert_only_def)
  obtain r old t' where ins: "insert_inner hash k v t = ((r, old), t')" by (metis surj_pair)
  note e = insert_inner_effect [OF wf ins]
  show "insert_only hash (snd (cm_insert hash k v t))" by (rule insert_only_insert [OF i])
  show "fst (cm_insert hash k v t) \<noteq> Full \<Longrightarrow> cm_get hash (snd (cm_insert hash k v t)) = (cm_get hash t)(k \<mapsto> v)"
    using e(2) ins by (simp add: cm_insert_def)
  show "fst (cm_insert hash k v t) = Full \<Longrightarrow> snd (cm_insert hash k v t) = t"
    using e(3) ins by (simp add: cm_insert_def)
  show "can_insert_or_replace hash k t \<longleftrightarrow> fst (cm_insert hash k v t) \<noteq> Full" by (rule can_insert_iff)
  show "distinct (map fst (cm_visited t))" "map_of (cm_visited t) = cm_get hash t"
    using cm_visited_map_of [OF wf uk] by auto
  show "cm_len t = length (cm_visited t)" using cm_visited_length [OF wf] by simp
  have "r = Inserted \<Longrightarrow> cm_get hash t k = None"
  proof -
    assume r: "r = Inserted"
    from cm_visited_length [OF wf] cm_visited_length [OF e(1)] e(6) r
    have l: "length (cm_visited t') = Suc (length (cm_visited t))" by simp
    have i': "insert_only hash t'" using insert_only_insert [OF i, of k v] ins by (simp add: cm_insert_def)
    then have v': "distinct (map fst (cm_visited t'))" "map_of (cm_visited t') = cm_get hash t'"
      using cm_visited_map_of [of hash t'] by (auto simp: insert_only_def)
    have "card (dom (cm_get hash t')) = Suc (card (dom (cm_get hash t)))"
      using l v' cm_visited_map_of [OF wf uk]
      by (metis distinct_card dom_map_of_conv_image_fst length_map list.set_map)
    with e(2) r show ?thesis by (cases "cm_get hash t k") (auto simp: insert_absorb domIff)
  qed
  then show "fst (cm_insert hash k v t) \<noteq> Full \<Longrightarrow> fst (cm_insert hash k v t) = Replaced \<longleftrightarrow> cm_get hash t k \<noteq> None"
    using e(4) ins by (cases r) (auto simp: cm_insert_def)
qed

section \<open>Rebuilding\<close>

lemma rebuild_loop_effect:
  assumes "insert_only hash m" and "rebuild_loop hash n l i es m = r"
  shows "case r of
      Inr m' \<Rightarrow> insert_only hash m' \<and> cm_get hash m' = cm_get hash m ++ map_of (rev es)
    | Inl e \<Rightarrow> i \<le> rebuild_copied e \<and> rebuild_copied e < i + length es \<and> entry_count e = l
        \<and> requested_capacity e = n"
  using assms
proof (induction es arbitrary: m i)
  case (Cons kv es)
  obtain k v where kv: "kv = (k, v)" by fastforce
  obtain o1 m1 where ins: "cm_insert hash k v m = (o1, m1)" by fastforce
  from cmt.ins_pair_lookup [OF Cons.prems(1) ins] have i1: "insert_only hash m1"
    and g1: "cm_get hash m1 = (if o1 = Full then cm_get hash m else (cm_get hash m)(k \<mapsto> v))" by auto
  show ?case
  proof (cases "o1 = Full")
    case True
    with Cons.prems(2) ins kv show ?thesis by auto
  next
    case False
    then have "rebuild_loop hash n l i (kv # es) m = rebuild_loop hash n l (i + 1) es m1"
      using ins kv by (cases o1) auto
    with Cons.IH [OF i1, of "i + 1"] Cons.prems(2) g1 False kv show ?thesis
      by (auto simp: map_add_upd_left split: sum.splits)
  qed
qed auto

lemma map_of_rev_distinct: "distinct (map fst xs) \<Longrightarrow> map_of (rev xs) = map_of xs"
  by (metis map_of_inject_set distinct_rev rev_map set_rev)

section \<open>Evaluation on a small table\<close>

text \<open>One conditional rule per outcome of a probe step, so that the simplifier never opens the branches
  not taken.\<close>

lemma insert_loop_eval:
  "cm_meta m ! i = meta_empty \<or> cm_meta m ! i = meta_tombstone \<Longrightarrow> cm_entries m ! i = None \<Longrightarrow> cm_meta m ! i \<noteq> h2 \<Longrightarrow>
     insert_loop m h2 k v (i # is) = ((Inserted, None), (set_meta i h2 (set_entry i (Some (k, v)) m))\<lparr>cm_len := cm_len m + 1\<rparr>)"
  "cm_entries m ! i = Some (k', w) \<Longrightarrow> k' \<noteq> k \<Longrightarrow> insert_loop m h2 k v (i # is) = insert_loop m h2 k v is"
  by auto

lemma get_loop_eval:
  "cm_meta m ! i = h2 \<Longrightarrow> cm_entries m ! i = Some (k, v) \<Longrightarrow> get_loop m h2 k (i # is) = Some v"
  "cm_meta m ! i = meta_empty \<Longrightarrow> cm_meta m ! i \<noteq> h2 \<Longrightarrow> get_loop m h2 k (i # is) = None"
  "cm_meta m ! i = meta_tombstone \<Longrightarrow> cm_meta m ! i \<noteq> h2 \<Longrightarrow> get_loop m h2 k (i # is) = get_loop m h2 k is"
  "cm_entries m ! i = Some (k', w) \<Longrightarrow> k' \<noteq> k \<Longrightarrow> cm_meta m ! i \<noteq> meta_empty \<Longrightarrow>
     get_loop m h2 k (i # is) = get_loop m h2 k is"
  by auto

lemma remove_loop_eval:
  "cm_meta m ! i = h2 \<Longrightarrow> cm_entries m ! i = Some (k, v) \<Longrightarrow>
     remove_loop (\<lambda>_. True) m h2 k (i # is) = (Some v, (set_meta i meta_tombstone (set_entry i None m))\<lparr>cm_len := cm_len m - 1\<rparr>)"
  "cm_entries m ! i = Some (k', w) \<Longrightarrow> k' \<noteq> k \<Longrightarrow> cm_meta m ! i \<noteq> meta_empty \<Longrightarrow>
     remove_loop ok m h2 k (i # is) = remove_loop ok m h2 k is"
  by auto

lemma small_table:
  "table_capacity 8 = 16" "probe_limit 16 = 20"
  "probes 20 15 0 0 = [0, 1, 3, 6, 10, 15, 5, 12, 4, 13, 7, 2, 14, 11, 9, 8, 8, 9, 11, 14, 2]"
  "replicate 16 x = [x, x, x, x, x, x, x, x, x, x, x, x, x, x, x, x]"
     apply (simp_all add: table_capacity_def next_power_of_two_def next_power_from.simps probe_limit_def ilog2.simps u64_max_def)
   apply (simp add: probes.simps del: One_nat_def)
  apply (simp add: numeral_eq_Suc)
  done

lemma small_hashes:
  "unat (hash_u64 16) AND 15 = 0" "unat (hash_u64 32) AND 15 = 0" "unat (hash_u64 48) AND 15 = 0"
  "h2_of hash_u64 16 = 0x71" "h2_of hash_u64 32 = 0x63" "h2_of hash_u64 48 = 0x55"
  by code_simp+

lemmas table_eval = small_table small_hashes insert_loop_eval get_loop_eval remove_loop_eval with_capacity_def
  with_capacity_and_batch_def Let_def probe_sequence_def h1_of_def meta_empty_def meta_tombstone_def
  set_entry_def set_meta_def cm_insert_def insert_inner_def cm_get_def cm_remove_def

definition sample_map :: "(u64, nat) concurrent_map" where
  "sample_map = snd (cm_insert hash_u64 32 2 (snd (cm_insert hash_u64 16 1 (with_capacity 8))))"

lemma sample_map_ok: "insert_only hash_u64 sample_map"
  unfolding sample_map_def with_capacity_def by (intro insert_only_insert insert_only_new)

lemma sample_map_eq:
  "sample_map = \<lparr>cm_capacity = 16, cm_mask = 15, cm_probe_limit = 20,
     cm_meta = [0x71, 0x63, 0x80, 0x80, 0x80, 0x80, 0x80, 0x80, 0x80, 0x80, 0x80, 0x80, 0x80, 0x80, 0x80, 0x80],
     cm_entries = [Some (16, 1), Some (32, 2), None, None, None, None, None, None, None, None, None, None,
       None, None, None, None], cm_len = 2, cm_retire_batch_size = default_retire_batch\<rparr>"
  by (simp add: sample_map_def table_eval del: insert_loop.simps)

section \<open>Properties of the table\<close>

text \<open>C10. Inserting into a well-formed table, tombstones included: the only possible effect on lookups is
  that the key now maps to the new value; the table is left untouched exactly when it reports
  \<open>Full\<close>, which \<open>can_insert_or_replace\<close> predicts, and \<open>Replaced\<close> hands back the value the key had.\<close>

theorem cm_insert_effect:
  assumes "cm_wf hash m" and "insert_inner hash k v m = ((r, old), m')"
  shows "cm_wf hash m'
    \<and> cm_get hash m' = (if r = Full then cm_get hash m else (cm_get hash m)(k \<mapsto> v))
    \<and> (r = Full \<longrightarrow> m' = m) \<and> (r = Replaced \<longrightarrow> old = cm_get hash m k \<and> old \<noteq> None)
    \<and> (can_insert_or_replace hash k m \<longleftrightarrow> r \<noteq> Full)"
  using insert_inner_effect [OF assms] can_insert_iff [of hash k m v] assms(2)
  by (auto simp: cm_insert_def)

theorem cm_insert_effect_witness:
  "\<exists>m'. insert_inner hash_u64 48 7 sample_map = ((Inserted, None), m') \<and>
     cm_get hash_u64 m' 48 = Some 7 \<and> cm_get hash_u64 m' 16 = Some 1"
proof -
  have "fst (insert_inner hash_u64 48 7 sample_map) = (Inserted, None)" "cm_get hash_u64 sample_map 16 = Some 1"
    by (simp_all add: sample_map_eq table_eval del: insert_loop.simps get_loop.simps)
  then obtain m' where "insert_inner hash_u64 48 7 sample_map = ((Inserted, None), m')"
    "cm_get hash_u64 sample_map 16 = Some 1" by (metis prod.collapse)
  moreover have "cm_wf hash_u64 sample_map" using sample_map_ok by (simp add: insert_only_def)
  ultimately show ?thesis using cm_insert_effect [of hash_u64 sample_map 48 7 Inserted None m'] by simp
qed



text \<open>C20. After any sequence of inserts into a new table of any size, under any hash function, \<open>len\<close> is
  the number of keys, and \<open>for_each\<close> visits every key once with its current value.\<close>

theorem cm_insert_only_contents:
  "let m = fold (\<lambda>(k, v) m. snd (cm_insert hash k v m)) es (with_capacity n) in
   cm_len m = card (dom (cm_get hash m)) \<and> distinct (map fst (cm_visited m))
   \<and> map_of (cm_visited m) = cm_get hash m"
proof -
  have "insert_only hash (fold (\<lambda>(k, v) m. snd (cm_insert hash k v m)) es m)" if "insert_only hash m" for m
    using that by (induction es arbitrary: m) (auto intro: insert_only_insert)
  from this [OF insert_only_new] show ?thesis
    by (simp add: Let_def with_capacity_def cmt.size_card cmt.elems_distinct [of hash] cmt.elems_lookup)
qed




end
