(* ===== verification/Sequence_Codec.thy ===== *)
theory Sequence_Codec
  imports Prelude
begin

text \<open>
  Reading a counted sequence: the \<open>for _ in 0..count\<close> loops of the decoders. The locale
  \<open>item_codec\<close> states what a reader and its encoder promise of one item; what follows for a whole
  sequence is proved in it once and used for every kind of item the decoders read. A reader may consume more than the item's own
  encoding: a map read with a repeated key is shorter when written back.
\<close>

fun read_seq :: "('e, 'a) reader \<Rightarrow> nat \<Rightarrow> ('e, 'a list) reader" where
  "read_seq rd 0 p c = Inr ([], c)"
| "read_seq rd (Suc n) p c =
     and_then (rd p c) (\<lambda>(x, c). and_then (read_seq rd n p c) (\<lambda>(xs, c). Inr (x # xs, c)))"

definition encode_seq :: "('a \<Rightarrow> bytes) \<Rightarrow> 'a list \<Rightarrow> bytes" where
  "encode_seq enc xs = concat (map enc xs)"

lemma encode_seq_simps [simp]:
  "encode_seq enc [] = []"
  "encode_seq enc (x # xs) = enc x @ encode_seq enc xs"
  by (simp_all add: encode_seq_def)

lemma length_encode_seq_ge: "(\<And>x. m \<le> length (enc x)) \<Longrightarrow> m * length xs \<le> length (encode_seq enc xs)"
proof (induction xs)
  case (Cons x xs)
  then have "m * length xs \<le> length (encode_seq enc xs)" "m \<le> length (enc x)" by blast+
  then show ?case by simp
qed simp

locale item_codec =
  fixes rd :: "('e, 'a) reader"
    and enc :: "'a \<Rightarrow> bytes"
    and ok :: "'a \<Rightarrow> bool"
  assumes rd_at: "at_cursor p c (enc x @ r) \<Longrightarrow> ok x \<Longrightarrow> rd p c = Inr (x, c + length (enc x))"
    and rd_InrD: "rd p c = Inr (x, c') \<Longrightarrow> c \<le> length p \<Longrightarrow> ok x \<and> c + length (enc x) \<le> c' \<and> c' \<le> length p"
begin

lemma read_seq_at:
  "at_cursor p c (encode_seq enc xs @ r) \<Longrightarrow> list_all ok xs \<Longrightarrow>
     read_seq rd (length xs) p c = Inr (xs, c + length (encode_seq enc xs))"
proof (induction xs arbitrary: c)
  case (Cons x xs)
  then have a: "at_cursor p c (enc x @ (encode_seq enc xs @ r))" by simp
  from Cons.IH [OF at_cursor_advance [OF a]] Cons.prems(2) rd_at [OF a] show ?case
    by (simp add: add.assoc)
qed simp

lemma read_seq_InrD:
  "read_seq rd n p c = Inr (xs, c') \<Longrightarrow> c \<le> length p \<Longrightarrow>
     length xs = n \<and> list_all ok xs \<and> c + length (encode_seq enc xs) \<le> c' \<and> c' \<le> length p"
proof (induction n arbitrary: c xs)
  case (Suc n)
  then obtain x c1 ys where r: "rd p c = Inr (x, c1)" "read_seq rd n p c1 = Inr (ys, c')" "xs = x # ys"
    by (auto simp: and_then_Inr_iff)
  from rd_InrD [OF r(1) Suc.prems(2)] Suc.IH [OF r(2)] r(3) show ?case by auto
qed simp

end

text \<open>A reader that accepts nothing but what the encoder writes.\<close>

locale exact_codec = item_codec +
  assumes rd_exact: "rd p c = Inr (x, c') \<Longrightarrow> c \<le> length p \<Longrightarrow> at_cursor p c (enc x @ drop c' p)"
begin

lemma read_seq_exact:
  "read_seq rd n p c = Inr (xs, c') \<Longrightarrow> c \<le> length p \<Longrightarrow> at_cursor p c (encode_seq enc xs @ drop c' p)"
proof (induction n arbitrary: c xs)
  case 0
  then show ?case by (simp add: at_cursor_def)
next
  case (Suc n)
  then obtain x c1 ys where r: "rd p c = Inr (x, c1)" "read_seq rd n p c1 = Inr (ys, c')" "xs = x # ys"
    by (auto simp: and_then_Inr_iff)
  have "c1 \<le> length p" using rd_InrD [OF r(1) Suc.prems(2)] by simp
  from Suc.IH [OF r(2) this] rd_exact [OF r(1) Suc.prems(2)] r(3) show ?case by (simp add: at_cursor_def)
qed

end

text \<open>Two items one after the other.\<close>

definition read_pair :: "('e, 'a) reader \<Rightarrow> ('e, 'b) reader \<Rightarrow> ('e, 'a \<times> 'b) reader" where
  "read_pair ra rb p c =
     and_then (ra p c) (\<lambda>(a, c). and_then (rb p c) (\<lambda>(b, c). Inr ((a, b), c)))"

definition encode_pair :: "('a \<Rightarrow> bytes) \<Rightarrow> ('b \<Rightarrow> bytes) \<Rightarrow> 'a \<times> 'b \<Rightarrow> bytes" where
  "encode_pair ea eb ab = ea (fst ab) @ eb (snd ab)"

lemma item_codec_pair:
  assumes "item_codec ra ea oka" and "item_codec rb eb okb"
  shows "item_codec (read_pair ra rb) (encode_pair ea eb) (\<lambda>ab. oka (fst ab) \<and> okb (snd ab))"
proof
  fix p c x r
  assume at: "at_cursor p c (encode_pair ea eb x @ r)" and ok: "oka (fst x) \<and> okb (snd x)"
  then have a: "at_cursor p c (ea (fst x) @ (eb (snd x) @ r))" by (simp add: encode_pair_def)
  from item_codec.rd_at [OF assms(1) a] item_codec.rd_at [OF assms(2) at_cursor_advance [OF a]] ok
  show "read_pair ra rb p c = Inr (x, c + length (encode_pair ea eb x))"
    by (simp add: read_pair_def encode_pair_def add.assoc)
next
  fix p c x c'
  assume "read_pair ra rb p c = Inr (x, c')" and c: "c \<le> length p"
  then obtain a c1 b where r: "ra p c = Inr (a, c1)" "rb p c1 = Inr (b, c')" "x = (a, b)"
    by (auto simp: read_pair_def and_then_Inr_iff)
  from item_codec.rd_InrD [OF assms(1) r(1) c] item_codec.rd_InrD [OF assms(2) r(2)] r(3)
  show "(oka (fst x) \<and> okb (snd x)) \<and> c + length (encode_pair ea eb x) \<le> c' \<and> c' \<le> length p"
    by (auto simp: encode_pair_def)
qed

end
