(* ===== verification/Mfs_Value.thy ===== *)
theory Mfs_Value
  imports Value_Reader Sequence_Codec
begin

text \<open>
  \<open>crates/mfs-store/src/value.rs\<close>: the object-store values and their binary codec. Unlike the schema
  value encoder, this one checks nothing but that lengths fit \<open>u32\<close> (it panics otherwise, \<open>None\<close>
  here); \<open>storable\<close> collects what the decoder insists on, and the two agree exactly there.
\<close>

section \<open>Values\<close>

record sorted_set_entry =
  score :: u64
  set_member :: bytes

record stream_id =
  millis :: u64
  sequence :: u64

record stream_entry =
  stream_id :: stream_id
  stream_fields :: "(bytes, bytes) btree"

datatype mfs_value =
    MV_Bytes bytes
  | MV_String string
  | MV_Integer "64 word"
  | MV_List "bytes list"
  | MV_Hash "(bytes, bytes) btree"
  | MV_Set "bytes list"
  | MV_SortedSet "sorted_set_entry list"
  | MV_Json bytes
  | MV_Stream "stream_entry list"
  | MV_Null

fun value_tag :: "mfs_value \<Rightarrow> byte" where
  "value_tag (MV_Bytes _) = 0"
| "value_tag (MV_String _) = 1"
| "value_tag (MV_Integer _) = 2"
| "value_tag (MV_List _) = 3"
| "value_tag (MV_Hash _) = 4"
| "value_tag (MV_Set _) = 5"
| "value_tag (MV_SortedSet _) = 6"
| "value_tag (MV_Json _) = 7"
| "value_tag (MV_Stream _) = 8"
| "value_tag MV_Null = 9"

definition max_encoded_value_bytes :: nat where
  "max_encoded_value_bytes = 64 * 1024 * 1024"

section \<open>Encoder\<close>

definition encode_score :: "sorted_set_entry \<Rightarrow> bytes" where
  "encode_score e = le_bytes 8 (score e) @ encode_bytes (set_member e)"

definition encode_hash :: "(bytes, bytes) btree \<Rightarrow> bytes" where
  "encode_hash fs = encode_len (length fs) @ encode_seq (encode_pair encode_bytes encode_bytes) fs"

definition encode_stream_entry :: "stream_entry \<Rightarrow> bytes" where
  "encode_stream_entry e =
     le_bytes 8 (millis (stream_id e)) @ le_bytes 8 (sequence (stream_id e)) @ encode_hash (stream_fields e)"

fun encode_value_body :: "mfs_value \<Rightarrow> bytes" where
  "encode_value_body (MV_Bytes b) = encode_bytes b"
| "encode_value_body (MV_Json b) = encode_bytes b"
| "encode_value_body (MV_String s) = encode_bytes (as_bytes s)"
| "encode_value_body (MV_Integer w) = le_bytes 8 w"
| "encode_value_body (MV_List vs) = encode_len (length vs) @ encode_seq encode_bytes vs"
| "encode_value_body (MV_Hash fs) = encode_hash fs"
| "encode_value_body (MV_Set vs) = encode_len (length vs) @ encode_seq encode_bytes vs"
| "encode_value_body (MV_SortedSet es) = encode_len (length es) @ encode_seq encode_score es"
| "encode_value_body (MV_Stream es) = encode_len (length es) @ encode_seq encode_stream_entry es"
| "encode_value_body MV_Null = []"

text \<open>The lengths that pass through \<open>encode_len\<close>, whose \<open>expect\<close> needs them to fit \<open>u32\<close>.\<close>

definition hash_lens :: "(bytes, bytes) btree \<Rightarrow> nat list" where
  "hash_lens fs = length fs # concat (map (\<lambda>f. [length (fst f), length (snd f)]) fs)"

fun value_lens :: "mfs_value \<Rightarrow> nat list" where
  "value_lens (MV_Bytes b) = [length b]"
| "value_lens (MV_Json b) = [length b]"
| "value_lens (MV_String s) = [length s]"
| "value_lens (MV_Integer w) = []"
| "value_lens (MV_List vs) = length vs # map length vs"
| "value_lens (MV_Hash fs) = hash_lens fs"
| "value_lens (MV_Set vs) = length vs # map length vs"
| "value_lens (MV_SortedSet es) = length es # map (\<lambda>e. length (set_member e)) es"
| "value_lens (MV_Stream es) = length es # concat (map (\<lambda>e. hash_lens (stream_fields e)) es)"
| "value_lens MV_Null = []"

definition encode_value :: "mfs_value \<Rightarrow> bytes option" where
  "encode_value v =
     (if list_all (\<lambda>n. n \<le> u32_max) (value_lens v) then Some (value_tag v # encode_value_body v) else None)"

section \<open>Decoder\<close>

abbreviation mv_ty :: string where
  "mv_ty \<equiv> ''MfsValue''"

definition mv_error :: "string \<Rightarrow> io_error" where
  "mv_error msg = IoError InvalidData msg"

definition read_hash :: "(io_error, (bytes, bytes) btree) reader" where
  "read_hash p c =
     and_then (read_count mv_ty 8 p c) (\<lambda>(n, c).
     and_then (read_seq (read_pair (read_bytes mv_ty) (read_bytes mv_ty)) n p c) (\<lambda>(fs, c).
       Inr (bt_collect fs, c)))"

definition read_score :: "(io_error, sorted_set_entry) reader" where
  "read_score p c =
     and_then (read_le read_exact 8 p c) (\<lambda>(s :: u64, c).
     if \<not> f64_is_finite s then Inl (mv_error ''sorted set score must be finite'')
     else and_then (read_bytes mv_ty p c) (\<lambda>(m, c). Inr (\<lparr>score = s, set_member = m\<rparr>, c)))"

definition read_stream_entry :: "(io_error, stream_entry) reader" where
  "read_stream_entry p c =
     and_then (read_le read_exact 8 p c) (\<lambda>(ms :: u64, c).
     and_then (read_le read_exact 8 p c) (\<lambda>(sq :: u64, c).
     and_then (read_hash p c) (\<lambda>(fs, c).
       Inr (\<lparr>stream_id = \<lparr>millis = ms, sequence = sq\<rparr>, stream_fields = fs\<rparr>, c))))"

text \<open>\<open>BTreeSet::insert\<close> in a loop.\<close>

definition set_collect :: "bytes list \<Rightarrow> bytes list" where
  "set_collect vs = map fst (bt_collect (map (\<lambda>v. (v, ())) vs))"

definition decode_tagged :: "byte \<Rightarrow> (io_error, mfs_value) reader" where
  "decode_tagged tag p c =
     (if tag = 0 then and_then (read_bytes mv_ty p c) (\<lambda>(b, c). Inr (MV_Bytes b, c))
      else if tag = 1 then and_then (read_string mv_ty p c) (\<lambda>(s, c). Inr (MV_String s, c))
      else if tag = 2 then and_then (read_le read_exact 8 p c) (\<lambda>(w, c). Inr (MV_Integer w, c))
      else if tag = 3 then
        and_then (read_count mv_ty 4 p c) (\<lambda>(n, c).
        and_then (read_seq (read_bytes mv_ty) n p c) (\<lambda>(vs, c). Inr (MV_List vs, c)))
      else if tag = 4 then and_then (read_hash p c) (\<lambda>(fs, c). Inr (MV_Hash fs, c))
      else if tag = 5 then
        and_then (read_count mv_ty 4 p c) (\<lambda>(n, c).
        and_then (read_seq (read_bytes mv_ty) n p c) (\<lambda>(vs, c). Inr (MV_Set (set_collect vs), c)))
      else if tag = 6 then
        and_then (read_count mv_ty 12 p c) (\<lambda>(n, c).
        and_then (read_seq read_score n p c) (\<lambda>(es, c). Inr (MV_SortedSet es, c)))
      else if tag = 7 then and_then (read_bytes mv_ty p c) (\<lambda>(b, c). Inr (MV_Json b, c))
      else if tag = 8 then
        and_then (read_count mv_ty 20 p c) (\<lambda>(n, c).
        and_then (read_seq read_stream_entry n p c) (\<lambda>(es, c). Inr (MV_Stream es, c)))
      else if tag = 9 then Inr (MV_Null, c)
      else Inl (mv_error ''unknown MfsValue tag''))"

definition decode_value :: "bytes \<Rightarrow> io_error + mfs_value" where
  "decode_value bs =
     (if length bs > max_encoded_value_bytes
      then Inl (mv_error ''MfsValue payload exceeds decoder limit'')
      else and_then (read_u8 bs 0) (\<lambda>(tag, c).
        and_then (decode_tagged tag bs c) (\<lambda>(v, c).
          if c = length bs then Inr v else Inl (mv_error ''trailing MfsValue bytes''))))"

section \<open>What the decoder insists on\<close>

definition blob_ok :: "bytes \<Rightarrow> bool" where
  "blob_ok b \<longleftrightarrow> length b \<le> max_blob_bytes"

definition hash_ok :: "(bytes, bytes) btree \<Rightarrow> bool" where
  "hash_ok fs \<longleftrightarrow> length fs \<le> max_items \<and> bt_wf fs \<and> list_all (\<lambda>f. blob_ok (fst f) \<and> blob_ok (snd f)) fs"

fun value_ok :: "mfs_value \<Rightarrow> bool" where
  "value_ok (MV_Bytes b) = blob_ok b"
| "value_ok (MV_Json b) = blob_ok b"
| "value_ok (MV_String s) = (rust_string s \<and> length s \<le> max_blob_bytes)"
| "value_ok (MV_Integer w) = True"
| "value_ok (MV_List vs) = (length vs \<le> max_items \<and> list_all blob_ok vs)"
| "value_ok (MV_Hash fs) = hash_ok fs"
| "value_ok (MV_Set vs) = (length vs \<le> max_items \<and> list_all blob_ok vs \<and> sorted_wrt (<) vs)"
| "value_ok (MV_SortedSet es) =
     (length es \<le> max_items \<and> list_all (\<lambda>e. f64_is_finite (score e) \<and> blob_ok (set_member e)) es)"
| "value_ok (MV_Stream es) = (length es \<le> max_items \<and> list_all (\<lambda>e. hash_ok (stream_fields e)) es)"
| "value_ok MV_Null = True"

definition storable :: "mfs_value \<Rightarrow> bool" where
  "storable v \<longleftrightarrow> value_ok v \<and> 1 + length (encode_value_body v) \<le> max_encoded_value_bytes"

section \<open>Items\<close>

interpretation blob_codec: item_codec "read_bytes mv_ty" encode_bytes blob_ok
  by unfold_locales (auto simp: blob_ok_def read_bytes_at dest!: read_bytes_InrD)

lemmas blob_pair_codec = item_codec_pair [OF blob_codec.item_codec_axioms blob_codec.item_codec_axioms]

interpretation field_codec: item_codec "read_pair (read_bytes mv_ty) (read_bytes mv_ty)"
  "encode_pair encode_bytes encode_bytes" "\<lambda>f. blob_ok (fst f) \<and> blob_ok (snd f)"
  by (rule blob_pair_codec)

interpretation score_codec: item_codec read_score encode_score
  "\<lambda>e. f64_is_finite (score e) \<and> blob_ok (set_member e)"
proof
  fix p c x r
  assume at: "at_cursor p c (encode_score x @ r)" and ok: "f64_is_finite (score x) \<and> blob_ok (set_member x)"
  then have a: "at_cursor p c (le_bytes 8 (score x) @ (encode_bytes (set_member x) @ r))"
    by (simp add: encode_score_def)
  from at_cursor_advance [OF a] have a': "at_cursor p (c + 8) (encode_bytes (set_member x) @ r)" by simp
  from vr.read_le_at [OF a] blob_codec.rd_at [OF a'] ok
  show "read_score p c = Inr (x, c + length (encode_score x))"
    by (simp add: read_score_def encode_score_def add.assoc)
next
  fix p c x c'
  assume "read_score p c = Inr (x, c')" and c: "c \<le> length p"
  then obtain s c1 m where r: "read_le read_exact 8 p c = Inr (s :: u64, c1)" "f64_is_finite s"
    "read_bytes mv_ty p c1 = Inr (m, c')" "x = \<lparr>score = s, set_member = m\<rparr>"
    by (auto simp: read_score_def and_then_Inr_iff split: if_splits)
  from vr.read_le_InrD [OF r(1) c] have c1: "c1 = c + 8" "c1 \<le> length p" by auto
  from blob_codec.rd_InrD [OF r(3) c1(2)] r(2,4) c1(1)
  show "(f64_is_finite (score x) \<and> blob_ok (set_member x)) \<and> c + length (encode_score x) \<le> c' \<and> c' \<le> length p"
    by (auto simp: encode_score_def)
qed

section \<open>Maps and sets read entry by entry\<close>

lemma bt_collect_append: "bt_collect (xs @ [(k, v)]) = bt_insert k v (bt_collect xs)"
  by (simp add: bt_collect_def)

lemma bt_wf_collect [simp]: "bt_wf (bt_collect xs)"
  by (induction xs rule: rev_induct) (auto simp: bt_collect_append bt_collect_def)

lemma bt_collect_sorted: "bt_wf xs \<Longrightarrow> bt_collect xs = xs"
proof (induction xs rule: rev_induct)
  case (snoc x xs)
  then have "bt_wf xs" "\<forall>k' \<in> fst ` set xs. k' < fst x" by (auto simp: bt_wf_def sorted_wrt_append)
  with snoc.IH show ?case by (cases x) (simp add: bt_collect_append bt_insert_append)
qed (simp add: bt_collect_def)

lemma set_bt_collect: "set (bt_collect xs) \<subseteq> set xs"
proof (induction xs rule: rev_induct)
  case (snoc x xs)
  with set_bt_insert_subset [of "fst x" "snd x" "bt_collect xs"] show ?case
    by (cases x) (auto simp: bt_collect_append)
qed (simp add: bt_collect_def)

lemma length_bt_insert: "length (bt_insert k v m) \<le> Suc (length m)"
  by (induction k v m rule: bt_insert.induct) auto

lemma length_bt_collect: "length (bt_collect xs) \<le> length xs"
proof (induction xs rule: rev_induct)
  case (snoc x xs)
  with length_bt_insert [of "fst x" "snd x" "bt_collect xs"] show ?case
    by (cases x) (auto simp: bt_collect_append)
qed (simp add: bt_collect_def)

lemma encode_seq_bt_insert: "length (encode_seq enc (bt_insert k v m)) \<le> length (encode_seq enc m) + length (enc (k, v))"
  by (induction k v m rule: bt_insert.induct) auto

lemma encode_seq_append [simp]: "encode_seq enc (xs @ ys) = encode_seq enc xs @ encode_seq enc ys"
  by (simp add: encode_seq_def)

lemma encode_seq_bt_collect: "length (encode_seq enc (bt_collect xs)) \<le> length (encode_seq enc xs)"
proof (induction xs rule: rev_induct)
  case (snoc x xs)
  with encode_seq_bt_insert [of enc "fst x" "snd x" "bt_collect xs"] show ?case
    by (cases x) (auto simp: bt_collect_append)
qed (simp add: bt_collect_def)

lemma encode_seq_map: "encode_seq enc (map f xs) = encode_seq (enc \<circ> f) xs"
  by (simp add: encode_seq_def)

lemma set_collect_sorted: "sorted_wrt (<) vs \<Longrightarrow> set_collect vs = vs"
  by (simp add: set_collect_def bt_collect_sorted bt_wf_def comp_def)

lemma set_collect_facts:
  "sorted_wrt (<) (set_collect vs)" "length (set_collect vs) \<le> length vs" "set (set_collect vs) \<subseteq> set vs"
  "length (encode_seq enc (set_collect vs)) \<le> length (encode_seq enc vs)"
proof -
  let ?xs = "map (\<lambda>v. (v, ())) vs"
  show "sorted_wrt (<) (set_collect vs)" using bt_wf_collect [of ?xs] by (simp add: set_collect_def bt_wf_def)
  show "length (set_collect vs) \<le> length vs" using length_bt_collect [of ?xs] by (simp add: set_collect_def)
  show "set (set_collect vs) \<subseteq> set vs" using set_bt_collect [of ?xs] by (force simp: set_collect_def)
  show "length (encode_seq enc (set_collect vs)) \<le> length (encode_seq enc vs)"
    using encode_seq_bt_collect [of "enc \<circ> fst" ?xs] by (simp add: set_collect_def encode_seq_map comp_def)
qed

section \<open>Hashes and streams\<close>

lemma length_encode_hash [simp]:
  "length (encode_hash fs) = 4 + length (encode_seq (encode_pair encode_bytes encode_bytes) fs)"
  by (simp add: encode_hash_def)

interpretation hash_codec: item_codec read_hash encode_hash hash_ok
proof
  fix p c x r
  assume at: "at_cursor p c (encode_hash x @ r)" and ok: "hash_ok x"
  let ?e = "encode_seq (encode_pair encode_bytes encode_bytes)"
  from at have a: "at_cursor p c (encode_len (length x) @ (?e x @ r))" by (simp add: encode_hash_def)
  from at_cursor_advance [OF a] have a': "at_cursor p (c + 4) (?e x @ r)" by simp
  have "8 * length x \<le> length (?e x)" by (rule length_encode_seq_ge) (simp add: encode_pair_def)
  then have "read_count mv_ty 8 p c = Inr (length x, c + 4)"
    using ok by (intro read_count_at [OF a]) (auto simp: hash_ok_def)
  with field_codec.read_seq_at [OF a'] ok show "read_hash p c = Inr (x, c + length (encode_hash x))"
    by (simp add: read_hash_def hash_ok_def bt_collect_sorted add.assoc)
next
  fix p c x c'
  assume "read_hash p c = Inr (x, c')" and c: "c \<le> length p"
  then obtain n c1 fs where r: "read_count mv_ty 8 p c = Inr (n, c1)"
    "read_seq (read_pair (read_bytes mv_ty) (read_bytes mv_ty)) n p c1 = Inr (fs, c')" "x = bt_collect fs"
    by (auto simp: read_hash_def and_then_Inr_iff)
  from read_count_InrD [OF r(1) c] have c1: "c1 = c + 4" "c1 \<le> length p" "n \<le> max_items" by auto
  from field_codec.read_seq_InrD [OF r(2) c1(2)] c1 r(3) length_bt_collect [of fs] set_bt_collect [of fs]
    encode_seq_bt_collect [of "encode_pair encode_bytes encode_bytes" fs]
  show "hash_ok x \<and> c + length (encode_hash x) \<le> c' \<and> c' \<le> length p"
    by (auto simp: hash_ok_def list_all_iff)
qed

interpretation stream_codec: item_codec read_stream_entry encode_stream_entry "\<lambda>e. hash_ok (stream_fields e)"
proof
  fix p c x r
  assume at: "at_cursor p c (encode_stream_entry x @ r)" and ok: "hash_ok (stream_fields x)"
  from at have a: "at_cursor p c (le_bytes 8 (millis (stream_id x)) @ (le_bytes 8 (sequence (stream_id x)) @
      (encode_hash (stream_fields x) @ r)))" by (simp add: encode_stream_entry_def)
  from at_cursor_advance [OF a] have a1: "at_cursor p (c + 8) (le_bytes 8 (sequence (stream_id x)) @
      (encode_hash (stream_fields x) @ r))" by simp
  from at_cursor_advance [OF a1] have a2: "at_cursor p (c + 8 + 8) (encode_hash (stream_fields x) @ r)" by simp
  from vr.read_le_at [OF a] vr.read_le_at [OF a1] hash_codec.rd_at [OF a2 ok]
  show "read_stream_entry p c = Inr (x, c + length (encode_stream_entry x))"
    by (simp add: read_stream_entry_def encode_stream_entry_def)
next
  fix p c x c'
  assume "read_stream_entry p c = Inr (x, c')" and c: "c \<le> length p"
  then obtain ms c1 sq c2 fs where r: "read_le read_exact 8 p c = Inr (ms :: u64, c1)"
    "read_le read_exact 8 p c1 = Inr (sq :: u64, c2)" "read_hash p c2 = Inr (fs, c')"
    "x = \<lparr>stream_id = \<lparr>millis = ms, sequence = sq\<rparr>, stream_fields = fs\<rparr>"
    by (auto simp: read_stream_entry_def and_then_Inr_iff)
  from vr.read_le_InrD [OF r(1) c] have c1: "c1 = c + 8" "c1 \<le> length p" by auto
  from vr.read_le_InrD [OF r(2) c1(2)] have c2: "c2 = c1 + 8" "c2 \<le> length p" by auto
  from hash_codec.rd_InrD [OF r(3) c2(2)] c1 c2 r(4)
  show "hash_ok (stream_fields x) \<and> c + length (encode_stream_entry x) \<le> c' \<and> c' \<le> length p"
    by (auto simp: encode_stream_entry_def)
qed

section \<open>The codec\<close>

text \<open>A count followed by that many items, in both directions.\<close>

lemma counted_at:
  assumes "item_codec rd enc ok" and "at_cursor p c (encode_len (length xs) @ encode_seq enc xs)"
    and "length xs \<le> max_items" and "list_all ok xs" and "\<And>x. m \<le> length (enc x)"
  shows "and_then (read_count mv_ty m p c) (\<lambda>(n, c). and_then (read_seq rd n p c) (\<lambda>(ys, c). Inr (f ys, c)))
    = Inr (f xs, c + (4 + length (encode_seq enc xs)))"
proof -
  from at_cursor_advance [OF assms(2)] have a: "at_cursor p (c + 4) (encode_seq enc xs @ [])" by simp
  have "read_count mv_ty m p c = Inr (length xs, c + 4)"
    by (rule read_count_at [OF assms(2,3)]) (rule length_encode_seq_ge [OF assms(5)])
  with item_codec.read_seq_at [OF assms(1) a assms(4)] show ?thesis by (simp add: add.assoc)
qed

lemma counted_InrD:
  assumes "item_codec rd enc ok"
    and "and_then (read_count mv_ty m p c) (\<lambda>(n, c). and_then (read_seq rd n p c) (\<lambda>(ys, c). Inr (f ys, c))) = Inr (v, c')"
    and "c \<le> length p"
  shows "\<exists>xs. v = f xs \<and> length xs \<le> max_items \<and> list_all ok xs \<and> c + (4 + length (encode_seq enc xs)) \<le> c'
    \<and> c' \<le> length p"
proof -
  from assms(2) obtain n c1 xs where r: "read_count mv_ty m p c = Inr (n, c1)" "read_seq rd n p c1 = Inr (xs, c')"
    "v = f xs" by (auto simp: and_then_Inr_iff)
  from read_count_InrD [OF r(1) assms(3)] have "c1 = c + 4" "c1 \<le> length p" "n \<le> max_items" by auto
  with item_codec.read_seq_InrD [OF assms(1) r(2)] r(3) show ?thesis by auto
qed

lemmas item_codecs = blob_codec.item_codec_axioms field_codec.item_codec_axioms score_codec.item_codec_axioms
  hash_codec.item_codec_axioms stream_codec.item_codec_axioms

lemma decode_tagged_at:
  assumes "at_cursor p c (encode_value_body v)" and "value_ok v"
  shows "decode_tagged (value_tag v) p c = Inr (v, c + length (encode_value_body v))"
proof (cases v)
  case (MV_Bytes b)
  with assms show ?thesis using blob_codec.rd_at [of p c b "[]"] by (simp add: decode_tagged_def)
next
  case (MV_Json b)
  with assms show ?thesis using blob_codec.rd_at [of p c b "[]"] by (simp add: decode_tagged_def)
next
  case (MV_String s)
  with assms show ?thesis using read_string_at [of p c s "[]" mv_ty] by (simp add: decode_tagged_def)
next
  case (MV_Integer w)
  with assms show ?thesis using vr.read_le_at [of p c 8 w "[]"] by (simp add: decode_tagged_def)
next
  case (MV_List vs)
  with assms show ?thesis
    using counted_at [OF item_codecs(1), of p c vs 4 MV_List] by (simp add: decode_tagged_def)
next
  case (MV_Hash fs)
  with assms show ?thesis using hash_codec.rd_at [of p c fs "[]"] by (simp add: decode_tagged_def)
next
  case (MV_Set vs)
  with assms show ?thesis
    using counted_at [OF item_codecs(1), of p c vs 4 "\<lambda>vs. MV_Set (set_collect vs)"]
    by (simp add: decode_tagged_def set_collect_sorted)
next
  case (MV_SortedSet es)
  with assms show ?thesis
    using counted_at [OF item_codecs(3), of p c es 12 MV_SortedSet] by (simp add: decode_tagged_def encode_score_def)
next
  case (MV_Stream es)
  with assms show ?thesis
    using counted_at [OF item_codecs(5), of p c es 20 MV_Stream]
    by (simp add: decode_tagged_def encode_stream_entry_def)
qed (simp add: decode_tagged_def)

lemma decode_tagged_InrD:
  assumes "decode_tagged tag p c = Inr (v, c')" and "c \<le> length p"
  shows "value_ok v \<and> c + length (encode_value_body v) \<le> c'"
proof -
  note counted = item_codecs(1) [THEN counted_InrD] item_codecs(3) [THEN counted_InrD] item_codecs(5) [THEN counted_InrD]
  consider "tag = 0 \<or> tag = 7" | "tag = 1" | "tag = 2" | "tag = 3" | "tag = 4" | "tag = 5" | "tag = 6" | "tag = 8"
    | "tag = 9" using assms(1) by (auto simp: decode_tagged_def split: if_splits)
  then show ?thesis
  proof cases
    case 1
    with assms show ?thesis
      by (auto simp: decode_tagged_def and_then_Inr_iff dest!: blob_codec.rd_InrD)
  next
    case 2
    with assms show ?thesis by (auto simp: decode_tagged_def and_then_Inr_iff dest!: read_string_InrD)
  next
    case 3
    with assms show ?thesis by (auto simp: decode_tagged_def and_then_Inr_iff dest!: vr.read_le_InrD)
  next
    case 4
    with assms show ?thesis by (auto simp: decode_tagged_def dest!: counted(1))
  next
    case 5
    with assms show ?thesis
      by (auto simp: decode_tagged_def and_then_Inr_iff simp del: length_encode_hash dest!: hash_codec.rd_InrD)
  next
    case 6
    with assms obtain vs where "v = MV_Set (set_collect vs)" "length vs \<le> max_items" "list_all blob_ok vs"
      "c + (4 + length (encode_seq encode_bytes vs)) \<le> c'"
      by (auto simp: decode_tagged_def dest!: counted(1))
    with set_collect_facts(1-3) [of vs] set_collect_facts(4) [of encode_bytes vs] show ?thesis
      by (auto simp: list_all_iff)
  next
    case 7
    with assms show ?thesis by (auto simp: decode_tagged_def dest!: counted(2))
  next
    case 8
    with assms show ?thesis by (auto simp: decode_tagged_def dest!: counted(3))
  next
    case 9
    with assms show ?thesis by (auto simp: decode_tagged_def)
  qed
qed

lemma blob_len_fits: "n \<le> max_blob_bytes \<Longrightarrow> n \<le> u32_max" "n \<le> max_items \<Longrightarrow> n \<le> u32_max"
  by (simp_all add: max_blob_bytes_def max_items_def u32_max_def)

lemma hash_lens_fit: "hash_ok fs \<Longrightarrow> list_all (\<lambda>n. n \<le> u32_max) (hash_lens fs)"
  by (auto simp: hash_lens_def hash_ok_def blob_ok_def list_all_iff blob_len_fits)

lemma lens_fit: "value_ok v \<Longrightarrow> list_all (\<lambda>n. n \<le> u32_max) (value_lens v)"
proof (cases v)
  case (MV_Stream es)
  moreover assume "value_ok v"
  ultimately show ?thesis using hash_lens_fit by (fastforce simp: list_all_iff blob_len_fits)
next
  case (MV_Hash fs)
  moreover assume "value_ok v"
  ultimately show ?thesis using hash_lens_fit by simp
qed (auto simp: list_all_iff blob_ok_def blob_len_fits)

lemma decode_encode_value:
  assumes "storable v"
  shows "\<exists>bs. encode_value v = Some bs \<and> decode_value bs = Inr v"
proof -
  let ?bs = "value_tag v # encode_value_body v"
  have a: "at_cursor ?bs 0 (value_tag v # encode_value_body v)" by simp
  have ok: "value_ok v" using assms by (simp add: storable_def)
  from read_u8_at [OF a] decode_tagged_at [OF at_cursor_Cons [OF a] ok]
  have "decode_value ?bs = Inr v" using assms by (simp add: decode_value_def storable_def)
  moreover have "encode_value v = Some ?bs" using lens_fit [OF ok] by (simp add: encode_value_def)
  ultimately show ?thesis by blast
qed

lemma decode_value_storable:
  assumes "decode_value bs = Inr v"
  shows "storable v"
proof -
  from assms obtain tag c c' where r: "read_u8 bs 0 = Inr (tag, c)" "decode_tagged tag bs c = Inr (v, c')"
    "c' = length bs" "length bs \<le> max_encoded_value_bytes"
    by (auto simp: decode_value_def and_then_Inr_iff split: if_splits)
  from read_u8_InrD [OF r(1)] have "c = 1" "c \<le> length bs" by auto
  with decode_tagged_InrD [OF r(2)] r(3,4) show ?thesis by (auto simp: storable_def)
qed

text \<open>C25. The object value codec: exactly the storable values (within the size limits, scores finite, maps
  and sets sorted, strings UTF-8) are written and read back as themselves; everything the decoder
  accepts is storable, so it survives any further write and read.\<close>

theorem mfs_value_roundtrip:
  "storable v \<longleftrightarrow> (\<exists>bs. encode_value v = Some bs \<and> decode_value bs = Inr v)"
  using decode_encode_value decode_value_storable by blast



end
