(* ===== verification/Store_Types.thy ===== *)
theory Store_Types
  imports Schema_Value Value_Reader
begin

text \<open>
  The shared vocabulary of the store: \<open>store/types.rs\<close>, \<open>store/config.rs\<close>, the error type of
  \<open>store/error.rs\<close> and the durability modes of \<open>store/semantics.rs\<close>. The newtypes around strings,
  byte vectors and \<open>u64\<close> are type synonyms. \<open>SchemaDecode\<close> carries the decoder's error itself
  where the source keeps its text.
\<close>

section \<open>Types\<close>

type_synonym collection_id = u64
type_synonym raw_key = bytes
type_synonym raw_value = bytes
type_synonym document_version = u64
type_synonym lsn = u64
type_synonym file_path = string

datatype operation = Put | Delete

datatype durability_mode = MemoryOnly | WalAsync | WalGroupCommit | WalSync | SnapshotOnly

record write_options =
  opt_durability :: "durability_mode option"
  expected_version :: "document_version option"

definition default_write_options :: write_options where
  "default_write_options = \<lparr>opt_durability = None, expected_version = None\<rparr>"

definition with_durability :: "durability_mode \<Rightarrow> write_options \<Rightarrow> write_options" where
  "with_durability d opts = opts\<lparr>opt_durability := Some d\<rparr>"

definition effective_durability :: "write_options \<Rightarrow> durability_mode \<Rightarrow> durability_mode" where
  "effective_durability opts engine_default =
     (case opt_durability opts of Some d \<Rightarrow> d | None \<Rightarrow> engine_default)"

datatype write_acknowledgement =
    AckMemoryOnly
  | AckWalBuffered lsn
  | AckWalSynced lsn
  | AckWalGroupCommitted lsn
  | AckSnapshotOnly

fun ack_lsn :: "write_acknowledgement \<Rightarrow> lsn option" where
  "ack_lsn AckMemoryOnly = None"
| "ack_lsn AckSnapshotOnly = None"
| "ack_lsn (AckWalBuffered l) = Some l"
| "ack_lsn (AckWalSynced l) = Some l"
| "ack_lsn (AckWalGroupCommitted l) = Some l"

record write_result =
  wr_version :: document_version
  wr_lsn :: "lsn option"
  wr_ack :: write_acknowledgement

record read_result =
  rr_value :: raw_value
  rr_version :: document_version

datatype field_update =
    FU_Set string schema_value
  | FU_Unset string
  | FU_Increment string "64 word"

section \<open>Configuration\<close>

definition default_max_collections :: nat where
  "default_max_collections = 1024"

definition default_raw_initial_capacity :: nat where
  "default_raw_initial_capacity = 1000000"

record mfs_store_config =
  max_collections :: nat
  raw_initial_capacity :: nat
  cfg_durability :: durability_mode
  cfg_wal_path :: "file_path option"
  cfg_checkpoint_dir :: "file_path option"

definition default_store_config :: mfs_store_config where
  "default_store_config =
     \<lparr>max_collections = default_max_collections, raw_initial_capacity = default_raw_initial_capacity,
      cfg_durability = MemoryOnly, cfg_wal_path = None, cfg_checkpoint_dir = None\<rparr>"

section \<open>Errors\<close>

datatype wal_corruption_kind =
    WalBadMagic | WalUnknownFormatVersion | WalChecksumMismatch | WalMalformedRecord
  | WalNonMonotonicLsn | WalPayloadTooLarge | WalFieldTooLarge | WalUnknownOperation

datatype checkpoint_corruption_kind =
    CkBadMagic | CkUnknownFormatVersion | CkChecksumMismatch | CkMalformedCheckpoint
  | CkPayloadTooLarge | CkFieldTooLarge

datatype (plugins only: code) store_error =
    InvalidConfig string string
  | CollectionAlreadyExists string
  | CollectionNotFound string
  | CollectionLimitExceeded nat
  | CollectionCapacityFull string
  | UnsupportedDurability durability_mode
  | Conflict string raw_key document_version document_version
  | SchemaDefinition string schema_error
  | SchemaDocument string schema_value_error
  | SchemaMissingPrimaryField string
  | SchemaMissingPrimaryKey string string
  | SchemaPrimaryKeyTypeMismatch string string string schema_value_kind
  | SchemaDecode string io_error
  | SchemaDeclarationMismatch string
  | UnsupportedExactIndex string string
  | UnindexedField string string
  | SchemaIndexKeyTypeMismatch string string string schema_value_kind
  | UniqueIndexConflict string string raw_key
  | ReferenceFieldNotFound string string
  | ReferenceTargetCollectionNotFound string string string
  | ReferenceTargetNotPrimary string string string string
  | ReferenceTargetMismatch string string string string
  | WalCorruption nat wal_corruption_kind
  | WalIo string string
  | CheckpointCorruption file_path checkpoint_corruption_kind
  | CheckpointIo string file_path string
  | InvalidUpdatePath string string
  | PrimaryKeyUpdateForbidden
  | DocumentNotFound string
  | NumericOverflow string
  | UpdateTypeMismatch string string schema_value_kind

type_synonym 'a store_result = "store_error + 'a"

definition validate_store_config :: "mfs_store_config \<Rightarrow> unit store_result" where
  "validate_store_config c =
     (if max_collections c = 0 then Inl (InvalidConfig ''max_collections'' ''must be greater than zero'')
      else if raw_initial_capacity c = 0
        then Inl (InvalidConfig ''raw_initial_capacity'' ''must be greater than zero'')
      else if cfg_durability c \<in> {WalAsync, WalGroupCommit, WalSync} \<and> cfg_wal_path c = None
        then Inl (InvalidConfig ''wal_path'' ''required for WAL durability modes'')
      else Inr ())"

end
