(* ===== verification/Raw_Collection.thy ===== *)
theory Raw_Collection
  imports Concurrent_Map Store_Types
begin

text \<open>
  A collection of the raw store (\<open>RawCollection\<close> of \<open>store/raw.rs\<close>): the table of records, where a
  deleted key keeps a record without a value, and the counter of live records. The mutation locks
  only serialise writers and are not part of the state.
\<close>

record raw_record =
  rec_value :: "raw_value option"
  rec_version :: document_version

record raw_collection =
  rc_records :: "(raw_key, raw_record) concurrent_map"
  rc_record_count :: u64

record raw_snapshot_record =
  sn_key :: raw_key
  sn_value :: "raw_value option"
  sn_version :: document_version

definition rc_with_capacity :: "nat \<Rightarrow> raw_collection" where
  "rc_with_capacity n = \<lparr>rc_records = with_capacity n, rc_record_count = 0\<rparr>"

definition rc_lookup :: "raw_collection \<Rightarrow> raw_key \<Rightarrow> raw_record option" where
  "rc_lookup rc key = cm_get hash_bytes (rc_records rc) key"

definition rc_get :: "raw_collection \<Rightarrow> raw_key \<Rightarrow> read_result option" where
  "rc_get rc key = (case rc_lookup rc key of
     None \<Rightarrow> None
   | Some r \<Rightarrow> map_option (\<lambda>v. \<lparr>rr_value = v, rr_version = rec_version r\<rparr>) (rec_value r))"

definition rc_snapshot_records :: "raw_collection \<Rightarrow> raw_snapshot_record list" where
  "rc_snapshot_records rc = sort_key sn_key
     (map (\<lambda>(key, r). \<lparr>sn_key = key, sn_value = rec_value r, sn_version = rec_version r\<rparr>)
       (cm_visited (rc_records rc)))"

text \<open>The counter update shared by live writes and replay.\<close>

definition count_write :: "bool \<Rightarrow> bool \<Rightarrow> u64 \<Rightarrow> u64" where
  "count_write is_put was_live n =
     (if is_put \<and> \<not> was_live then n + 1 else if \<not> is_put \<and> was_live then n - 1 else n)"

definition rc_insert :: "raw_key \<Rightarrow> raw_record \<Rightarrow> raw_value option \<Rightarrow> raw_collection \<Rightarrow> insert_outcome \<times> raw_collection" where
  "rc_insert key r old_value rc = (case cm_insert hash_bytes key r (rc_records rc) of
     (Full, _) \<Rightarrow> (Full, rc)
   | (outcome, t) \<Rightarrow> (outcome, \<lparr>rc_records = t,
       rc_record_count = count_write (rec_value r \<noteq> None) (old_value \<noteq> None) (rc_record_count rc)\<rparr>))"

definition insert_replay_record_locked ::
    "string \<Rightarrow> raw_key \<Rightarrow> raw_value option \<Rightarrow> document_version \<Rightarrow> raw_collection \<Rightarrow> raw_collection store_result" where
  "insert_replay_record_locked coll key v version rc =
     (let r = \<lparr>rec_value = v, rec_version = version\<rparr> in
      case insert_inner hash_bytes key r (rc_records rc) of
        ((Full, _), _) \<Rightarrow> Inl (CollectionCapacityFull coll)
      | ((_, old_record), t) \<Rightarrow>
          let was_live = (Option.bind old_record rec_value \<noteq> None) in
          Inr \<lparr>rc_records = t, rc_record_count = count_write (v \<noteq> None) was_live (rc_record_count rc)\<rparr>)"

section \<open>The record counter\<close>

definition live_keys :: "raw_collection \<Rightarrow> raw_key set" where
  "live_keys rc = {k. \<exists>r. rc_lookup rc k = Some r \<and> rec_value r \<noteq> None}"

definition rc_ok :: "raw_collection \<Rightarrow> bool" where
  "rc_ok rc \<longleftrightarrow> insert_only hash_bytes (rc_records rc) \<and> rc_record_count rc = of_nat (card (live_keys rc))"

lemma new_lookup: "rc_lookup (rc_with_capacity n) k = None"
proof -
  have i: "insert_only hash_bytes (with_capacity n :: (raw_key, raw_record) concurrent_map)"
    unfolding with_capacity_def by (rule insert_only_new)
  have "cm_len (with_capacity n :: (raw_key, raw_record) concurrent_map) = 0"
    by (simp add: with_capacity_def with_capacity_and_batch_def Let_def)
  then have "card (dom (cm_get hash_bytes (with_capacity n :: (raw_key, raw_record) concurrent_map))) = 0"
    using cmt.size_card [OF i] by simp
  then show ?thesis using cmt.elems_finite [OF i] by (auto simp: dom_def rc_lookup_def rc_with_capacity_def)
qed

lemma rc_ok_new: "rc_ok (rc_with_capacity n)"
proof -
  have "live_keys (rc_with_capacity n) = {}" by (simp add: live_keys_def new_lookup)
  then show ?thesis
    by (simp add: rc_ok_def rc_with_capacity_def with_capacity_def insert_only_new)
qed

lemma finite_live_keys: "rc_ok rc \<Longrightarrow> finite (live_keys rc)"
  by (rule finite_subset [of _ "dom (cm_get hash_bytes (rc_records rc))"])
    (auto simp: live_keys_def rc_lookup_def rc_ok_def intro: cmt.elems_finite)

lemma count_write_card:
  assumes "finite S" and "was_live \<longleftrightarrow> k \<in> S"
  shows "count_write is_put was_live (of_nat (card S)) = of_nat (card (if is_put then insert k S else S - {k}))"
proof (cases "k \<in> S")
  case True
  then have "card S = Suc (card (S - {k}))" using assms(1) by (metis card_Suc_Diff1)
  then show ?thesis using assms True by (auto simp: count_write_def insert_absorb)
next
  case False
  then show ?thesis using assms by (simp add: count_write_def add.commute)
qed

lemma live_keys_update:
  assumes "\<And>k'. rc_lookup rc' k' = (if k' = k then Some r else rc_lookup rc k')"
  shows "live_keys rc' = (if rec_value r \<noteq> None then insert k (live_keys rc) else live_keys rc - {k})"
  using assms by (auto simp: live_keys_def)

lemma rc_ok_update:
  assumes "rc_ok rc" and "insert_only hash_bytes t" and "cm_get hash_bytes t = (cm_get hash_bytes (rc_records rc))(k \<mapsto> r)"
    and "was_live \<longleftrightarrow> k \<in> live_keys rc"
  shows "rc_ok \<lparr>rc_records = t, rc_record_count = count_write (rec_value r \<noteq> None) was_live (rc_record_count rc)\<rparr>"
proof -
  let ?rc = "\<lparr>rc_records = t, rc_record_count = count_write (rec_value r \<noteq> None) was_live (rc_record_count rc)\<rparr>"
  have "live_keys ?rc = (if rec_value r \<noteq> None then insert k (live_keys rc) else live_keys rc - {k})"
    by (rule live_keys_update) (simp add: rc_lookup_def assms(3))
  then show ?thesis
    using assms count_write_card [OF finite_live_keys [OF assms(1)] assms(4)] by (simp add: rc_ok_def)
qed

lemma live_keys_iff: "k \<in> live_keys rc \<longleftrightarrow> Option.bind (rc_lookup rc k) rec_value \<noteq> None"
  by (cases "rc_lookup rc k") (auto simp: live_keys_def)

lemma rc_insert_effect:
  assumes "rc_ok rc" and "rc_insert k r (Option.bind (rc_lookup rc k) rec_value) rc = (res, rc')"
  shows "rc_ok rc' \<and> (if res = Full then rc' = rc
    else (\<forall>k'. rc_lookup rc' k' = (if k' = k then Some r else rc_lookup rc k')))"
proof -
  obtain t where i: "cm_insert hash_bytes k r (rc_records rc) = (res, t)"
    using assms(2) by (auto simp: rc_insert_def split: prod.splits insert_outcome.splits)
  have io: "insert_only hash_bytes (rc_records rc)" using assms(1) by (simp add: rc_ok_def)
  note e = cmt.ins_pair_lookup [OF io i]
  show ?thesis
  proof (cases "res = Full")
    case True
    with i assms show ?thesis by (simp add: rc_insert_def)
  next
    case False
    then have rc': "rc' = \<lparr>rc_records = t, rc_record_count =
        count_write (rec_value r \<noteq> None) (Option.bind (rc_lookup rc k) rec_value \<noteq> None) (rc_record_count rc)\<rparr>"
      using assms(2) i by (cases res) (simp_all add: rc_insert_def)
    have "rc_ok rc'" unfolding rc' using e False
      by (intro rc_ok_update [OF assms(1)]) (simp_all add: live_keys_iff)
    then show ?thesis using False e rc' by (simp add: rc_lookup_def)
  qed
qed

text \<open>Replay is the same table and counter update.\<close>

lemma insert_inner_old:
  assumes "insert_only hash t" and "insert_inner hash k v t = ((res, old), t')" and "res \<noteq> Full"
  shows "old = cm_get hash t k"
proof -
  have wf: "cm_wf hash t" using assms(1) by (simp add: insert_only_def)
  note e = insert_inner_effect [OF wf assms(2)]
  show ?thesis
  proof (cases "res = Replaced")
    case True
    then show ?thesis using e(4) by simp
  next
    case False
    then have i: "res = Inserted" using assms(3) by (cases res) auto
    then have "cm_get hash t k = None"
      using cmt.ins_replaced [OF assms(1), of k v] assms(2) by (simp add: cm_insert_def)
    moreover have "old = None"
      using assms(2) i by (cases rule: insert_cases [OF wf, of k v]) auto
    ultimately show ?thesis by simp
  qed
qed

lemma replay_insert:
  assumes "rc_ok rc"
  shows "insert_replay_record_locked coll k v version rc =
    (case rc_insert k \<lparr>rec_value = v, rec_version = version\<rparr> (Option.bind (rc_lookup rc k) rec_value) rc of
       (Full, _) \<Rightarrow> Inl (CollectionCapacityFull coll)
     | (_, rc') \<Rightarrow> Inr rc')"
proof -
  let ?r = "\<lparr>rec_value = v, rec_version = version\<rparr>"
  obtain res old t where i: "insert_inner hash_bytes k ?r (rc_records rc) = ((res, old), t)" by (metis surj_pair)
  have io: "insert_only hash_bytes (rc_records rc)" using assms by (simp add: rc_ok_def)
  show ?thesis
  proof (cases "res = Full")
    case True
    with i show ?thesis by (simp add: insert_replay_record_locked_def rc_insert_def cm_insert_def)
  next
    case False
    with insert_inner_old [OF io i] i show ?thesis
      by (cases res) (simp_all add: insert_replay_record_locked_def rc_insert_def cm_insert_def rc_lookup_def)
  qed
qed

section \<open>Snapshots\<close>

definition record_of_snapshot :: "raw_snapshot_record \<Rightarrow> raw_record" where
  "record_of_snapshot s = \<lparr>rec_value = sn_value s, rec_version = sn_version s\<rparr>"

lemma snapshot_contents:
  assumes "rc_ok rc"
  shows "map_of (map (\<lambda>s. (sn_key s, record_of_snapshot s)) (rc_snapshot_records rc)) = rc_lookup rc
    \<and> sorted_wrt (<) (map sn_key (rc_snapshot_records rc))"
proof -
  have io: "insert_only hash_bytes (rc_records rc)" using assms by (simp add: rc_ok_def)
  let ?f = "\<lambda>(key, r). \<lparr>sn_key = key, sn_value = rec_value r, sn_version = rec_version r\<rparr>"
  let ?es = "cm_visited (rc_records rc)"
  have d: "distinct (map fst ?es)" and m: "map_of ?es = cm_get hash_bytes (rc_records rc)"
    using cmt.elems_distinct [OF io] cmt.elems_lookup [OF io] by auto
  have k: "map sn_key (map ?f ?es) = map fst ?es" by (simp add: comp_def case_prod_beta)
  have ds: "distinct (map sn_key (rc_snapshot_records rc))"
    using d k by (metis (no_types, lifting) distinct_map distinct_sort rc_snapshot_records_def set_sort sort_key_simps)
  have eta: "(\<lambda>x :: raw_key \<times> raw_record. (fst x, \<lparr>rec_value = rec_value (snd x), rec_version = rec_version (snd x)\<rparr>)) = (\<lambda>x. x)"
    by (simp add: fun_eq_iff)
  have "set (map (\<lambda>s. (sn_key s, record_of_snapshot s)) (rc_snapshot_records rc)) = set ?es"
    by (simp add: rc_snapshot_records_def image_image record_of_snapshot_def case_prod_beta) (subst eta, simp)
  then have "map_of (map (\<lambda>s. (sn_key s, record_of_snapshot s)) (rc_snapshot_records rc)) = map_of ?es"
    using d ds by (intro map_of_inject_set [THEN iffD2]) (simp_all add: comp_def)
  moreover have "sorted (map sn_key (rc_snapshot_records rc))" by (simp add: rc_snapshot_records_def)
  ultimately show ?thesis using m ds by (simp add: rc_lookup_def fun_eq_iff strict_sorted_iff)
qed

end
