(* ===== verification/Wal_Codec.thy ===== *)
theory Wal_Codec
  imports Store_Types
begin

text \<open>
  The record format of \<open>store/wal.rs\<close> and the scan over a segment. A record is framed as magic,
  payload length, payload and checksum. The checksum functions come from the \<open>crc32c\<close> package and
  are an argument of the definitions; nothing is assumed of them.
\<close>

section \<open>Checksums\<close>

record crc_functions =
  crc32c :: "bytes \<Rightarrow> u32"
  crc32c_append :: "u32 \<Rightarrow> bytes \<Rightarrow> u32"

section \<open>Records\<close>

definition raw_wal_record_magic :: u32 where
  "raw_wal_record_magic = 0x5753464D"

definition raw_wal_format_version :: u16 where
  "raw_wal_format_version = 2"

definition raw_wal_max_payload_bytes :: nat where
  "raw_wal_max_payload_bytes = 64 * 1024 * 1024"

definition raw_wal_max_field_bytes :: nat where
  "raw_wal_max_field_bytes = 64 * 1024 * 1024"

definition header_len :: nat where "header_len = 8"
definition checksum_len :: nat where "checksum_len = 4"

record raw_wal_record =
  w_lsn :: lsn
  w_version :: document_version
  w_collection :: string
  w_op :: operation
  w_key :: raw_key
  w_value :: "raw_value option"

record raw_wal_replay_stats =
  stat_records :: nat
  stat_last_lsn :: lsn

fun op_code :: "operation \<Rightarrow> byte" where
  "op_code Put = 1"
| "op_code Delete = 2"

definition wal_corrupt :: "nat \<Rightarrow> wal_corruption_kind \<Rightarrow> store_error" where
  "wal_corrupt offset k = WalCorruption offset k"

definition validate_field_len :: "nat \<Rightarrow> unit store_result" where
  "validate_field_len len =
     (if len > raw_wal_max_field_bytes \<or> len > u32_max then Inl (wal_corrupt 0 WalFieldTooLarge) else Inr ())"

definition write_len_prefixed :: "bytes \<Rightarrow> bytes" where
  "write_len_prefixed bs = le_bytes 4 (of_nat (length bs) :: u32) @ bs"

definition encode_payload ::
    "lsn \<Rightarrow> document_version \<Rightarrow> string \<Rightarrow> operation \<Rightarrow> raw_key \<Rightarrow> raw_value option \<Rightarrow> bytes store_result" where
  "encode_payload l version coll op key value =
     and_then (validate_field_len (length coll)) (\<lambda>_.
     and_then (validate_field_len (length key)) (\<lambda>_.
     and_then (case value of Some v \<Rightarrow> validate_field_len (length v) | None \<Rightarrow> Inr ()) (\<lambda>_.
       let out = le_bytes 2 raw_wal_format_version @ le_bytes 8 l @ le_bytes 8 version
         @ write_len_prefixed (as_bytes coll) @ [op_code op] @ write_len_prefixed key in
       case (op, value) of
         (Put, Some v) \<Rightarrow> Inr (out @ write_len_prefixed v)
       | (Delete, None) \<Rightarrow> Inr (out @ le_bytes 4 (0 :: u32))
       | _ \<Rightarrow> Inl (wal_corrupt 0 WalMalformedRecord))))"

section \<open>Decoding a payload\<close>

definition wal_read_u8 :: "nat \<Rightarrow> (store_error, byte) reader" where
  "wal_read_u8 offset p c =
     (if length p - c < 1 then Inl (wal_corrupt offset WalMalformedRecord) else Inr (p ! c, c + 1))"

definition wal_read_exact :: "nat \<Rightarrow> nat \<Rightarrow> (store_error, bytes) reader" where
  "wal_read_exact offset n p c =
     (if length p - c < n then Inl (wal_corrupt offset WalMalformedRecord)
      else Inr (take n (drop c p), c + n))"

definition wal_read_bytes :: "nat \<Rightarrow> (store_error, bytes) reader" where
  "wal_read_bytes offset = read_prefixed (wal_read_exact offset) raw_wal_max_field_bytes
     (wal_corrupt offset WalFieldTooLarge) (wal_corrupt offset WalMalformedRecord)"

definition decode_payload :: "bytes \<Rightarrow> nat \<Rightarrow> raw_wal_record store_result" where
  "decode_payload p start =
     and_then (read_le (wal_read_exact start) 2 p 0) (\<lambda>(version :: u16, c).
     if version \<noteq> raw_wal_format_version then Inl (wal_corrupt start WalUnknownFormatVersion) else
     and_then (read_le (wal_read_exact start) 8 p c) (\<lambda>(l :: u64, c).
     and_then (read_le (wal_read_exact start) 8 p c) (\<lambda>(record_version :: u64, c).
     and_then (wal_read_bytes start p c) (\<lambda>(cb, c).
     and_then (ok_or (wal_corrupt start WalMalformedRecord) (from_utf8 cb)) (\<lambda>coll.
     if coll = [] then Inl (wal_corrupt start WalMalformedRecord) else
     and_then (wal_read_u8 start p c) (\<lambda>(code, c).
     and_then (if code = 1 then Inr Put else if code = 2 then Inr Delete
               else Inl (wal_corrupt start WalUnknownOperation)) (\<lambda>op.
     and_then (wal_read_bytes start p c) (\<lambda>(key, c).
     and_then (wal_read_bytes start p c) (\<lambda>(vb, c).
     and_then (case op of
         Put \<Rightarrow> Inr (Some vb)
       | Delete \<Rightarrow> if vb = [] then Inr None else Inl (wal_corrupt start WalMalformedRecord)) (\<lambda>value.
     if c \<noteq> length p then Inl (wal_corrupt start WalMalformedRecord)
     else Inr \<lparr>w_lsn = l, w_version = record_version, w_collection = coll, w_op = op,
               w_key = key, w_value = value\<rparr>))))))))))"

section \<open>Frames and the scan\<close>

definition record_crc :: "crc_functions \<Rightarrow> bytes \<Rightarrow> u32" where
  "record_crc cf payload =
     crc32c_append cf (crc32c_append cf (crc32c cf (le_bytes 4 raw_wal_record_magic))
       (le_bytes 4 (of_nat (length payload) :: u32))) payload"

text \<open>The four pieces \<open>emit_encoded\<close> writes, in order.\<close>

definition frame_parts :: "crc_functions \<Rightarrow> bytes \<Rightarrow> bytes list" where
  "frame_parts cf payload =
     [le_bytes 4 raw_wal_record_magic, le_bytes 4 (of_nat (length payload) :: u32), payload,
      le_bytes 4 (record_crc cf payload)]"

definition frame :: "crc_functions \<Rightarrow> bytes \<Rightarrow> bytes" where
  "frame cf payload = concat (frame_parts cf payload)"

function scan_loop ::
    "crc_functions \<Rightarrow> (raw_wal_record \<Rightarrow> 's \<Rightarrow> unit store_result \<times> 's) \<Rightarrow> bytes \<Rightarrow> nat \<Rightarrow>
     raw_wal_replay_stats \<Rightarrow> nat \<Rightarrow> 's \<Rightarrow> (raw_wal_replay_stats \<times> nat) store_result \<times> 's" where
  "scan_loop cf on_record file start stats good st =
     (if start = length file then (Inr (stats, good), st)
      else if length file - start < header_len then (Inr (stats, good), st)
      else if (from_le (take 4 (drop start file)) :: u32) \<noteq> raw_wal_record_magic
        then (Inl (wal_corrupt start WalBadMagic), st)
      else
        let payload_len = unat (from_le (take 4 (drop (start + 4) file)) :: u32);
            record_len = header_len + payload_len + checksum_len in
        if start + record_len > length file then (Inr (stats, good), st)
        else if payload_len > raw_wal_max_payload_bytes
          then (Inl (wal_corrupt start WalPayloadTooLarge), st)
        else
          let payload = take payload_len (drop (start + header_len) file);
              stored_crc = from_le (take 4 (drop (start + header_len + payload_len) file)) in
          if record_crc cf payload \<noteq> stored_crc then
            (if start + record_len = length file then (Inr (stats, good), st)
             else (Inl (wal_corrupt start WalChecksumMismatch), st))
          else case decode_payload payload start of
            Inl e \<Rightarrow> (Inl e, st)
          | Inr r \<Rightarrow>
              if w_lsn r \<le> stat_last_lsn stats then (Inl (wal_corrupt start WalNonMonotonicLsn), st)
              else case on_record r st of
                (Inl e, st) \<Rightarrow> (Inl e, st)
              | (Inr _, st) \<Rightarrow>
                  scan_loop cf on_record file (start + record_len)
                    \<lparr>stat_records = stat_records stats + 1, stat_last_lsn = w_lsn r\<rparr>
                    (start + record_len) st)"
  by pat_completeness auto
termination
  by (relation "measure (\<lambda>(cf, f, file, start, _). length file - start)")
    (auto simp: header_len_def checksum_len_def)

declare scan_loop.simps [simp del]

definition empty_stats :: raw_wal_replay_stats where
  "empty_stats = \<lparr>stat_records = 0, stat_last_lsn = 0\<rparr>"

text \<open>\<open>scan_records_with_offsets\<close> on the content of the file, \<open>None\<close> when it does not exist.\<close>

definition scan_records_with_offsets ::
    "crc_functions \<Rightarrow> bytes option \<Rightarrow> (raw_wal_record \<Rightarrow> 's \<Rightarrow> unit store_result \<times> 's) \<Rightarrow> 's \<Rightarrow>
     (raw_wal_replay_stats \<times> nat) store_result \<times> 's" where
  "scan_records_with_offsets cf file on_record st = (case file of
     None \<Rightarrow> (Inr (empty_stats, 0), st)
   | Some bs \<Rightarrow> scan_loop cf on_record bs 0 empty_stats 0 st)"

definition scan_records ::
    "crc_functions \<Rightarrow> bytes option \<Rightarrow> (raw_wal_record \<Rightarrow> 's \<Rightarrow> unit store_result \<times> 's) \<Rightarrow> 's \<Rightarrow>
     raw_wal_replay_stats store_result \<times> 's" where
  "scan_records cf file on_record st =
     map_prod (\<lambda>r. and_then r (\<lambda>(stats, _). Inr stats)) id (scan_records_with_offsets cf file on_record st)"

definition collect_record :: "raw_wal_record \<Rightarrow> raw_wal_record list \<Rightarrow> unit store_result \<times> raw_wal_record list" where
  "collect_record r rs = (Inr (), rs @ [r])"

definition read_records :: "crc_functions \<Rightarrow> bytes option \<Rightarrow> raw_wal_record list store_result" where
  "read_records cf file = (case scan_records cf file collect_record [] of
     (Inl e, _) \<Rightarrow> Inl e
   | (Inr _, rs) \<Rightarrow> Inr rs)"


section \<open>The payload codec\<close>

interpretation wal_rd: cursor_reader "wal_read_exact offset" "wal_corrupt offset WalMalformedRecord" for offset
  by unfold_locales (simp add: wal_read_exact_def)

definition payload_of :: "raw_wal_record \<Rightarrow> bytes" where
  "payload_of r = le_bytes 2 raw_wal_format_version @ le_bytes 8 (w_lsn r) @ le_bytes 8 (w_version r)
     @ prefixed (as_bytes (w_collection r)) @ op_code (w_op r) # prefixed (w_key r)
     @ prefixed (case w_value r of Some v \<Rightarrow> v | None \<Rightarrow> [])"

definition fields_fit :: "raw_wal_record \<Rightarrow> bool" where
  "fields_fit r \<longleftrightarrow> length (w_collection r) \<le> raw_wal_max_field_bytes \<and> length (w_key r) \<le> raw_wal_max_field_bytes
     \<and> (\<forall>v. w_value r = Some v \<longrightarrow> length v \<le> raw_wal_max_field_bytes)
     \<and> (w_op r = Put \<longleftrightarrow> w_value r \<noteq> None)"

definition readable :: "raw_wal_record \<Rightarrow> bool" where
  "readable r \<longleftrightarrow> fields_fit r \<and> w_collection r \<noteq> [] \<and> rust_string (w_collection r)"

lemma max_field_small: "raw_wal_max_field_bytes < 2 ^ 32" "raw_wal_max_field_bytes \<le> u32_max"
  by (simp_all add: raw_wal_max_field_bytes_def u32_max_def)

lemma validate_field_len_iff: "validate_field_len n = Inr () \<longleftrightarrow> n \<le> raw_wal_max_field_bytes"
  using max_field_small by (auto simp: validate_field_len_def)

lemma write_len_prefixed_eq [simp]: "write_len_prefixed = prefixed"
  by (simp add: fun_eq_iff write_len_prefixed_def prefixed_def)

lemma prefixed_Nil: "prefixed [] = le_bytes 4 (0 :: u32)"
  by (simp add: prefixed_def)

lemma encode_payload_Inr_iff:
  "encode_payload l version coll op key vo = Inr p \<longleftrightarrow>
     (let r = \<lparr>w_lsn = l, w_version = version, w_collection = coll, w_op = op, w_key = key, w_value = vo\<rparr>
      in fields_fit r \<and> p = payload_of r)"
  by (cases op; cases vo)
    (auto simp: encode_payload_def and_then_Inr_iff validate_field_len_iff fields_fit_def payload_of_def
      Let_def prefixed_Nil)

lemma wal_read_u8_at: "at_cursor p c (b # r) \<Longrightarrow> wal_read_u8 off p c = Inr (b, c + 1)"
  by (frule at_cursor_length) (auto simp: wal_read_u8_def at_cursor_def nth_via_drop)

lemma wal_read_u8_InrD:
  "wal_read_u8 off p c = Inr (b, c') \<Longrightarrow> c \<le> length p \<Longrightarrow> c' = c + 1 \<and> c' \<le> length p \<and> at_cursor p c (b # drop c' p)"
  by (auto simp: wal_read_u8_def at_cursor_def Cons_nth_drop_Suc split: if_splits)

lemma wal_read_bytes_at:
  "at_cursor p c (prefixed bs @ r) \<Longrightarrow> length bs \<le> raw_wal_max_field_bytes \<Longrightarrow>
     wal_read_bytes off p c = Inr (bs, c + length (prefixed bs))"
  unfolding wal_read_bytes_def by (rule wal_rd.read_prefixed_at [OF _ _ max_field_small(1)])

lemma wal_read_bytes_InrD:
  "wal_read_bytes off p c = Inr (bs, c') \<Longrightarrow> c \<le> length p \<Longrightarrow>
     c' = c + 4 + length bs \<and> c' \<le> length p \<and> length bs \<le> raw_wal_max_field_bytes \<and> at_cursor p c (prefixed bs @ drop c' p)"
  unfolding wal_read_bytes_def by (drule (1) wal_rd.read_prefixed_InrD [OF _ _ max_field_small(1)]) auto

lemma decode_payload_of:
  assumes "readable r"
  shows "decode_payload (payload_of r) off = Inr r"
proof -
  let ?p = "payload_of r" and ?v = "case w_value r of Some v \<Rightarrow> v | None \<Rightarrow> []"
  note f = assms [unfolded readable_def fields_fit_def]
  have a0: "at_cursor ?p 0 (le_bytes 2 raw_wal_format_version @ (le_bytes 8 (w_lsn r) @ (le_bytes 8 (w_version r)
     @ (prefixed (as_bytes (w_collection r)) @ (op_code (w_op r) # prefixed (w_key r) @ prefixed ?v @ [])))))"
    by (simp add: payload_of_def)
  note a1 = at_cursor_advance [OF a0, simplified length_le_bytes]
  note a2 = at_cursor_advance [OF a1, simplified length_le_bytes]
  note a3 = at_cursor_advance [OF a2, simplified length_le_bytes]
  note a4 = at_cursor_advance [OF a3]
  have a5: "at_cursor ?p (0 + 2 + 8 + 8 + length (prefixed (as_bytes (w_collection r))) + 1) (prefixed (w_key r) @ (prefixed ?v @ []))"
    using at_cursor_Cons [OF a4] by simp
  note a6 = at_cursor_advance [OF a5]
  note e = at_cursor_end [OF at_cursor_advance [OF a6]]
  have r0: "read_le (wal_read_exact off) 2 ?p 0 = Inr (raw_wal_format_version, 0 + 2)" by (rule wal_rd.read_le_at [OF a0]) simp
  have r1: "read_le (wal_read_exact off) 8 ?p (0 + 2) = Inr (w_lsn r, 0 + 2 + 8)" by (rule wal_rd.read_le_at [OF a1]) simp
  have r2: "read_le (wal_read_exact off) 8 ?p (0 + 2 + 8) = Inr (w_version r, 0 + 2 + 8 + 8)" by (rule wal_rd.read_le_at [OF a2]) simp
  have r3: "wal_read_bytes off ?p (0 + 2 + 8 + 8) = Inr (as_bytes (w_collection r), 0 + 2 + 8 + 8 + length (prefixed (as_bytes (w_collection r))))"
    by (rule wal_read_bytes_at [OF a3]) (use f in simp)
  note r4 = wal_read_u8_at [OF a4, of off]
  have r5: "wal_read_bytes off ?p (0 + 2 + 8 + 8 + length (prefixed (as_bytes (w_collection r))) + 1) =
      Inr (w_key r, 0 + 2 + 8 + 8 + length (prefixed (as_bytes (w_collection r))) + 1 + length (prefixed (w_key r)))"
    by (rule wal_read_bytes_at [OF a5]) (use f in simp)
  have "length ?v \<le> raw_wal_max_field_bytes" using f by (cases "w_value r") auto
  note r6 = wal_read_bytes_at [OF a6 this, of off]
  show ?thesis
    using r0 r1 r2 r3 r4 r5 r6 e f
    by (cases "w_op r"; cases "w_value r") (simp_all add: decode_payload_def)
qed

lemma decode_payload_InrD:
  assumes "decode_payload p off = Inr r"
  shows "readable r \<and> p = payload_of r"
proof -
  from assms obtain c1 c2 c3 cb c4 code c5 c6 vb where
    r0: "read_le (wal_read_exact off) 2 p 0 = Inr (raw_wal_format_version, c1)"
    and r1: "read_le (wal_read_exact off) 8 p c1 = Inr (w_lsn r, c2)"
    and r2: "read_le (wal_read_exact off) 8 p c2 = Inr (w_version r, c3)"
    and r3: "wal_read_bytes off p c3 = Inr (cb, c4)" and u: "from_utf8 cb = Some (w_collection r)"
    and ne: "w_collection r \<noteq> []"
    and r4: "wal_read_u8 off p c4 = Inr (code, c5)"
    and op: "(if code = 1 then Inr Put else if code = 2 then Inr Delete else Inl (wal_corrupt off WalUnknownOperation)) = Inr (w_op r)"
    and r5: "wal_read_bytes off p c5 = Inr (w_key r, c6)"
    and r6: "wal_read_bytes off p c6 = Inr (vb, length p)"
    and v: "(case w_op r of Put \<Rightarrow> Inr (Some vb) | Delete \<Rightarrow> if vb = [] then Inr None else Inl (wal_corrupt off WalMalformedRecord)) = Inr (w_value r)"
    unfolding decode_payload_def and_then_Inr_iff by (auto simp: and_then_Inr_iff split: if_splits)
  have e1: "c1 = 2" "c1 \<le> length p" "at_cursor p 0 (le_bytes 2 raw_wal_format_version @ drop c1 p)"
    using wal_rd.read_le_InrD [OF r0] by auto
  have e2: "c2 \<le> length p" "at_cursor p c1 (le_bytes 8 (w_lsn r) @ drop c2 p)"
    using wal_rd.read_le_InrD [OF r1 e1(2)] by auto
  have e3: "c3 \<le> length p" "at_cursor p c2 (le_bytes 8 (w_version r) @ drop c3 p)"
    using wal_rd.read_le_InrD [OF r2 e2(1)] by auto
  note e4 = wal_read_bytes_InrD [OF r3 e3(1)]
  have e5: "c5 \<le> length p" "at_cursor p c4 (code # drop c5 p)"
    using wal_read_u8_InrD [OF r4] e4 by auto
  note e6 = wal_read_bytes_InrD [OF r5 e5(1)]
  have e7: "length vb \<le> raw_wal_max_field_bytes" "at_cursor p c6 (prefixed vb @ [])"
    using wal_read_bytes_InrD [OF r6] e6 by auto
  have code: "code = op_code (w_op r)" using op by (auto split: if_splits)
  have cb: "cb = as_bytes (w_collection r)" "rust_string (w_collection r)" using from_utf8_SomeD [OF u] by auto
  have vb: "vb = (case w_value r of Some v \<Rightarrow> v | None \<Rightarrow> [])" "w_op r = Put \<longleftrightarrow> w_value r \<noteq> None"
    using v by (cases "w_op r"; cases "w_value r"; auto split: if_splits)+
  have "p = payload_of r"
    using e1(3) e2(2) e3(2) e4 e5(2) e6 e7(2) code cb(1) vb(1) by (simp add: at_cursor_def payload_of_def)
  moreover have "readable r"
    using e4 e6 e7(1) cb ne vb by (auto simp: readable_def fields_fit_def)
  ultimately show ?thesis by simp
qed

lemma decode_payload_iff: "decode_payload p off = Inr r \<longleftrightarrow> readable r \<and> p = payload_of r"
  using decode_payload_of decode_payload_InrD by blast

section \<open>Logs\<close>

definition record_frame :: "crc_functions \<Rightarrow> raw_wal_record \<Rightarrow> bytes" where
  "record_frame cf r = frame cf (payload_of r)"

definition log_bytes :: "crc_functions \<Rightarrow> raw_wal_record list \<Rightarrow> bytes" where
  "log_bytes cf rs = concat (map (record_frame cf) rs)"

fun ascending :: "lsn \<Rightarrow> raw_wal_record list \<Rightarrow> bool" where
  "ascending l [] = True"
| "ascending l (r # rs) = (l < w_lsn r \<and> ascending (w_lsn r) rs)"

definition loggable :: "raw_wal_record \<Rightarrow> bool" where
  "loggable r \<longleftrightarrow> readable r \<and> length (payload_of r) \<le> raw_wal_max_payload_bytes"

definition valid_log :: "lsn \<Rightarrow> raw_wal_record list \<Rightarrow> bool" where
  "valid_log l rs \<longleftrightarrow> list_all loggable rs \<and> ascending l rs"

fun last_lsn_of :: "lsn \<Rightarrow> raw_wal_record list \<Rightarrow> lsn" where
  "last_lsn_of l [] = l"
| "last_lsn_of l (r # rs) = last_lsn_of (w_lsn r) rs"

text \<open>Feeding records to the callback until one fails.\<close>

fun run_records :: "(raw_wal_record \<Rightarrow> 's \<Rightarrow> unit store_result \<times> 's) \<Rightarrow> raw_wal_record list \<Rightarrow> 's \<Rightarrow> unit store_result \<times> 's" where
  "run_records f [] st = (Inr (), st)"
| "run_records f (r # rs) st = (case f r st of
     (Inl e, st') \<Rightarrow> (Inl e, st')
   | (Inr _, st') \<Rightarrow> run_records f rs st')"

lemma log_bytes_simps [simp]:
  "log_bytes cf [] = []"
  "log_bytes cf (r # rs) = record_frame cf r @ log_bytes cf rs"
  "log_bytes cf (rs @ rs') = log_bytes cf rs @ log_bytes cf rs'"
  by (simp_all add: log_bytes_def)

lemma ascending_append: "ascending l (rs @ rs') \<longleftrightarrow> ascending l rs \<and> ascending (last_lsn_of l rs) rs'"
  by (induction rs arbitrary: l) auto

lemma valid_log_simps [simp]:
  "valid_log l []"
  "valid_log l (r # rs) \<longleftrightarrow> loggable r \<and> l < w_lsn r \<and> valid_log (w_lsn r) rs"
  "valid_log l (rs @ rs') \<longleftrightarrow> valid_log l rs \<and> valid_log (last_lsn_of l rs) rs'"
  by (auto simp: valid_log_def ascending_append)

lemma last_lsn_of_append [simp]: "last_lsn_of l (rs @ rs') = last_lsn_of (last_lsn_of l rs) rs'"
  by (induction rs arbitrary: l) auto

lemma length_frame: "length (frame cf p) = 12 + length p"
  by (simp add: frame_def frame_parts_def)

lemma length_record_frame [simp]: "length (record_frame cf r) = 12 + length (payload_of r)"
  by (simp add: record_frame_def length_frame)

lemma payload_small: "n \<le> raw_wal_max_payload_bytes \<Longrightarrow> n < 2 ^ 32"
  by (simp add: raw_wal_max_payload_bytes_def)

lemma frame_fields:
  assumes "drop start file = frame cf p @ rest" and "length p < 2 ^ 32"
  shows "(from_le (take 4 (drop start file)) :: u32) = raw_wal_record_magic"
    and "unat (from_le (take 4 (drop (start + 4) file)) :: u32) = length p"
    and "take (length p) (drop (start + 8) file) = p"
    and "(from_le (take 4 (drop (start + 8 + length p) file)) :: u32) = record_crc cf p"
    and "start + (12 + length p) \<le> length file" and "drop (start + (12 + length p)) file = rest"
proof -
  have d: "drop (start + n) file = drop n (frame cf p @ rest)" for n
    by (metis assms(1) add.commute drop_drop)
  show "(from_le (take 4 (drop start file)) :: u32) = raw_wal_record_magic"
    using assms(1) by (simp add: frame_def frame_parts_def)
  show "unat (from_le (take 4 (drop (start + 4) file)) :: u32) = length p"
    using assms(2) by (simp add: d frame_def frame_parts_def unat_of_nat_u32)
  show "take (length p) (drop (start + 8) file) = p" by (simp add: d frame_def frame_parts_def)
  show "(from_le (take 4 (drop (start + 8 + length p) file)) :: u32) = record_crc cf p"
    using d [of "8 + length p"] by (simp add: frame_def frame_parts_def add.assoc)
  show "drop (start + (12 + length p)) file = rest" by (simp add: d length_frame)
  have "length file - start = length (frame cf p @ rest)" by (metis assms(1) length_drop)
  then show "start + (12 + length p) \<le> length file" by (simp add: length_frame)
qed

lemma scan_step:
  assumes "drop start file = record_frame cf r @ rest" and "loggable r" and "stat_last_lsn stats < w_lsn r"
  shows "scan_loop cf f file start stats good st = (case f r st of
      (Inl e, st) \<Rightarrow> (Inl e, st)
    | (Inr _, st) \<Rightarrow> scan_loop cf f file (start + length (record_frame cf r))
        \<lparr>stat_records = stat_records stats + 1, stat_last_lsn = w_lsn r\<rparr> (start + length (record_frame cf r)) st)"
proof -
  have l: "length (payload_of r) \<le> raw_wal_max_payload_bytes" and r: "readable r"
    using assms(2) by (auto simp: loggable_def)
  note ff = frame_fields [OF assms(1) [unfolded record_frame_def] payload_small [OF l]]
  have "\<not> start = length file" "\<not> length file - start < 8" using ff(5) by simp_all
  with ff l assms(3) decode_payload_of [OF r, of start] show ?thesis
    unfolding length_record_frame
    by (subst scan_loop.simps)
      (simp add: header_len_def checksum_len_def Let_def not_le [symmetric])
qed

definition add_stats :: "raw_wal_replay_stats \<Rightarrow> raw_wal_record list \<Rightarrow> raw_wal_replay_stats" where
  "add_stats stats rs = \<lparr>stat_records = stat_records stats + length rs,
     stat_last_lsn = last_lsn_of (stat_last_lsn stats) rs\<rparr>"

lemma add_stats_simps [simp]:
  "add_stats stats [] = stats"
  "add_stats \<lparr>stat_records = stat_records stats + 1, stat_last_lsn = w_lsn r\<rparr> rs = add_stats stats (r # rs)"
  by (cases stats, simp_all add: add_stats_def)

lemma scan_log:
  assumes "drop start file = log_bytes cf rs @ tail" and "valid_log (stat_last_lsn stats) rs"
  shows "scan_loop cf f file start stats good st = (case run_records f rs st of
      (Inl e, st) \<Rightarrow> (Inl e, st)
    | (Inr _, st) \<Rightarrow> scan_loop cf f file (start + length (log_bytes cf rs)) (add_stats stats rs)
        (if rs = [] then good else start + length (log_bytes cf rs)) st)"
  using assms
proof (induction rs arbitrary: start stats good st)
  case Nil
  then show ?case by simp
next
  case (Cons r rs)
  have d: "drop start file = record_frame cf r @ (log_bytes cf rs @ tail)" using Cons.prems(1) by simp
  have v: "loggable r" "stat_last_lsn stats < w_lsn r" "valid_log (w_lsn r) rs" using Cons.prems(2) by simp_all
  note step = scan_step [OF d v(1,2), where f = f and good = good and st = st]
  have d': "drop (start + length (record_frame cf r)) file = log_bytes cf rs @ tail"
    using d by (metis append_eq_conv_conj add.commute drop_drop)
  let ?stats = "\<lparr>stat_records = stat_records stats + 1, stat_last_lsn = w_lsn r\<rparr>"
  obtain res st1 where f: "f r st = (res, st1)" by fastforce
  show ?case
  proof (cases res)
    case (Inl e)
    with f step show ?thesis by simp
  next
    case (Inr u)
    have "valid_log (stat_last_lsn ?stats) rs" using v(3) by simp
    note ih = Cons.IH [OF d' this, of "start + length (record_frame cf r)" st1]
    have "scan_loop cf f file start stats good st =
        scan_loop cf f file (start + length (record_frame cf r)) ?stats (start + length (record_frame cf r)) st1"
      using step f Inr by simp
    also note ih
    also have "(if rs = [] then start + length (record_frame cf r)
        else start + length (record_frame cf r) + length (log_bytes cf rs)) = start + length (log_bytes cf (r # rs))"
      by simp
    finally show ?thesis using f Inr by (simp only: run_records.simps add_stats_simps log_bytes_simps length_append
          prod.case sum.case add.assoc if_False list.distinct)
  qed
qed

section \<open>Torn tails\<close>

text \<open>What may follow the last complete record: too few bytes for a header or for the record its header
  announces, or a last record whose checksum is wrong.\<close>

definition torn :: "crc_functions \<Rightarrow> bytes \<Rightarrow> bool" where
  "torn cf tail \<longleftrightarrow> length tail < header_len \<or>
     (from_le (take 4 tail) :: u32) = raw_wal_record_magic \<and>
     (let n = unat (from_le (take 4 (drop 4 tail)) :: u32) in
        length tail < 12 + n \<or>
        length tail = 12 + n \<and> n \<le> raw_wal_max_payload_bytes \<and>
        record_crc cf (take n (drop 8 tail)) \<noteq> from_le (take 4 (drop (8 + n) tail)))"

lemma drop_plus: "drop start file = tail \<Longrightarrow> drop (start + n) file = drop n tail"
  by (metis add.commute drop_drop)

lemma scan_torn:
  assumes "drop start file = tail" and "start \<le> length file" and "torn cf tail"
  shows "scan_loop cf f file start stats good st = (Inr (stats, good), st)"
proof -
  have l: "length file = start + length tail" using assms(1,2) by auto
  note d = drop_plus [OF assms(1)]
  define n where "n = unat (from_le (take 4 (drop 4 tail)) :: u32)"
  define m where "m = (from_le (take 4 tail) :: u32)"
  define sc where "sc = (from_le (take 4 (drop (8 + n) tail)) :: u32)"
  have fields: "(from_le (take 4 (drop start file)) :: u32) = m"
    "unat (from_le (take 4 (drop (start + 4) file)) :: u32) = n"
    "(from_le (take 4 (drop (start + 8 + n) file)) :: u32) = sc"
    by (simp_all add: n_def m_def sc_def assms(1) d add.assoc)
  consider (short) "length tail < 8"
    | (part) "\<not> length tail < 8" "m = raw_wal_record_magic" "length tail < 12 + n"
    | (bad) "\<not> length tail < 8" "m = raw_wal_record_magic" "length tail = 12 + n"
        "n \<le> raw_wal_max_payload_bytes" "record_crc cf (take n (drop 8 tail)) \<noteq> sc"
    using assms(3) unfolding torn_def header_len_def Let_def n_def m_def sc_def by blast
  then show ?thesis
  proof cases
    case short
    with l show ?thesis by (subst scan_loop.simps) (simp add: header_len_def)
  next
    case part
    with l show ?thesis
      by (subst scan_loop.simps) (simp add: header_len_def checksum_len_def Let_def fields)
  next
    case bad
    have "take n (drop (start + 8) file) = take n (drop 8 tail)" by (simp add: d)
    moreover have "(from_le (drop (start + 8 + n) file) :: u32) = sc" using fields(3) bad(3) l by simp
    ultimately show ?thesis using bad l
      by (subst scan_loop.simps) (simp add: header_len_def checksum_len_def Let_def fields)
  qed
qed

lemma torn_Nil [simp]: "torn cf []"
  by (simp add: torn_def header_len_def)

lemma torn_prefix:
  assumes "strict_prefix tail (frame cf p)" and "length p < 2 ^ 32"
  shows "torn cf tail"
proof -
  obtain rest where r: "frame cf p = tail @ rest" "rest \<noteq> []" using assms(1) by (auto simp: strict_prefix_def prefix_def)
  have lt: "length tail < 12 + length p" using r length_frame [of cf p] by (metis length_append length_greater_0_conv less_add_same_cancel1)
  show ?thesis
  proof (cases "length tail < header_len")
    case False
    then have l8: "8 \<le> length tail" by (simp add: header_len_def)
    have "take 8 tail = take 8 (frame cf p)" using r l8 by simp
    also have "\<dots> = le_bytes 4 raw_wal_record_magic @ le_bytes 4 (of_nat (length p) :: u32)"
      by (simp add: frame_def frame_parts_def)
    finally have t8: "take 8 tail = le_bytes 4 raw_wal_record_magic @ le_bytes 4 (of_nat (length p) :: u32)" .
    have "take 4 tail = take 4 (take 8 tail)" "take 4 (drop 4 tail) = drop 4 (take 8 tail)"
      by (simp_all add: drop_take)
    with t8 lt assms(2) show ?thesis by (simp add: torn_def unat_of_nat_u32)
  qed (simp add: torn_def)
qed

lemma scan_records_log:
  assumes "valid_log 0 rs" and "torn cf tail"
  shows "scan_records_with_offsets cf (Some (log_bytes cf rs @ tail)) f st = (case run_records f rs st of
      (Inl e, st) \<Rightarrow> (Inl e, st)
    | (Inr _, st) \<Rightarrow> (Inr (add_stats empty_stats rs, length (log_bytes cf rs)), st))"
proof -
  let ?file = "log_bytes cf rs @ tail"
  have "valid_log (stat_last_lsn empty_stats) rs" using assms(1) by (simp add: empty_stats_def)
  note s = scan_log [of 0 ?file cf rs tail, OF _ this, of f 0 st]
  have "scan_loop cf f ?file (0 + length (log_bytes cf rs)) stats good st' = (Inr (stats, good), st')" for stats good st'
    by (rule scan_torn [OF _ _ assms(2)]) simp_all
  with s show ?thesis
    by (auto simp: scan_records_with_offsets_def split: prod.splits sum.splits)
qed

section \<open>What a scan accepts\<close>

lemma frame_of_fields:
  assumes "(from_le (take 4 (drop start file)) :: u32) = raw_wal_record_magic"
    and "n = unat (from_le (take 4 (drop (start + 4) file)) :: u32)"
    and "start + (12 + n) \<le> length file"
    and "record_crc cf (take n (drop (start + 8) file)) = from_le (take 4 (drop (start + 8 + n) file))"
  shows "drop start file = frame cf (take n (drop (start + 8) file)) @ drop (start + (12 + n)) file"
proof -
  define t where "t = drop start file"
  have d: "drop (start + i) file = drop i t" for i by (simp add: t_def add.commute)
  have l: "12 + n \<le> length t" using assms(3) by (simp add: t_def)
  have m: "le_bytes 4 raw_wal_record_magic = take 4 t"
    using assms(1) l by (simp flip: assms(1) t_def add: le_bytes_from_le)
  have "le_bytes 4 (of_nat n :: u32) = le_bytes 4 (from_le (take 4 (drop 4 t)) :: u32)"
    using assms(2) d [of 4] by simp
  also have "\<dots> = take 4 (drop 4 t)" using l by (simp add: le_bytes_from_le)
  finally have le: "le_bytes 4 (of_nat n :: u32) = take 4 (drop 4 t)" .
  have c: "le_bytes 4 (record_crc cf (take n (drop 8 t))) = take 4 (drop (8 + n) t)"
    using assms(4) d [of 8] d [of "8 + n"] l by (simp add: le_bytes_from_le add.assoc)
  have ch: "drop a t = take b (drop a t) @ drop (a + b) t" for a b
    by (metis append_take_drop_id drop_drop add.commute)
  have "t = take 4 t @ drop 4 t" by simp
  also have "drop 4 t = take 4 (drop 4 t) @ drop 8 t" using ch [of 4 4] by simp
  also have "drop 8 t = take n (drop 8 t) @ drop (8 + n) t" by (rule ch)
  also have "drop (8 + n) t = take 4 (drop (8 + n) t) @ drop (12 + n) t" using ch [of "8 + n" 4] by (simp add: add.commute)
  finally have t: "t = take 4 t @ take 4 (drop 4 t) @ take n (drop 8 t) @ take 4 (drop (8 + n) t) @ drop (12 + n) t" .
  have f: "frame cf (take n (drop 8 t)) = take 4 t @ take 4 (drop 4 t) @ take n (drop 8 t) @ take 4 (drop (8 + n) t)"
    using m le c l by (simp add: frame_def frame_parts_def)
  show ?thesis using t unfolding t_def [symmetric] d f by (simp only: append_assoc)
qed

text \<open>At every offset the scan stops at a torn tail, reports an error without calling the callback, or
  stands before a complete record.\<close>

lemma scan_cases:
  fixes f :: "raw_wal_record \<Rightarrow> 's \<Rightarrow> unit store_result \<times> 's"
  assumes "start \<le> length bs"
  obtains (stop) "torn cf (drop start bs)"
    | (corrupt) e where "\<And>stats good st. stat_last_lsn stats = l \<Longrightarrow> scan_loop cf f bs start stats good st = (Inl e, st)"
    | (complete) r where "drop start bs = record_frame cf r @ drop (start + length (record_frame cf r)) bs"
        "loggable r" "l < w_lsn r"
proof -
  define t where "t = drop start bs"
  define n where "n = unat (from_le (take 4 (drop (start + 4) bs)) :: u32)"
  define p where "p = take n (drop (start + 8) bs)"
  define sc where "sc = (from_le (take 4 (drop (start + 8 + n) bs)) :: u32)"
  define m where "m = (from_le (take 4 (drop start bs)) :: u32)"
  have lt: "length bs = start + length t" using assms by (simp add: t_def)
  have tt: "torn cf t \<longleftrightarrow> length t < 8 \<or> m = raw_wal_record_magic \<and> (length t < 12 + n \<or>
      length t = 12 + n \<and> n \<le> raw_wal_max_payload_bytes \<and> record_crc cf p \<noteq> sc)"
    by (simp add: torn_def t_def n_def m_def sc_def p_def header_len_def Let_def add_ac)
  note unf = scan_loop.simps [of cf f bs start, unfolded header_len_def checksum_len_def Let_def lt,
      folded n_def, folded m_def p_def sc_def]
  define e where "e = (if m \<noteq> raw_wal_record_magic then wal_corrupt start WalBadMagic
      else if n > raw_wal_max_payload_bytes then wal_corrupt start WalPayloadTooLarge
      else if record_crc cf p \<noteq> sc then wal_corrupt start WalChecksumMismatch
      else case decode_payload p start of Inl e \<Rightarrow> e | Inr _ \<Rightarrow> wal_corrupt start WalNonMonotonicLsn)"
  have er: "scan_loop cf f bs start stats good st = (Inl e, st)" if "stat_last_lsn stats = l"
    "\<not> torn cf t" "\<not> (m = raw_wal_record_magic \<and> 12 + n \<le> length t \<and> n \<le> raw_wal_max_payload_bytes \<and>
      record_crc cf p = sc \<and> (\<exists>r. decode_payload p start = Inr r \<and> l < w_lsn r))" for stats good st
    using that unfolding tt e_def unf
    by (cases "decode_payload p start") (auto simp: not_less)
  show thesis
  proof (cases "torn cf t \<or> \<not> (m = raw_wal_record_magic \<and> 12 + n \<le> length t \<and> n \<le> raw_wal_max_payload_bytes \<and>
      record_crc cf p = sc \<and> (\<exists>r. decode_payload p start = Inr r \<and> l < w_lsn r))")
    case True
    then show thesis using stop corrupt [of e] er unfolding t_def by blast
  next
    case False
    then obtain r where r: "decode_payload p start = Inr r" "l < w_lsn r" by blast
    have pr: "readable r" "p = payload_of r" using decode_payload_InrD [OF r(1)] by auto
    have "12 + n \<le> length t" using False by blast
    then have lp: "length p = n" using lt by (simp add: p_def)
    have "drop start bs = record_frame cf r @ drop (start + (12 + n)) bs"
      using frame_of_fields [of start bs n cf] False lt pr(2)
      by (simp add: record_frame_def flip: m_def n_def p_def sc_def)
    then show thesis using complete [of r] r(2) pr lp False by (simp add: loggable_def)
  qed
qed

lemma scan_decompose:
  fixes f :: "raw_wal_record \<Rightarrow> 's \<Rightarrow> unit store_result \<times> 's"
  assumes "start \<le> length bs"
  shows "\<exists>rs tail. drop start bs = log_bytes cf rs @ tail \<and> valid_log l rs \<and> (torn cf tail \<or>
    (\<exists>e. \<forall>stats good st. stat_last_lsn stats = last_lsn_of l rs \<longrightarrow>
       scan_loop cf f bs (start + length (log_bytes cf rs)) stats good st = (Inl e, st)))"
  using assms
proof (induction "length bs - start" arbitrary: start l rule: less_induct)
  case less
  from less.prems show ?case
  proof (cases rule: scan_cases [where cf = cf and f = f and l = l])
    case stop
    then show ?thesis by (intro exI [of _ "[]"] exI [of _ "drop start bs"]) simp
  next
    case (corrupt e)
    then show ?thesis by (intro exI [of _ "[]"] exI [of _ "drop start bs"]) auto
  next
    case (complete r)
    let ?s = "start + length (record_frame cf r)"
    have le: "?s \<le> length bs"
      using arg_cong [OF complete(1), of length] by simp
    then have "length bs - ?s < length bs - start" by simp
    from less.hyps [OF this le, of "w_lsn r"] obtain rs tail where
      ih: "drop ?s bs = log_bytes cf rs @ tail" "valid_log (w_lsn r) rs" "torn cf tail \<or>
        (\<exists>e. \<forall>stats good st. stat_last_lsn stats = last_lsn_of (w_lsn r) rs \<longrightarrow>
           scan_loop cf f bs (?s + length (log_bytes cf rs)) stats good st = (Inl e, st))" by blast
    have "drop start bs = log_bytes cf (r # rs) @ tail" using complete(1) ih(1) by simp
    moreover have "valid_log l (r # rs)" using complete ih(2) by simp
    moreover have "torn cf tail \<or> (\<exists>e. \<forall>stats good st. stat_last_lsn stats = last_lsn_of l (r # rs) \<longrightarrow>
           scan_loop cf f bs (start + length (log_bytes cf (r # rs))) stats good st = (Inl e, st))"
      using ih(3) by (simp only: last_lsn_of.simps log_bytes_simps length_append add.assoc)
    ultimately show ?thesis by blast
  qed
qed

lemma run_collect: "run_records collect_record rs acc = (Inr (), acc @ rs)"
  by (induction rs arbitrary: acc) (simp_all add: collect_record_def)

lemma read_records_log: "valid_log 0 rs \<Longrightarrow> torn cf tail \<Longrightarrow> read_records cf (Some (log_bytes cf rs @ tail)) = Inr rs"
  by (simp add: read_records_def scan_records_def scan_records_log run_collect and_then_def)

lemma read_records_parts:
  assumes "read_records cf (Some bs) = Inr rs"
  obtains tail where "bs = log_bytes cf rs @ tail" "valid_log 0 rs" "torn cf tail"
proof -
  obtain rs' tail where d: "bs = log_bytes cf rs' @ tail" "valid_log 0 rs'" and
    alt: "torn cf tail \<or> (\<exists>e. \<forall>stats good st. stat_last_lsn stats = last_lsn_of 0 rs' \<longrightarrow>
       scan_loop cf collect_record bs (length (log_bytes cf rs')) stats good st = (Inl e, st))"
    using scan_decompose [of 0 bs cf 0 collect_record] by auto
  show thesis
  proof (cases "torn cf tail")
    case True
    with d assms read_records_log [OF d(2) True] that show thesis by simp
  next
    case False
    with alt obtain e where e: "\<And>stats good st. stat_last_lsn stats = last_lsn_of 0 rs' \<Longrightarrow>
       scan_loop cf collect_record bs (length (log_bytes cf rs')) stats good st = (Inl e, st)" by blast
    have v: "valid_log (stat_last_lsn empty_stats) rs'" using d(2) by (simp add: empty_stats_def)
    have "stat_last_lsn (add_stats empty_stats rs') = last_lsn_of 0 rs'" by (simp add: add_stats_def empty_stats_def)
    with scan_log [of 0 bs cf rs' tail empty_stats collect_record 0 "[]", OF _ v] d(1) e assms show thesis
      by (simp add: read_records_def scan_records_def scan_records_with_offsets_def run_collect and_then_def)
  qed
qed

section \<open>Properties\<close>

text \<open>C24. The payload decoder accepts exactly what the encoder writes for records with a non-empty
  collection name: decoding yields a record if and only if encoding that record yields the payload.\<close>

theorem wal_payload_codec:
  "decode_payload p start = Inr r \<longleftrightarrow>
     encode_payload (w_lsn r) (w_version r) (w_collection r) (w_op r) (w_key r) (w_value r) = Inr p
       \<and> w_collection r \<noteq> [] \<and> rust_string (w_collection r)"
  by (cases r) (auto simp: decode_payload_iff encode_payload_Inr_iff readable_def Let_def)

text \<open>C8. What the segment reader accepts: the file is a sequence of complete frames of well-formed
  records with strictly increasing sequence numbers, followed by a torn tail, and exactly the complete
  records are returned.\<close>

theorem read_records_iff:
  "read_records cf (Some bs) = Inr rs \<longleftrightarrow>
     (\<exists>tail. bs = log_bytes cf rs @ tail \<and> valid_log 0 rs \<and> torn cf tail)"
  using read_records_log by (blast elim: read_records_parts)

definition plain_crc :: crc_functions where
  "plain_crc = \<lparr>crc32c = (\<lambda>bs. of_nat (length bs)), crc32c_append = (\<lambda>c bs. c + of_nat (length bs))\<rparr>"

definition sample_record :: "lsn \<Rightarrow> raw_wal_record" where
  "sample_record l = \<lparr>w_lsn = l, w_version = 1, w_collection = ''c'', w_op = Put, w_key = [1], w_value = Some [2]\<rparr>"

lemma sample_loggable: "loggable (sample_record l)"
proof -
  have "rust_string ''c''" by code_simp
  then show ?thesis
    by (simp add: loggable_def readable_def fields_fit_def payload_of_def sample_record_def
        raw_wal_max_payload_bytes_def raw_wal_max_field_bytes_def)
qed

lemma list_neq_lengthI: "length xs \<noteq> length ys \<Longrightarrow> xs \<noteq> ys"
  by auto

text \<open>Segments in which a whole frame carries a payload that does not decode.\<close>

lemma scan_undecodable:
  assumes "drop start bs = frame cf p @ rest" and "length p \<le> raw_wal_max_payload_bytes"
    and "decode_payload p start = Inl e"
  shows "scan_loop cf f bs start stats good st = (Inl e, st)"
proof -
  note ff = frame_fields [OF assms(1) payload_small [OF assms(2)]]
  have "\<not> start = length bs" "\<not> length bs - start < 8" using ff(5) by simp_all
  with ff assms(2,3) show ?thesis
    by (subst scan_loop.simps) (simp add: header_len_def checksum_len_def Let_def)
qed

lemma read_undecodable:
  assumes "valid_log 0 rs" and "length p \<le> raw_wal_max_payload_bytes"
    and "decode_payload p (length (log_bytes cf rs)) = Inl e"
  shows "read_records cf (Some (log_bytes cf rs @ frame cf p @ rest)) = Inl e"
proof -
  let ?bs = "log_bytes cf rs @ frame cf p @ rest"
  have v: "valid_log (stat_last_lsn empty_stats) rs" using assms(1) by (simp add: empty_stats_def)
  note s = scan_log [of 0 ?bs cf rs "frame cf p @ rest" empty_stats collect_record 0 "[]", OF _ v]
  have "scan_loop cf collect_record ?bs (length (log_bytes cf rs)) stats good st = (Inl e, st)" for stats good st
    by (rule scan_undecodable [OF _ assms(2,3)]) simp
  with s show ?thesis
    by (simp add: read_records_def scan_records_def scan_records_with_offsets_def run_collect and_then_def)
qed

lemma prefixed_Nil_eq:
  assumes "prefixed bs @ xs = prefixed [] @ ys" and "length bs < 2 ^ 32"
  shows "bs = []"
proof -
  have "le_bytes 4 (of_nat (length bs) :: u32) = le_bytes 4 (0 :: u32)"
    using assms(1) by (simp add: prefixed_def)
  from arg_cong [OF this, of "from_le :: bytes \<Rightarrow> u32"] have "(of_nat (length bs) :: u32) = 0" by simp
  then have "unat (of_nat (length bs) :: u32) = 0" by simp
  then show ?thesis using assms(2) by (simp only: unat_of_nat_u32 length_0_conv)
qed

lemma empty_name_undecodable:
  assumes "encode_payload l v [] op k vo = Inr p"
  shows "\<exists>e. decode_payload p start = Inl e"
proof (cases "decode_payload p start")
  case (Inr r)
  from Inr have r: "readable r" "p = payload_of r" by (auto simp: decode_payload_iff)
  let ?r = "\<lparr>w_lsn = l, w_version = v, w_collection = [], w_op = op, w_key = k, w_value = vo\<rparr>"
  have "payload_of r = payload_of ?r" using assms r(2) by (simp add: encode_payload_Inr_iff Let_def)
  then have "prefixed (as_bytes (w_collection r)) @ op_code (w_op r) # prefixed (w_key r)
     @ prefixed (case w_value r of Some v \<Rightarrow> v | None \<Rightarrow> []) = prefixed [] @ op_code op # prefixed k
     @ prefixed (case vo of Some v \<Rightarrow> v | None \<Rightarrow> [])"
    by (simp add: payload_of_def as_bytes_def)
  moreover have "length (as_bytes (w_collection r)) < 2 ^ 32"
    using r(1) max_field_small(1) by (simp add: readable_def fields_fit_def)
  ultimately have "as_bytes (w_collection r) = []" by (rule prefixed_Nil_eq)
  with r(1) show ?thesis by (simp add: readable_def as_bytes_def)
qed simp

text \<open>C29. The writer encodes a record of the collection with the empty name, but no segment that
  contains it can be read again: every such read is an error, whatever follows the record.\<close>

theorem empty_collection_unreadable:
  assumes "encode_payload l v [] op k vo = Inr p" and "valid_log 0 rs"
    and "length p \<le> raw_wal_max_payload_bytes"
  shows "\<exists>e. read_records cf (Some (log_bytes cf rs @ frame cf p @ rest)) = Inl e"
  using empty_name_undecodable [OF assms(1)] read_undecodable [OF assms(2,3)] by blast

theorem empty_collection_unreadable_witness:
  "\<exists>p e. encode_payload 2 1 [] Delete [7] None = Inr p \<and>
     read_records plain_crc (Some (log_bytes plain_crc [sample_record 1] @ frame plain_crc p @ [])) = Inl e"
proof -
  let ?p = "payload_of \<lparr>w_lsn = 2, w_version = 1, w_collection = [], w_op = Delete, w_key = [7], w_value = None\<rparr>"
  have e: "encode_payload 2 1 [] Delete [7] None = Inr ?p"
    by (simp add: encode_payload_Inr_iff fields_fit_def raw_wal_max_field_bytes_def)
  have "valid_log 0 [sample_record 1]" using sample_loggable by (simp add: sample_record_def)
  moreover have "length ?p \<le> raw_wal_max_payload_bytes"
    by (simp add: payload_of_def raw_wal_max_payload_bytes_def)
  ultimately show ?thesis using e empty_collection_unreadable [OF e] by blast
qed

end
