(* ===== verification/Wal_Segment.thy ===== *)
theory Wal_Segment
  imports Wal_Codec Rust_Collections "HOL-Library.Sublist"
begin

text \<open>
  The segment writer, the append state and the compaction of \<open>store/wal.rs\<close>, on a model of the file
  system. A file is a byte list of which a prefix is known to be on stable storage; a crash keeps at
  least that prefix. The \<open>BufWriter\<close> of the standard library is modelled with its capacity and its
  copy, flush and write-through cases. I/O errors are an argument: for the label of an operation, the
  number of bytes written before the failure and the message. Reads from an open file succeed, and a
  file handle is identified with its path (the code closes a writer before it replaces its file).
\<close>

type_synonym ('s, 'a) op = "('s, store_error, 'a) action"

section \<open>Files\<close>

type_synonym io_faults = "string \<Rightarrow> (nat \<times> string) option"

record disk =
  disk_files :: "file_path \<Rightarrow> bytes option"
  disk_synced :: "file_path \<Rightarrow> nat"

definition wal_io :: "string \<Rightarrow> string \<Rightarrow> store_error" where
  "wal_io operation message = WalIo operation message"

definition io_step :: "io_faults \<Rightarrow> string \<Rightarrow> (disk \<Rightarrow> disk) \<Rightarrow> (disk, unit) op" where
  "io_step fl label f d = (case fl label of
     None \<Rightarrow> (Inr (), f d)
   | Some (_, message) \<Rightarrow> (Inl (wal_io label message), d))"

definition content :: "file_path \<Rightarrow> disk \<Rightarrow> bytes" where
  "content p d = (case disk_files d p of None \<Rightarrow> [] | Some bs \<Rightarrow> bs)"

definition file_create :: "file_path \<Rightarrow> disk \<Rightarrow> disk" where
  "file_create p d = d\<lparr>disk_files := (disk_files d)(p := Some (content p d))\<rparr>"

definition file_append :: "file_path \<Rightarrow> bytes \<Rightarrow> disk \<Rightarrow> disk" where
  "file_append p bs d = d\<lparr>disk_files := (disk_files d)(p := Some (content p d @ bs))\<rparr>"

definition file_set_len :: "file_path \<Rightarrow> nat \<Rightarrow> disk \<Rightarrow> disk" where
  "file_set_len p n d = d\<lparr>disk_files := (disk_files d)(p := Some (take n (content p d))),
     disk_synced := (disk_synced d)(p := min n (disk_synced d p))\<rparr>"

definition file_sync :: "file_path \<Rightarrow> disk \<Rightarrow> disk" where
  "file_sync p d = d\<lparr>disk_synced := (disk_synced d)(p := length (content p d))\<rparr>"

definition file_remove :: "file_path \<Rightarrow> disk \<Rightarrow> disk" where
  "file_remove p d = d\<lparr>disk_files := (disk_files d)(p := None), disk_synced := (disk_synced d)(p := 0)\<rparr>"

definition file_rename :: "file_path \<Rightarrow> file_path \<Rightarrow> disk \<Rightarrow> disk" where
  "file_rename p q d = d\<lparr>disk_files := (disk_files d)(q := disk_files d p, p := None),
     disk_synced := (disk_synced d)(q := disk_synced d p, p := 0)\<rparr>"

text \<open>A crash keeps a prefix of every file, at least what was synced; a file with no synced content may
  be gone. What survives is on stable storage.\<close>

definition crash :: "disk \<Rightarrow> disk \<Rightarrow> bool" where
  "crash d d' \<longleftrightarrow> (\<forall>p. disk_synced d' p = length (content p d') \<and>
     (case disk_files d p of
        None \<Rightarrow> disk_files d' p = None
      | Some bs \<Rightarrow> (\<exists>n \<ge> disk_synced d p. disk_files d' p = Some (take n bs))
          \<or> disk_synced d p = 0 \<and> disk_files d' p = None))"

section \<open>The buffered writer\<close>

record raw_wal_segment_writer =
  seg_path :: file_path
  seg_buf :: bytes
  seg_next_lsn :: u64
  seg_versions :: "(string \<times> raw_key, document_version) hmap"

type_synonym segment = "raw_wal_segment_writer \<times> disk"

definition buf_capacity :: nat where
  "buf_capacity = 8192"

definition flush_buf :: "io_faults \<Rightarrow> string \<Rightarrow> (segment, unit) op" where
  "flush_buf fl label = (\<lambda>(w, d).
     if seg_buf w = [] then (Inr (), (w, d))
     else case fl label of
       None \<Rightarrow> (Inr (), (w\<lparr>seg_buf := []\<rparr>, file_append (seg_path w) (seg_buf w) d))
     | Some (n, message) \<Rightarrow> (Inl (wal_io label message),
         (w\<lparr>seg_buf := drop n (seg_buf w)\<rparr>, file_append (seg_path w) (take n (seg_buf w)) d)))"

definition write_through :: "io_faults \<Rightarrow> string \<Rightarrow> bytes \<Rightarrow> (segment, unit) op" where
  "write_through fl label bs = (\<lambda>(w, d). case fl label of
     None \<Rightarrow> (Inr (), (w, file_append (seg_path w) bs d))
   | Some (n, message) \<Rightarrow> (Inl (wal_io label message), (w, file_append (seg_path w) (take n bs) d)))"

definition buf_copy :: "bytes \<Rightarrow> (segment, unit) op" where
  "buf_copy bs = (\<lambda>(w, d). (Inr (), (w\<lparr>seg_buf := seg_buf w @ bs\<rparr>, d)))"

definition spare :: "segment \<Rightarrow> nat" where
  "spare = (\<lambda>(w, d). buf_capacity - length (seg_buf w))"

definition write_all :: "io_faults \<Rightarrow> string \<Rightarrow> bytes \<Rightarrow> (segment, unit) op" where
  "write_all fl label bs s =
     (if length bs < spare s then buf_copy bs s
      else then_op (if length bs > spare s then flush_buf fl label else ret ())
        (\<lambda>_. if length bs \<ge> buf_capacity then write_through fl label bs else buf_copy bs) s)"

fun write_parts :: "io_faults \<Rightarrow> (string \<times> bytes) list \<Rightarrow> (segment, unit) op" where
  "write_parts fl [] = ret ()"
| "write_parts fl ((label, bs) # parts) = then_op (write_all fl label bs) (\<lambda>_. write_parts fl parts)"

definition frame_labels :: "string list" where
  "frame_labels = [''write raw WAL magic'', ''write raw WAL length'', ''write raw WAL payload'',
     ''write raw WAL checksum'']"

section \<open>Appending\<close>

definition emit_encoded ::
    "crc_functions \<Rightarrow> io_faults \<Rightarrow> lsn \<Rightarrow> document_version \<Rightarrow> string \<Rightarrow> operation \<Rightarrow> raw_key \<Rightarrow> raw_value option \<Rightarrow>
     (segment, unit) op" where
  "emit_encoded cf fl l version coll op key value = (case encode_payload l version coll op key value of
     Inl e \<Rightarrow> raise e
   | Inr scratch \<Rightarrow>
       if length scratch > u32_max then raise (WalCorruption 0 WalPayloadTooLarge)
       else write_parts fl (zip frame_labels (frame_parts cf scratch)))"

definition append_record ::
    "crc_functions \<Rightarrow> io_faults \<Rightarrow> string \<Rightarrow> operation \<Rightarrow> raw_key \<Rightarrow> raw_value option \<Rightarrow> document_version \<Rightarrow> bool \<Rightarrow>
     (segment, lsn) op" where
  "append_record cf fl coll op key value version track_version = (\<lambda>(w, d).
     let l = seg_next_lsn w in
     then_op (emit_encoded cf fl l version coll op key value)
       (\<lambda>_ (w, d). (Inr l, (if track_version
          then w\<lparr>seg_versions := hm_insert (coll, key) version (seg_versions w)\<rparr> else w, d)))
       (w\<lparr>seg_next_lsn := saturating_inc (seg_next_lsn w)\<rparr>, d))"

definition next_record_version :: "raw_wal_segment_writer \<Rightarrow> string \<Rightarrow> raw_key \<Rightarrow> document_version" where
  "next_record_version w coll key =
     (case map_of (seg_versions w) (coll, key) of Some v \<Rightarrow> v | None \<Rightarrow> 0) + 1"

definition append_put :: "crc_functions \<Rightarrow> io_faults \<Rightarrow> string \<Rightarrow> raw_key \<Rightarrow> raw_value \<Rightarrow> (segment, lsn) op" where
  "append_put cf fl coll key v s =
     append_record cf fl coll Put key (Some v) (next_record_version (fst s) coll key) True s"

definition append_delete :: "crc_functions \<Rightarrow> io_faults \<Rightarrow> string \<Rightarrow> raw_key \<Rightarrow> (segment, lsn) op" where
  "append_delete cf fl coll key s =
     append_record cf fl coll Delete key None (next_record_version (fst s) coll key) True s"

definition append_put_versioned ::
    "crc_functions \<Rightarrow> io_faults \<Rightarrow> string \<Rightarrow> raw_key \<Rightarrow> raw_value \<Rightarrow> document_version \<Rightarrow> (segment, lsn) op" where
  "append_put_versioned cf fl coll key v version = append_record cf fl coll Put key (Some v) version False"

definition append_delete_versioned ::
    "crc_functions \<Rightarrow> io_faults \<Rightarrow> string \<Rightarrow> raw_key \<Rightarrow> document_version \<Rightarrow> (segment, lsn) op" where
  "append_delete_versioned cf fl coll key version = append_record cf fl coll Delete key None version False"

definition append_record_exact :: "crc_functions \<Rightarrow> io_faults \<Rightarrow> raw_wal_record \<Rightarrow> (segment, unit) op" where
  "append_record_exact cf fl r = (\<lambda>(w, d).
     then_op (emit_encoded cf fl (w_lsn r) (w_version r) (w_collection r) (w_op r) (w_key r) (w_value r))
       (\<lambda>_ (w, d). (Inr (), (w\<lparr>seg_versions := hm_insert (w_collection r, w_key r) (w_version r) (seg_versions w)\<rparr>, d)))
       (w\<lparr>seg_next_lsn := max (seg_next_lsn w) (saturating_inc (w_lsn r))\<rparr>, d))"

definition wal_flush :: "io_faults \<Rightarrow> (segment, unit) op" where
  "wal_flush fl = flush_buf fl ''flush raw WAL segment''"

definition sync_now :: "io_faults \<Rightarrow> (segment, unit) op" where
  "sync_now fl = then_op (flush_buf fl ''flush raw WAL segment'')
     (\<lambda>_ (w, d). map_prod id (Pair w) (io_step fl ''sync raw WAL segment'' (file_sync (seg_path w)) d))"

section \<open>Opening\<close>

record raw_wal_append_state =
  as_next_lsn :: u64
  as_last_good_offset :: nat
  as_record_versions :: "(string \<times> raw_key, document_version) hmap"

definition note_record :: "raw_wal_record \<Rightarrow> (lsn \<times> (string \<times> raw_key, document_version) hmap, unit) op" where
  "note_record r = (\<lambda>(last_lsn, versions).
     (Inr (), (w_lsn r, hm_insert (w_collection r, w_key r) (w_version r) versions)))"

text \<open>Scanning the file at a path: opening and measuring it may fail.\<close>

definition scan_path ::
    "crc_functions \<Rightarrow> io_faults \<Rightarrow> file_path \<Rightarrow> disk \<Rightarrow> (raw_wal_record \<Rightarrow> ('s, unit) op) \<Rightarrow>
     ('s, raw_wal_replay_stats \<times> nat) op" where
  "scan_path cf fl p d on_record st = (case disk_files d p of
     None \<Rightarrow> scan_records_with_offsets cf None on_record st
   | Some bs \<Rightarrow>
       (case and_then (fst (io_step fl ''open raw WAL segment'' id d))
               (\<lambda>_. fst (io_step fl ''stat raw WAL segment'' id d)) of
          Inl e \<Rightarrow> (Inl e, st)
        | Inr _ \<Rightarrow> scan_records_with_offsets cf (Some bs) on_record st))"

definition append_state_for_path ::
    "crc_functions \<Rightarrow> io_faults \<Rightarrow> file_path \<Rightarrow> disk \<Rightarrow> raw_wal_append_state store_result" where
  "append_state_for_path cf fl p d = (case disk_files d p of
     None \<Rightarrow> Inr \<lparr>as_next_lsn = 1, as_last_good_offset = 0, as_record_versions = []\<rparr>
   | Some _ \<Rightarrow>
       (case scan_path cf fl p d note_record (0, []) of
          (Inl e, _) \<Rightarrow> Inl e
        | (Inr (stats, good), (last_lsn, versions)) \<Rightarrow>
            Inr \<lparr>as_next_lsn = max (saturating_inc last_lsn) 1, as_last_good_offset = good,
                 as_record_versions = versions\<rparr>))"

definition open_segment :: "crc_functions \<Rightarrow> io_faults \<Rightarrow> file_path \<Rightarrow> (disk, raw_wal_segment_writer) op" where
  "open_segment cf fl p d = (case append_state_for_path cf fl p d of
     Inl e \<Rightarrow> (Inl e, d)
   | Inr st \<Rightarrow>
       then_op (io_step fl ''open raw WAL segment'' (file_create p)) (\<lambda>_.
       then_op (io_step fl ''stat raw WAL segment'' id) (\<lambda>_.
       then_op (\<lambda>d. if as_last_good_offset st < length (content p d)
           then then_op (io_step fl ''truncate raw WAL torn tail'' (file_set_len p (as_last_good_offset st)))
             (\<lambda>_. io_step fl ''sync raw WAL torn-tail truncation'' (file_sync p)) d
           else ret () d) (\<lambda>_.
         ret \<lparr>seg_path = p, seg_buf = [], seg_next_lsn = as_next_lsn st, seg_versions = as_record_versions st\<rparr>))) d)"

section \<open>Compaction\<close>

record raw_wal_compaction_stats =
  records_before :: nat
  records_after :: nat
  compacted_last_lsn :: lsn

definition record_id :: "raw_wal_record \<Rightarrow> string \<times> raw_key" where
  "record_id r = (w_collection r, w_key r)"

definition newest_indices :: "raw_wal_record list \<Rightarrow> (string \<times> raw_key, nat) hmap" where
  "newest_indices rs = fold (\<lambda>(i, r) m. hm_insert (record_id r) i m) (enumerate 0 rs) []"

definition retained_indices :: "raw_wal_record list \<Rightarrow> nat list" where
  "retained_indices rs = sort (map snd (newest_indices rs))"

definition compact_tmp :: "file_path \<Rightarrow> file_path" where
  "compact_tmp p = p @ ''.compact.tmp''"

fun append_all_exact :: "crc_functions \<Rightarrow> io_faults \<Rightarrow> raw_wal_record list \<Rightarrow> (segment, unit) op" where
  "append_all_exact cf fl [] = ret ()"
| "append_all_exact cf fl (r # rs) = then_op (append_record_exact cf fl r) (\<lambda>_. append_all_exact cf fl rs)"

text \<open>The block that writes the temporary segment; leaving it drops the writer, which flushes what is
  left in its buffer and ignores a failure.\<close>

definition write_compacted :: "crc_functions \<Rightarrow> io_faults \<Rightarrow> file_path \<Rightarrow> raw_wal_record list \<Rightarrow> (disk, unit) op" where
  "write_compacted cf fl tmp rs = then_op (open_segment cf fl tmp) (\<lambda>w d.
     case then_op (append_all_exact cf fl rs) (\<lambda>_. sync_now fl) (w, d) of
       (res, s) \<Rightarrow> (res, snd (snd (flush_buf fl ''flush raw WAL segment'' s))))"

definition compact_raw_wal :: "crc_functions \<Rightarrow> io_faults \<Rightarrow> file_path \<Rightarrow> (disk, raw_wal_compaction_stats) op" where
  "compact_raw_wal cf fl p d = (case disk_files d p of
     None \<Rightarrow> (Inr \<lparr>records_before = 0, records_after = 0, compacted_last_lsn = 0\<rparr>, d)
   | Some _ \<Rightarrow>
       (case scan_path cf fl p d collect_record [] of
          (Inl e, _) \<Rightarrow> (Inl e, d)
        | (Inr _, rs) \<Rightarrow>
            let retained = retained_indices rs; tmp = compact_tmp p in
            then_op (write_compacted cf fl tmp (map (\<lambda>i. rs ! i) retained)) (\<lambda>_.
            then_op (io_step fl ''rename compacted raw WAL segment'' (file_rename tmp p)) (\<lambda>_.
            then_op (if fl ''open raw WAL parent directory'' = None
                then io_step fl ''sync raw WAL parent directory'' id else ret ()) (\<lambda>_.
              ret \<lparr>records_before = length rs, records_after = length retained,
                   compacted_last_lsn = (if retained = [] then 0 else w_lsn (rs ! last retained))\<rparr>)))
              (if fl ''remove compaction temporary'' = None then file_remove tmp d else d)))"


section \<open>Buffering\<close>

text \<open>The bytes of a segment: what is in the file followed by what is still in the buffer.\<close>

definition seg_bytes :: "segment \<Rightarrow> bytes" where
  "seg_bytes = (\<lambda>(w, d). content (seg_path w) d @ seg_buf w)"

definition seg_frame :: "segment \<Rightarrow> segment \<Rightarrow> bool" where
  "seg_frame = (\<lambda>(w, d) (w', d').
     seg_path w' = seg_path w \<and> seg_next_lsn w' = seg_next_lsn w \<and> seg_versions w' = seg_versions w
     \<and> disk_synced d' = disk_synced d \<and> (\<forall>q. q \<noteq> seg_path w \<longrightarrow> disk_files d' q = disk_files d q)
     \<and> (disk_files d (seg_path w) \<noteq> None \<longrightarrow> disk_files d' (seg_path w) \<noteq> None)
     \<and> prefix (content (seg_path w) d) (content (seg_path w) d'))"

lemma seg_frame_refl [simp]: "seg_frame s s"
  by (auto simp: seg_frame_def)

lemma seg_frame_trans: "seg_frame s t \<Longrightarrow> seg_frame t u \<Longrightarrow> seg_frame s u"
  unfolding seg_frame_def by (auto intro: prefix_order.trans)

lemma disk_simps [simp]:
  "disk_files (file_append p bs d) = (disk_files d)(p := Some (content p d @ bs))"
  "disk_synced (file_append p bs d) = disk_synced d"
  "content p (file_append p bs d) = content p d @ bs"
  "content p (file_create p d) = content p d"
  "disk_files (file_create p d) = (disk_files d)(p := Some (content p d))"
  "disk_synced (file_create p d) = disk_synced d"
  "disk_files (file_sync p d) = disk_files d"
  "content q (file_sync p d) = content q d"
  "disk_synced (file_sync p d) = (disk_synced d)(p := length (content p d))"
  "disk_files (file_set_len p n d) = (disk_files d)(p := Some (take n (content p d)))"
  "disk_synced (file_set_len p n d) = (disk_synced d)(p := min n (disk_synced d p))"
  "content p (file_set_len p n d) = take n (content p d)"
  "disk_files (file_remove p d) = (disk_files d)(p := None)"
  "disk_synced (file_remove p d) = (disk_synced d)(p := 0)"
  "disk_files (file_rename p q d) = (disk_files d)(q := disk_files d p, p := None)"
  "disk_synced (file_rename p q d) = (disk_synced d)(q := disk_synced d p, p := 0)"
  by (simp_all add: file_append_def file_create_def file_sync_def file_set_len_def file_remove_def file_rename_def content_def)

lemma content_Some: "disk_files d p = Some bs \<Longrightarrow> content p d = bs"
  by (simp add: content_def)

lemma seg_frame_append: "seg_frame (w, d) (w\<lparr>seg_buf := b\<rparr>, file_append (seg_path w) bs d)"
  by (simp add: seg_frame_def)

lemma seg_frame_through: "seg_frame (w, d) (w, file_append (seg_path w) bs d)"
  by (simp add: seg_frame_def)

lemma flush_buf_effect:
  assumes "flush_buf fl label s = (res, s')"
  shows "seg_frame s s' \<and> seg_bytes s' = seg_bytes s \<and> (res = Inr () \<longrightarrow> seg_buf (fst s') = [])"
  using assms
  by (auto simp: flush_buf_def seg_bytes_def seg_frame_append split: prod.splits if_splits option.splits)

lemma flush_buf_ok: "fl label = None \<Longrightarrow> fst (flush_buf fl label s) = Inr ()"
  by (auto simp: flush_buf_def split: prod.splits)

text \<open>The effect of writing: a prefix of the bytes has been added, all of them on success.\<close>

definition wrote :: "bytes \<Rightarrow> segment \<Rightarrow> unit store_result \<Rightarrow> segment \<Rightarrow> bool" where
  "wrote bs s res s' \<longleftrightarrow> seg_frame s s' \<and>
     (\<exists>part. prefix part bs \<and> seg_bytes s' = seg_bytes s @ part \<and> (res = Inr () \<longrightarrow> part = bs))"

lemma wrote_Inr: "wrote bs s (Inr ()) s' \<longleftrightarrow> seg_frame s s' \<and> seg_bytes s' = seg_bytes s @ bs"
  by (auto simp: wrote_def)

lemma wrote_append:
  assumes "wrote as s (Inr ()) t" and "wrote bs t res s'"
  shows "wrote (as @ bs) s res s'"
proof -
  from assms(2) obtain part where p: "prefix part bs" "seg_bytes s' = seg_bytes t @ part" "res = Inr () \<longrightarrow> part = bs"
    by (auto simp: wrote_def)
  with assms show ?thesis
    unfolding wrote_def [of "as @ bs"] using seg_frame_trans [of s t s']
    by (intro conjI exI [of _ "as @ part"]) (auto simp: wrote_def)
qed

lemma wrote_fails: "wrote as s (Inl e) s' \<Longrightarrow> wrote (as @ bs) s (Inl e) s'"
  by (auto simp: wrote_def intro: prefix_prefix)

lemma write_through_effect:
  assumes "write_through fl label bs s = (res, s')" and "seg_buf (fst s) = []"
  shows "wrote bs s res s'"
proof -
  obtain w d where s: "s = (w, d)" by (cases s)
  show ?thesis
  proof (cases "fl label")
    case None
    then show ?thesis using assms s by (auto simp: write_through_def wrote_def seg_bytes_def seg_frame_through)
  next
    case (Some f)
    then show ?thesis using assms s
      by (cases f) (auto simp: write_through_def wrote_def seg_bytes_def seg_frame_through intro!: exI [of _ "take (fst f) bs"] take_is_prefix)
  qed
qed

lemma buf_copy_effect: "buf_copy bs s = (res, s') \<Longrightarrow> wrote bs s res s'"
  by (auto simp: buf_copy_def wrote_def seg_bytes_def seg_frame_def split: prod.splits)

lemma write_all_effect:
  assumes "write_all fl label bs s = (res, s')"
  shows "wrote bs s res s'"
proof (cases "length bs < spare s")
  case True
  then show ?thesis using assms by (simp add: write_all_def buf_copy_effect)
next
  case F: False
  let ?tail = "\<lambda>_. if length bs \<ge> buf_capacity then write_through fl label bs else buf_copy bs"
  have tail: "wrote bs t res s'" if "?tail () t = (res, s')" "length bs \<ge> buf_capacity \<longrightarrow> seg_buf (fst t) = []" for t
    using that by (auto simp: buf_copy_effect write_through_effect split: if_splits)
  show ?thesis
  proof (cases "length bs > spare s")
    case True
    with F assms have "then_op (flush_buf fl label) ?tail s = (res, s')" by (simp add: write_all_def)
    then show ?thesis
    proof (cases rule: then_op_cases)
      case (fails e)
      then show ?thesis using flush_buf_effect [OF fails(1)] by (auto simp: wrote_def)
    next
      case (continues x t)
      then show ?thesis using flush_buf_effect [OF continues(1)] tail [of t] seg_frame_trans [of s t s']
        by (auto simp: wrote_def)
    qed
  next
    case False
    with F have eq: "length bs = spare s" by simp
    with assms have "?tail () s = (res, s')" by (simp add: write_all_def)
    moreover have "length bs \<ge> buf_capacity \<longrightarrow> seg_buf (fst s) = []"
      using eq by (cases s; cases "seg_buf (fst s)") (auto simp: spare_def buf_capacity_def)
    ultimately show ?thesis by (rule tail)
  qed
qed

lemma write_parts_effect:
  "write_parts fl parts s = (res, s') \<Longrightarrow> wrote (concat (map snd parts)) s res s'"
proof (induction parts arbitrary: s)
  case Nil
  then show ?case by (auto simp: wrote_def)
next
  case (Cons p parts)
  obtain label bs where p: "p = (label, bs)" by (cases p)
  from Cons.prems p have "then_op (write_all fl label bs) (\<lambda>_. write_parts fl parts) s = (res, s')" by simp
  then show ?case
  proof (cases rule: then_op_cases)
    case (fails e)
    then show ?thesis using p write_all_effect [OF fails(1)] wrote_fails by simp
  next
    case (continues x t)
    then show ?thesis using p write_all_effect [OF continues(1)] Cons.IH [OF continues(2)] wrote_append by simp
  qed
qed

section \<open>Appending\<close>

definition record_of :: "lsn \<Rightarrow> document_version \<Rightarrow> string \<Rightarrow> operation \<Rightarrow> raw_key \<Rightarrow> raw_value option \<Rightarrow> raw_wal_record" where
  "record_of l v coll op key vo = \<lparr>w_lsn = l, w_version = v, w_collection = coll, w_op = op, w_key = key, w_value = vo\<rparr>"

lemma record_of_sel [simp]:
  "w_lsn (record_of l v coll op key vo) = l" "w_version (record_of l v coll op key vo) = v"
  "w_collection (record_of l v coll op key vo) = coll" "w_op (record_of l v coll op key vo) = op"
  "w_key (record_of l v coll op key vo) = key" "w_value (record_of l v coll op key vo) = vo"
  by (simp_all add: record_of_def)

lemma record_of_eta [simp]: "record_of (w_lsn r) (w_version r) (w_collection r) (w_op r) (w_key r) (w_value r) = r"
  by (simp add: record_of_def)

lemma frame_zip: "concat (map snd (zip frame_labels (frame_parts cf p))) = frame cf p"
  by (simp add: frame_labels_def frame_parts_def frame_def)

lemma emit_encoded_effect:
  assumes "emit_encoded cf fl l v coll op key vo s = (res, s')"
  shows "wrote (record_frame cf (record_of l v coll op key vo)) s res s'
    \<and> (res = Inr () \<longrightarrow> fields_fit (record_of l v coll op key vo))"
proof (cases "encode_payload l v coll op key vo")
  case (Inl e)
  with assms show ?thesis by (auto simp: emit_encoded_def wrote_def)
next
  case (Inr p)
  then have p: "p = payload_of (record_of l v coll op key vo)" "fields_fit (record_of l v coll op key vo)"
    by (simp_all add: encode_payload_Inr_iff Let_def record_of_def)
  show ?thesis
  proof (cases "length p > u32_max")
    case True
    with assms Inr show ?thesis by (auto simp: emit_encoded_def wrote_def)
  next
    case False
    with assms Inr have "write_parts fl (zip frame_labels (frame_parts cf p)) s = (res, s')"
      by (simp add: emit_encoded_def)
    from write_parts_effect [OF this] show ?thesis using p by (simp add: frame_zip record_frame_def)
  qed
qed

lemma append_record_effect:
  assumes "append_record cf fl coll op key vo v track (w, d) = (res, (w', d'))"
  defines "r \<equiv> record_of (seg_next_lsn w) v coll op key vo"
  shows "seg_path w' = seg_path w \<and> seg_next_lsn w' = saturating_inc (seg_next_lsn w)
    \<and> disk_synced d' = disk_synced d \<and> (\<forall>q. q \<noteq> seg_path w \<longrightarrow> disk_files d' q = disk_files d q)
    \<and> (disk_files d (seg_path w) \<noteq> None \<longrightarrow> disk_files d' (seg_path w) \<noteq> None)
    \<and> prefix (content (seg_path w) d) (content (seg_path w) d')
    \<and> (case res of
        Inl e \<Rightarrow> \<exists>part. prefix part (record_frame cf r) \<and> seg_bytes (w', d') = seg_bytes (w, d) @ part
      | Inr l \<Rightarrow> l = seg_next_lsn w \<and> fields_fit r \<and> seg_bytes (w', d') = seg_bytes (w, d) @ record_frame cf r)"
proof -
  let ?s = "(w\<lparr>seg_next_lsn := saturating_inc (seg_next_lsn w)\<rparr>, d)"
  have sb: "seg_bytes ?s = seg_bytes (w, d)" by (simp add: seg_bytes_def)
  from assms(1) have "then_op (emit_encoded cf fl (seg_next_lsn w) v coll op key vo)
       (\<lambda>_ (w', d). (Inr (seg_next_lsn w), (if track
          then w'\<lparr>seg_versions := hm_insert (coll, key) v (seg_versions w')\<rparr> else w', d))) ?s = (res, (w', d'))"
    by (simp add: append_record_def Let_def)
  then show ?thesis
  proof (cases rule: then_op_cases)
    case (fails e)
    from emit_encoded_effect [OF fails(1)] fails(2) sb show ?thesis
      by (auto simp: wrote_def seg_frame_def r_def)
  next
    case (continues x t)
    obtain w1 d1 where t: "t = (w1, d1)" by (cases t)
    from emit_encoded_effect [OF continues(1)] have e: "seg_frame ?s (w1, d1)"
      "seg_bytes (w1, d1) = seg_bytes ?s @ record_frame cf r" "fields_fit r"
      by (auto simp: wrote_Inr r_def t)
    have c: "res = Inr (seg_next_lsn w)" "d' = d1" "w' = (if track
          then w1\<lparr>seg_versions := hm_insert (coll, key) v (seg_versions w1)\<rparr> else w1)"
      using continues(2) t by auto
    have "seg_bytes (w', d') = seg_bytes (w1, d1)" using c by (simp add: seg_bytes_def)
    then show ?thesis using e sb c by (simp add: seg_frame_def)
  qed
qed

text \<open>A healthy segment holds the frames of a well-formed log, all sequence numbers below the next one.\<close>

definition seg_inv :: "crc_functions \<Rightarrow> raw_wal_record list \<Rightarrow> segment \<Rightarrow> bool" where
  "seg_inv cf rs = (\<lambda>(w, d). disk_files d (seg_path w) \<noteq> None \<and> seg_bytes (w, d) = log_bytes cf rs
     \<and> valid_log 0 rs \<and> last_lsn_of 0 rs < seg_next_lsn w
     \<and> disk_synced d (seg_path w) \<le> length (content (seg_path w) d))"

lemma append_record_inv:
  assumes "append_record cf fl coll op key vo v track (w, d) = (Inr l, (w', d'))" and "seg_inv cf rs (w, d)"
    and "loggable (record_of (seg_next_lsn w) v coll op key vo)" and "seg_next_lsn w \<noteq> - 1"
  shows "l = seg_next_lsn w \<and> seg_inv cf (rs @ [record_of l v coll op key vo]) (w', d')"
  using append_record_effect [OF assms(1)] assms(2-4)
  by (auto simp: seg_inv_def saturating_inc_greater dest: prefix_length_le)

lemma sync_now_effect:
  assumes "sync_now fl (w, d) = (res, (w', d'))"
  shows "seg_path w' = seg_path w \<and> seg_next_lsn w' = seg_next_lsn w \<and> seg_versions w' = seg_versions w
    \<and> seg_bytes (w', d') = seg_bytes (w, d) \<and> (\<forall>q. q \<noteq> seg_path w \<longrightarrow> disk_files d' q = disk_files d q)
    \<and> (disk_files d (seg_path w) \<noteq> None \<longrightarrow> disk_files d' (seg_path w) \<noteq> None)
    \<and> (disk_synced d (seg_path w) \<le> length (content (seg_path w) d) \<longrightarrow>
         disk_synced d' (seg_path w) \<le> length (content (seg_path w) d'))
    \<and> (res = Inr () \<longrightarrow> seg_buf w' = [] \<and> disk_synced d' (seg_path w) = length (seg_bytes (w, d)))
    \<and> (res \<noteq> Inr () \<longrightarrow> disk_synced d' = disk_synced d)"
proof -
  from assms have "then_op (flush_buf fl ''flush raw WAL segment'')
     (\<lambda>_ (w, d). map_prod id (Pair w) (io_step fl ''sync raw WAL segment'' (file_sync (seg_path w)) d)) (w, d) = (res, (w', d'))"
    by (simp add: sync_now_def)
  then show ?thesis
  proof (cases rule: then_op_cases)
    case (fails e)
    then show ?thesis using flush_buf_effect [OF fails(1)] by (auto simp: seg_frame_def dest: prefix_length_le)
  next
    case (continues x t)
    obtain w1 d1 where t: "t = (w1, d1)" by (cases t)
    note f = flush_buf_effect [OF continues(1)]
    show ?thesis
    proof (cases "fl ''sync raw WAL segment''")
      case None
      then have "w' = w1" "d' = file_sync (seg_path w1) d1" "res = Inr ()" using continues(2) t by (auto simp: io_step_def)
      then show ?thesis using f t by (auto simp: seg_frame_def seg_bytes_def)
    next
      case (Some a)
      then have "w' = w1" "d' = d1" "\<exists>e. res = Inl e" using continues(2) t by (auto simp: io_step_def split: prod.splits)
      then show ?thesis using f t by (auto simp: seg_frame_def dest: prefix_length_le)
    qed
  qed
qed

lemma seg_frame_synced:
  "seg_frame (w, d) (w', d') \<Longrightarrow> disk_synced d (seg_path w) \<le> length (content (seg_path w) d) \<Longrightarrow>
     disk_synced d' (seg_path w') \<le> length (content (seg_path w') d')"
  by (auto simp: seg_frame_def dest: prefix_length_le)

lemma seg_inv_eq:
  "seg_inv cf rs (w, d) \<Longrightarrow> disk_files d' (seg_path w') \<noteq> None \<Longrightarrow> seg_bytes (w', d') = seg_bytes (w, d)
    \<Longrightarrow> seg_next_lsn w' = seg_next_lsn w \<Longrightarrow> disk_synced d' (seg_path w') \<le> length (content (seg_path w') d')
    \<Longrightarrow> seg_inv cf rs (w', d')"
  by (simp add: seg_inv_def)

lemma sync_now_inv: "sync_now fl (w, d) = (res, (w', d')) \<Longrightarrow> seg_inv cf rs (w, d) \<Longrightarrow> seg_inv cf rs (w', d')"
  using sync_now_effect [of fl w d res w' d'] by (auto intro!: seg_inv_eq [of cf rs w d] simp: seg_inv_def)

section \<open>Crashes\<close>

text \<open>Every prefix of a log is the frames of its first records followed by a torn tail.\<close>

lemma log_prefix:
  assumes "valid_log l rs"
  shows "\<exists>k tail. take n (log_bytes cf rs) = log_bytes cf (take k rs) @ tail \<and> torn cf tail
    \<and> (\<forall>j \<le> length rs. length (log_bytes cf (take j rs)) \<le> n \<longrightarrow> j \<le> k)"
  using assms
proof (induction rs arbitrary: l n)
  case Nil
  show ?case by (intro exI [of _ 0] exI [of _ "[]"]) simp
next
  case (Cons r rs)
  let ?f = "record_frame cf r"
  show ?case
  proof (cases "length ?f \<le> n")
    case True
    from Cons obtain k tail where
      k: "take (n - length ?f) (log_bytes cf rs) = log_bytes cf (take k rs) @ tail" "torn cf tail"
      "\<And>j. j \<le> length rs \<Longrightarrow> length (log_bytes cf (take j rs)) \<le> n - length ?f \<Longrightarrow> j \<le> k"
      by (metis valid_log_simps(2))
    have "take n (log_bytes cf (r # rs)) = log_bytes cf (take (Suc k) (r # rs)) @ tail" using k(1) True by simp
    moreover have "j \<le> Suc k" if "j \<le> length (r # rs)" "length (log_bytes cf (take j (r # rs))) \<le> n" for j
      using that k(3) [of "j - 1"] by (cases j) auto
    ultimately show ?thesis using k(2) by blast
  next
    case False
    have lg: "length (payload_of r) \<le> raw_wal_max_payload_bytes" using Cons.prems by (simp add: loggable_def)
    have n: "take n (log_bytes cf (r # rs)) = take n ?f" using False by simp
    have "take n ?f \<noteq> ?f" using False by (intro list_neq_lengthI) simp
    then have "strict_prefix (take n ?f) ?f" by (simp add: strict_prefix_def take_is_prefix)
    then have "torn cf (take n ?f)"
      using torn_prefix payload_small [OF lg] by (simp add: record_frame_def)
    moreover have "j \<le> 0" if "length (log_bytes cf (take j (r # rs))) \<le> n" for j
      using that False by (cases j) auto
    ultimately show ?thesis using n by (intro exI [of _ 0] exI [of _ "take n ?f"]) simp
  qed
qed

lemma read_log_prefix:
  assumes "valid_log 0 rs"
  obtains k where "read_records cf (Some (take n (log_bytes cf rs))) = Inr (take k rs)"
    "\<And>j. j \<le> length rs \<Longrightarrow> length (log_bytes cf (take j rs)) \<le> n \<Longrightarrow> j \<le> k"
proof -
  from log_prefix [OF assms, of n cf] obtain k tail where
    k: "take n (log_bytes cf rs) = log_bytes cf (take k rs) @ tail" "torn cf tail"
    "\<And>j. j \<le> length rs \<Longrightarrow> length (log_bytes cf (take j rs)) \<le> n \<Longrightarrow> j \<le> k" by blast
  have "valid_log 0 (take k rs)" using assms valid_log_simps(3) [of 0 "take k rs" "drop k rs"] by simp
  with k that show thesis by (simp add: read_records_log)
qed

lemma crash_file:
  assumes "crash d d'" and "disk_files d p = Some bs"
  obtains n where "disk_synced d p \<le> n" "disk_files d' p = Some (take n bs)"
    | "disk_synced d p = 0" "disk_files d' p = None"
proof -
  from assms(1) have "case disk_files d p of
        None \<Rightarrow> disk_files d' p = None
      | Some bs \<Rightarrow> (\<exists>n \<ge> disk_synced d p. disk_files d' p = Some (take n bs))
          \<or> disk_synced d p = 0 \<and> disk_files d' p = None"
    unfolding crash_def by blast
  with assms(2) that show thesis by auto
qed

lemma read_None [simp]: "read_records cf None = Inr []"
  by (simp add: read_records_def scan_records_def scan_records_with_offsets_def and_then_def)

text \<open>After a crash the segment reads as a prefix of its log that contains every synced record.\<close>

lemma crash_recovers:
  assumes "seg_inv cf rs (w, d)" and "crash d d'"
  obtains k where "read_records cf (disk_files d' (seg_path w)) = Inr (take k rs)"
    "\<And>j. j \<le> length rs \<Longrightarrow> length (log_bytes cf (take j rs)) \<le> disk_synced d (seg_path w) \<Longrightarrow> j \<le> k"
proof -
  let ?p = "seg_path w"
  obtain bs where bs: "disk_files d ?p = Some bs" using assms(1) by (auto simp: seg_inv_def)
  have log: "bs @ seg_buf w = log_bytes cf rs" "valid_log 0 rs"
    using assms(1) bs by (auto simp: seg_inv_def seg_bytes_def content_Some)
  from assms(2) bs show thesis
  proof (cases rule: crash_file)
    case (1 n)
    have "take n bs = take (min n (length bs)) (log_bytes cf rs)" by (simp add: min_def flip: log(1))
    moreover obtain k where k: "read_records cf (Some (take (min n (length bs)) (log_bytes cf rs))) = Inr (take k rs)"
      "\<And>j. j \<le> length rs \<Longrightarrow> length (log_bytes cf (take j rs)) \<le> min n (length bs) \<Longrightarrow> j \<le> k"
      by (rule read_log_prefix [OF log(2)]) blast
    moreover have "disk_synced d ?p \<le> min n (length bs)"
      using 1(1) assms(1) bs by (simp add: seg_inv_def content_Some)
    ultimately show thesis using 1(2) that [of k] by fastforce
  next
    case 2
    have "j \<le> 0" if "j \<le> length rs" "length (log_bytes cf (take j rs)) \<le> 0" for j
      using that by (cases rs; cases j) auto
    then show thesis using 2 that [of 0] by simp
  qed
qed

section \<open>Opening\<close>

definition version_map :: "raw_wal_record list \<Rightarrow> (string \<times> raw_key, document_version) hmap" where
  "version_map rs = fold (\<lambda>r. hm_insert (w_collection r, w_key r) (w_version r)) rs []"

lemma run_note:
  "run_records note_record rs (l, vs) =
     (Inr (), (last_lsn_of l rs, fold (\<lambda>r. hm_insert (w_collection r, w_key r) (w_version r)) rs vs))"
  by (induction rs arbitrary: l vs) (simp_all add: note_record_def)

lemma io_step_InrD: "io_step fl label f d = (Inr (), d') \<Longrightarrow> d' = f d \<and> fl label = None"
  by (auto simp: io_step_def split: option.splits prod.splits)

lemma scan_path_log:
  assumes "scan_path cf fl p d f st = (res, st')" and "disk_files d p = Some (log_bytes cf rs @ tail)"
    and "valid_log 0 rs" and "torn cf tail"
  shows "(\<exists>e. res = Inl e) \<or> (case run_records f rs st of
      (Inl e, st'') \<Rightarrow> (res, st') = (Inl e, st'')
    | (Inr _, st'') \<Rightarrow> (res, st') = (Inr (add_stats empty_stats rs, length (log_bytes cf rs)), st''))"
  using assms by (auto simp: scan_path_def scan_records_log split: sum.splits prod.splits)

lemma append_state_log:
  assumes "append_state_for_path cf fl p d = Inr a" and "disk_files d p = Some (log_bytes cf rs @ tail)"
    and "valid_log 0 rs" and "torn cf tail"
  shows "a = \<lparr>as_next_lsn = max (saturating_inc (last_lsn_of 0 rs)) 1, as_last_good_offset = length (log_bytes cf rs),
              as_record_versions = version_map rs\<rparr>"
proof -
  obtain res st where sp: "scan_path cf fl p d note_record (0, []) = (res, st)"
    by (cases "scan_path cf fl p d note_record (0, [])")
  from scan_path_log [OF this assms(2-4)] run_note [of rs 0 "[]"] sp assms(1,2) show ?thesis
    by (auto simp: append_state_for_path_def version_map_def)
qed

lemma open_segment_steps:
  assumes "open_segment cf fl p d = (Inr w, d')"
  obtains a where "append_state_for_path cf fl p d = Inr a"
    "w = \<lparr>seg_path = p, seg_buf = [], seg_next_lsn = as_next_lsn a, seg_versions = as_record_versions a\<rparr>"
    "d' = (if as_last_good_offset a < length (content p d)
       then file_sync p (file_set_len p (as_last_good_offset a) (file_create p d)) else file_create p d)"
proof -
  from assms obtain a where a: "append_state_for_path cf fl p d = Inr a"
    by (auto simp: open_segment_def split: sum.splits)
  with assms show thesis
    by (auto simp: open_segment_def elim!: then_op_InrE dest!: io_step_InrD intro!: that [OF a] split: if_splits)
qed

lemma max_saturating: "l \<noteq> - 1 \<Longrightarrow> l < max (saturating_inc l) (1 :: u64)"
  using saturating_inc_greater [of l] by (simp add: less_max_iff_disj)

text \<open>Opening an existing segment truncates exactly the torn tail and continues the log.\<close>

lemma open_segment_inv:
  assumes "open_segment cf fl p d = (Inr w, d')" and "disk_files d p = Some (log_bytes cf rs @ tail)"
    and "valid_log 0 rs" and "torn cf tail" and "last_lsn_of 0 rs \<noteq> - 1" and "disk_synced d p \<le> length (content p d)"
  shows "seg_inv cf rs (w, d') \<and> seg_path w = p \<and> seg_buf w = [] \<and> seg_versions w = version_map rs
    \<and> (\<forall>q. q \<noteq> p \<longrightarrow> disk_files d' q = disk_files d q)
    \<and> (disk_synced d p = length (content p d) \<longrightarrow> disk_synced d' p = length (content p d'))"
proof -
  from assms(1) obtain a where a: "append_state_for_path cf fl p d = Inr a"
    "w = \<lparr>seg_path = p, seg_buf = [], seg_next_lsn = as_next_lsn a, seg_versions = as_record_versions a\<rparr>"
    "d' = (if as_last_good_offset a < length (content p d)
       then file_sync p (file_set_len p (as_last_good_offset a) (file_create p d)) else file_create p d)"
    by (rule open_segment_steps)
  note st = append_state_log [OF a(1) assms(2-4)]
  have c: "content p d = log_bytes cf rs @ tail" using assms(2) by (simp add: content_Some)
  have "content p d' = log_bytes cf rs" using a(3) st c by (cases "tail = []") auto
  moreover have "disk_files d' p \<noteq> None" using a(3) by auto
  moreover have "disk_synced d' p \<le> length (content p d')" using a(3) assms(6) by auto
  ultimately show ?thesis
    using a st assms(3) max_saturating [OF assms(5)] by (auto simp: seg_inv_def seg_bytes_def)
qed

lemma open_segment_new:
  assumes "open_segment cf fl p d = (Inr w, d')" and "disk_files d p = None" and "disk_synced d p = 0"
  shows "seg_inv cf [] (w, d') \<and> seg_path w = p \<and> seg_buf w = [] \<and> seg_versions w = []
    \<and> (\<forall>q. q \<noteq> p \<longrightarrow> disk_files d' q = disk_files d q)"
  using assms(1)
proof (rule open_segment_steps)
  fix a
  assume a: "append_state_for_path cf fl p d = Inr a"
    "w = \<lparr>seg_path = p, seg_buf = [], seg_next_lsn = as_next_lsn a, seg_versions = as_record_versions a\<rparr>"
    "d' = (if as_last_good_offset a < length (content p d)
       then file_sync p (file_set_len p (as_last_good_offset a) (file_create p d)) else file_create p d)"
  have "content p d = []" using assms(2) by (simp add: content_def)
  then show ?thesis using a assms(2,3) by (auto simp: append_state_for_path_def seg_inv_def seg_bytes_def)
qed

text \<open>A successful open means that the file was a log with a torn tail.\<close>

lemma open_segment_parts:
  assumes "open_segment cf fl p d = (Inr w, d')" and "disk_files d p = Some bs"
  obtains rs tail where "bs = log_bytes cf rs @ tail" "valid_log 0 rs" "torn cf tail"
proof -
  from assms(1) obtain a where a: "append_state_for_path cf fl p d = Inr a" by (rule open_segment_steps)
  obtain rs tail where d: "bs = log_bytes cf rs @ tail" "valid_log 0 rs" and
    alt: "torn cf tail \<or> (\<exists>e. \<forall>stats good st. stat_last_lsn stats = last_lsn_of 0 rs \<longrightarrow>
       scan_loop cf note_record bs (length (log_bytes cf rs)) stats good st = (Inl e, st))"
    using scan_decompose [of 0 bs cf 0 note_record] by auto
  show thesis
  proof (cases "torn cf tail")
    case True
    with d that show thesis by simp
  next
    case False
    with alt obtain e where e: "\<And>stats good st. stat_last_lsn stats = last_lsn_of 0 rs \<Longrightarrow>
       scan_loop cf note_record bs (length (log_bytes cf rs)) stats good st = (Inl e, st)" by blast
    have v: "valid_log (stat_last_lsn empty_stats) rs" using d(2) by (simp add: empty_stats_def)
    have "stat_last_lsn (add_stats empty_stats rs) = last_lsn_of 0 rs" by (simp add: add_stats_def empty_stats_def)
    with scan_log [of 0 bs cf rs tail empty_stats note_record 0 "(0, [])", OF _ v] d(1) e a assms(2) show thesis
      by (auto simp: append_state_for_path_def scan_path_def scan_records_with_offsets_def run_note split: sum.splits)
  qed
qed

section \<open>Compaction\<close>

text \<open>The specification: a record is kept when no later record has the same collection and key.\<close>

fun compacted :: "raw_wal_record list \<Rightarrow> raw_wal_record list" where
  "compacted [] = []"
| "compacted (r # rs) = (if record_id r \<in> record_id ` set rs then compacted rs else r # compacted rs)"

text \<open>What replay makes of a log: the last record of every key.\<close>

definition latest :: "raw_wal_record list \<Rightarrow> string \<times> raw_key \<Rightarrow> raw_wal_record option" where
  "latest rs k = List.find (\<lambda>r. record_id r = k) (rev rs)"

lemma set_compacted: "set (compacted rs) \<subseteq> set rs"
  by (induction rs) auto

lemma ids_compacted: "record_id ` set (compacted rs) = record_id ` set rs"
  by (induction rs) auto

lemma find_append: "List.find P (xs @ ys) = (case List.find P xs of None \<Rightarrow> List.find P ys | Some x \<Rightarrow> Some x)"
  by (induction xs) auto

lemma latest_Cons: "latest (r # rs) k = (case latest rs k of None \<Rightarrow> if record_id r = k then Some r else None | Some r' \<Rightarrow> Some r')"
  by (simp add: latest_def find_append split: option.split)

lemma latest_None_iff: "latest rs k = None \<longleftrightarrow> k \<notin> record_id ` set rs"
  by (auto simp: latest_def find_None_iff)

lemma latest_compacted: "latest (compacted rs) k = latest rs k"
  by (induction rs) (auto simp: latest_Cons latest_None_iff split: option.splits)

lemma distinct_ids_compacted: "distinct (map record_id (compacted rs))"
  using ids_compacted by (induction rs) auto

lemma ascending_mono: "ascending l rs \<Longrightarrow> l' \<le> l \<Longrightarrow> ascending l' rs"
  by (cases rs) auto

lemma ascending_compacted: "ascending l rs \<Longrightarrow> ascending l (compacted rs)"
  by (induction rs arbitrary: l) (auto intro: ascending_mono [OF _ less_imp_le])

lemma valid_log_compacted: "valid_log l rs \<Longrightarrow> valid_log l (compacted rs)"
  using set_compacted [of rs] by (auto simp: valid_log_def list_all_iff ascending_compacted)

lemma compacted_snoc: "compacted (rs @ [r]) = filter (\<lambda>x. record_id x \<noteq> record_id r) (compacted rs) @ [r]"
  by (induction rs) auto

lemma last_lsn_compacted: "last_lsn_of l (compacted rs) = last_lsn_of l rs"
  by (induction rs rule: rev_induct) (simp_all add: compacted_snoc)

definition final_indices :: "raw_wal_record list \<Rightarrow> nat list" where
  "final_indices rs = filter (\<lambda>i. record_id (rs ! i) \<notin> record_id ` set (drop (Suc i) rs)) [0..<length rs]"

lemma final_indices_compacted: "map ((!) rs) (final_indices rs) = compacted rs"
proof (induction rs)
  case Nil
  show ?case by (simp add: final_indices_def)
next
  case (Cons r rs)
  have "final_indices (r # rs) = (if record_id r \<in> record_id ` set rs then [] else [0]) @ map Suc (final_indices rs)"
    unfolding final_indices_def by (simp add: upt_conv_Cons filter_map o_def flip: map_Suc_upt del: upt_Suc)
  then show ?case using Cons.IH by (simp add: o_def)
qed

lemma newest_indices_snoc: "newest_indices (rs @ [r]) = hm_insert (record_id r) (length rs) (newest_indices rs)"
  by (simp add: newest_indices_def enumerate_append_eq)

lemma newest_indices_wf: "hm_wf (newest_indices rs)"
  by (induction rs rule: rev_induct) (simp_all add: newest_indices_snoc, simp add: newest_indices_def)

lemma map_of_newest: "map_of (newest_indices rs) k = Some i \<longleftrightarrow>
    i < length rs \<and> record_id (rs ! i) = k \<and> k \<notin> record_id ` set (drop (Suc i) rs)"
proof (induction rs arbitrary: i rule: rev_induct)
  case Nil
  show ?case by (simp add: newest_indices_def)
next
  case (snoc r rs)
  then show ?case
    by (auto simp: newest_indices_snoc nth_append less_Suc_eq)
qed

lemma newest_member: "(k, i) \<in> set (newest_indices rs) \<longleftrightarrow>
    i < length rs \<and> record_id (rs ! i) = k \<and> k \<notin> record_id ` set (drop (Suc i) rs)"
  using map_of_eq_Some_iff [of "newest_indices rs" k i] newest_indices_wf [of rs]
  by (simp add: hm_wf_def map_of_newest)

lemma retained_final: "retained_indices rs = final_indices rs"
proof -
  have "inj_on snd (set (newest_indices rs))" by (rule inj_onI) (auto simp: newest_member)
  moreover have "distinct (newest_indices rs)" using newest_indices_wf [of rs] by (simp add: hm_wf_def distinct_map)
  ultimately have "distinct (map snd (newest_indices rs))" by (simp add: distinct_map)
  moreover have "set (map snd (newest_indices rs)) = set (final_indices rs)"
  proof (rule set_eqI)
    fix i
    have "i \<in> set (map snd (newest_indices rs)) \<longleftrightarrow> (\<exists>k. (k, i) \<in> set (newest_indices rs))" by force
    then show "i \<in> set (map snd (newest_indices rs)) \<longleftrightarrow> i \<in> set (final_indices rs)"
      by (auto simp: newest_member final_indices_def)
  qed
  ultimately show ?thesis
    unfolding retained_indices_def
    by (intro sorted_distinct_set_unique) (simp_all add: final_indices_def sorted_wrt_filter)
qed

lemma retained_compacted: "map ((!) rs) (retained_indices rs) = compacted rs"
  by (simp add: retained_final final_indices_compacted)

text \<open>Operations on one file leave the other files alone.\<close>

definition others_same :: "file_path \<Rightarrow> disk \<Rightarrow> disk \<Rightarrow> bool" where
  "others_same p d d' \<longleftrightarrow> (\<forall>q. q \<noteq> p \<longrightarrow> disk_files d' q = disk_files d q \<and> disk_synced d' q = disk_synced d q)"

lemma others_same_refl [simp]: "others_same p d d"
  by (simp add: others_same_def)

lemma others_same_trans: "others_same p d e \<Longrightarrow> others_same p e f \<Longrightarrow> others_same p d f"
  by (simp add: others_same_def)

lemma others_same_file [simp]:
  "others_same p d (file_append p bs d)" "others_same p d (file_create p d)" "others_same p d (file_sync p d)"
  "others_same p d (file_set_len p n d)" "others_same p d (file_remove p d)"
  by (simp_all add: others_same_def)

lemma seg_frame_others: "seg_frame (w, d) (w', d') \<Longrightarrow> others_same (seg_path w) d d'"
  by (auto simp: seg_frame_def others_same_def)

lemma io_step_others: "io_step fl label f d = (res, d') \<Longrightarrow> others_same p d (f d) \<Longrightarrow> others_same p d d'"
  by (auto simp: io_step_def split: option.splits prod.splits)

lemma then_op_others:
  assumes "then_op m f d = (res, d')" and "\<And>r e. m d = (r, e) \<Longrightarrow> others_same p d e"
    and "\<And>x e r e'. f x e = (r, e') \<Longrightarrow> others_same p e e'"
  shows "others_same p d d'"
  using assms by (cases rule: then_op_cases) (auto intro: others_same_trans)

lemma open_segment_others:
  assumes "open_segment cf fl p d = (res, d')"
  shows "others_same p d d'"
proof (cases "append_state_for_path cf fl p d")
  case (Inl e)
  with assms show ?thesis by (simp add: open_segment_def)
next
  case (Inr a)
  note step = io_step_others [where p = p]
  show ?thesis
    using assms unfolding open_segment_def Inr sum.case
    by (elim then_op_others [where p = p] step) (auto elim!: then_op_others [where p = p] step split: if_splits)
qed

lemma append_exact_effect:
  assumes "append_record_exact cf fl r (w, d) = (res, (w', d'))"
  shows "seg_path w' = seg_path w \<and> others_same (seg_path w) d d'
    \<and> (disk_files d (seg_path w) \<noteq> None \<longrightarrow> disk_files d' (seg_path w) \<noteq> None)
    \<and> (res = Inr () \<longrightarrow> seg_bytes (w', d') = seg_bytes (w, d) @ record_frame cf r)"
proof -
  let ?s = "(w\<lparr>seg_next_lsn := max (seg_next_lsn w) (saturating_inc (w_lsn r))\<rparr>, d)"
  have sb: "seg_bytes ?s = seg_bytes (w, d)" by (simp add: seg_bytes_def)
  from assms have "then_op (emit_encoded cf fl (w_lsn r) (w_version r) (w_collection r) (w_op r) (w_key r) (w_value r))
       (\<lambda>_ (w, d). (Inr (), (w\<lparr>seg_versions := hm_insert (w_collection r, w_key r) (w_version r) (seg_versions w)\<rparr>, d)))
       ?s = (res, (w', d'))"
    by (simp add: append_record_exact_def)
  then show ?thesis
  proof (cases rule: then_op_cases)
    case (fails e)
    then show ?thesis using emit_encoded_effect [OF fails(1)] seg_frame_others [of "fst ?s" d w' d']
      by (auto simp: wrote_def seg_frame_def)
  next
    case (continues x t)
    obtain w1 d1 where t: "t = (w1, d1)" by (cases t)
    from emit_encoded_effect [OF continues(1)] have e: "seg_frame ?s (w1, d1)"
      "seg_bytes (w1, d1) = seg_bytes ?s @ record_frame cf r"
      by (auto simp: wrote_Inr t)
    have c: "d' = d1" "w' = w1\<lparr>seg_versions := hm_insert (w_collection r, w_key r) (w_version r) (seg_versions w1)\<rparr>"
      using continues(2) t by auto
    have "seg_bytes (w', d') = seg_bytes (w1, d1)" using c by (simp add: seg_bytes_def)
    then show ?thesis using e sb c seg_frame_others [OF e(1)] by (simp add: seg_frame_def)
  qed
qed

lemma append_all_effect:
  "append_all_exact cf fl rs (w, d) = (res, (w', d')) \<Longrightarrow>
     seg_path w' = seg_path w \<and> others_same (seg_path w) d d'
    \<and> (disk_files d (seg_path w) \<noteq> None \<longrightarrow> disk_files d' (seg_path w) \<noteq> None)
    \<and> (res = Inr () \<longrightarrow> seg_bytes (w', d') = seg_bytes (w, d) @ log_bytes cf rs)"
proof (induction rs arbitrary: w d)
  case Nil
  then show ?case by simp
next
  case (Cons r rs)
  from Cons.prems have "then_op (append_record_exact cf fl r) (\<lambda>_. append_all_exact cf fl rs) (w, d) = (res, (w', d'))" by simp
  then show ?case
  proof (cases rule: then_op_cases)
    case (fails e)
    then show ?thesis using append_exact_effect [OF fails(1)] by simp
  next
    case (continues x t)
    obtain w1 d1 where t: "t = (w1, d1)" by (cases t)
    show ?thesis
      using append_exact_effect [OF continues(1) [unfolded t]] Cons.IH [OF continues(2) [unfolded t]]
        others_same_trans [of "seg_path w" d d1 d'] by auto
  qed
qed

lemma flush_others: "flush_buf fl label (w, d) = (res, (w', d')) \<Longrightarrow> others_same (seg_path w) d d'"
  by (auto dest!: flush_buf_effect seg_frame_others)

lemma sync_now_others:
  assumes "sync_now fl (w, d) = (res, (w', d'))"
  shows "others_same (seg_path w) d d'"
  using assms unfolding sync_now_def
proof (cases rule: then_op_cases)
  case (fails e)
  then show ?thesis using flush_others by blast
next
  case (continues x t)
  obtain w1 d1 where t: "t = (w1, d1)" by (cases t)
  have "seg_path w1 = seg_path w" using flush_buf_effect [OF continues(1)] t by (simp add: seg_frame_def)
  then have "others_same (seg_path w) d1 d'"
    using continues(2) t by (auto simp: io_step_def split: option.splits)
  then show ?thesis using flush_others [OF continues(1) [unfolded t]] others_same_trans by blast
qed

lemma write_compacted_effect:
  assumes "write_compacted cf fl tmp rs d = (res, d')"
  shows "others_same tmp d d' \<and> (res = Inr () \<longrightarrow> disk_files d tmp = None \<longrightarrow> disk_synced d tmp = 0 \<longrightarrow>
    disk_files d' tmp = Some (log_bytes cf rs) \<and> disk_synced d' tmp = length (log_bytes cf rs))"
  using assms unfolding write_compacted_def
proof (cases rule: then_op_cases)
  case (fails e)
  then show ?thesis using open_segment_others [OF fails(1)] by simp
next
  case (continues w d1)
  have o1: "others_same tmp d d1" by (rule open_segment_others [OF continues(1)])
  have pw: "seg_path w = tmp" using continues(1) by (auto elim: open_segment_steps)
  obtain w2 d2 where b: "then_op (append_all_exact cf fl rs) (\<lambda>_. sync_now fl) (w, d1) = (res, (w2, d2))"
    and d': "d' = snd (snd (flush_buf fl ''flush raw WAL segment'' (w2, d2)))"
    using continues(2) by (auto split: prod.splits)
  obtain r3 w3 where f3: "flush_buf fl ''flush raw WAL segment'' (w2, d2) = (r3, (w3, d'))"
    using d' by (metis prod.collapse)
  from b have "seg_path w2 = tmp \<and> others_same tmp d1 d2 \<and> (disk_files d1 tmp \<noteq> None \<longrightarrow> res = Inr () \<longrightarrow>
      seg_buf w2 = [] \<and> disk_files d2 tmp = Some (content tmp d1 @ seg_buf w @ log_bytes cf rs)
      \<and> disk_synced d2 tmp = length (content tmp d1 @ seg_buf w @ log_bytes cf rs))"
  proof (cases rule: then_op_cases)
    case (fails e)
    then show ?thesis using append_all_effect [OF fails(1)] pw by simp
  next
    case (continues x t)
    obtain w1 e1 where t: "t = (w1, e1)" by (cases t)
    note a = append_all_effect [OF continues(1) [unfolded t]] and sy = sync_now_effect [OF continues(2) [unfolded t]]
    note so = sync_now_others [OF continues(2) [unfolded t]]
    have "seg_bytes (w1, e1) = content tmp d1 @ seg_buf w @ log_bytes cf rs" if "res = Inr ()"
      using a pw by (auto simp: seg_bytes_def)
    moreover have "disk_files d2 tmp = Some (seg_bytes (w1, e1))" if "res = Inr ()" "disk_files d1 tmp \<noteq> None"
      using that a sy pw by (auto simp: seg_bytes_def content_def)
    ultimately show ?thesis
      using a sy pw so others_same_trans [of tmp d1 e1 d2] by simp
  qed
  note b' = this
  have o: "others_same tmp d d'" using o1 b' flush_others [OF f3] others_same_trans by metis
  moreover have "disk_files d' tmp = Some (log_bytes cf rs) \<and> disk_synced d' tmp = length (log_bytes cf rs)"
    if "res = Inr ()" "disk_files d tmp = None" "disk_synced d tmp = 0"
  proof -
    note n = open_segment_new [OF continues(1) that(2,3), of]
    have "disk_files d1 tmp \<noteq> None" "content tmp d1 = []" "seg_buf w = []"
      using n pw by (auto simp: seg_inv_def seg_bytes_def)
    moreover have "d' = d2" if "seg_buf w2 = []" using f3 that by (simp add: flush_buf_def)
    ultimately show ?thesis using b' that(1) by simp
  qed
  ultimately show ?thesis by blast
qed

lemma scan_path_collect:
  assumes "scan_path cf fl p d collect_record [] = (res, rs')" and "disk_files d p = Some (log_bytes cf rs @ tail)"
    and "valid_log 0 rs" and "torn cf tail"
  shows "(\<exists>e. res = Inl e) \<or> rs' = rs"
  using scan_path_log [OF assms] by (auto simp: run_collect)

lemma compact_tmp_neq: "compact_tmp p \<noteq> p"
  by (simp add: compact_tmp_def)

lemma retained_last:
  "(if retained_indices rs = [] then 0 else w_lsn (rs ! last (retained_indices rs))) = last_lsn_of 0 (compacted rs)"
proof -
  have "last_lsn_of 0 xs = (if xs = [] then 0 else w_lsn (last xs))" for xs
    by (induction xs rule: rev_induct) simp_all
  then show ?thesis
    by (simp flip: retained_compacted add: last_map)
qed

lemma compact_effect:
  assumes "compact_raw_wal cf fl p d = (res, d')" and "disk_files d p = Some (log_bytes cf rs @ tail)"
    and "valid_log 0 rs" and "torn cf tail" and "fl ''remove compaction temporary'' = None"
  shows "case res of
      Inl e \<Rightarrow> disk_files d' p \<in> {disk_files d p, Some (log_bytes cf (compacted rs))}
    | Inr st \<Rightarrow> disk_files d' p = Some (log_bytes cf (compacted rs)) \<and> disk_synced d' p = length (log_bytes cf (compacted rs))
        \<and> st = \<lparr>records_before = length rs, records_after = length (compacted rs), compacted_last_lsn = last_lsn_of 0 rs\<rparr>"
proof (cases "scan_path cf fl p d collect_record []")
  case (Pair sres rs')
  show ?thesis
  proof (cases sres)
    case (Inl e)
    with Pair assms(1,2) show ?thesis by (auto simp: compact_raw_wal_def)
  next
    case (Inr x)
    have rs': "rs' = rs" using scan_path_collect [OF Pair assms(2-4)] Inr by simp
    let ?tmp = "compact_tmp p" and ?log = "log_bytes cf (compacted rs)"
    let ?d0 = "file_remove ?tmp d"
    let ?st = "\<lparr>records_before = length rs, records_after = length (compacted rs), compacted_last_lsn = last_lsn_of 0 rs\<rparr>"
    have lr: "length (retained_indices rs) = length (compacted rs)" by (simp flip: retained_compacted)
    from assms(1,2,5) Pair Inr rs' have
      "then_op (write_compacted cf fl ?tmp (compacted rs)) (\<lambda>_.
        then_op (io_step fl ''rename compacted raw WAL segment'' (file_rename ?tmp p)) (\<lambda>_.
        then_op (if fl ''open raw WAL parent directory'' = None
                then io_step fl ''sync raw WAL parent directory'' id else ret ()) (\<lambda>_. ret ?st))) ?d0 = (res, d')"
      by (simp add: compact_raw_wal_def Let_def retained_compacted retained_last last_lsn_compacted lr)
    then show ?thesis
    proof (cases rule: then_op_cases)
      case (fails e)
      then show ?thesis using write_compacted_effect [OF fails(1)] compact_tmp_neq [of p] by (simp add: others_same_def)
    next
      case (continues u d1)
      have w: "disk_files d1 p = disk_files d p" "disk_files d1 ?tmp = Some ?log" "disk_synced d1 ?tmp = length ?log"
        using write_compacted_effect [OF continues(1)] compact_tmp_neq [of p] by (simp_all add: others_same_def)
      from continues(2) show ?thesis
      proof (cases rule: then_op_cases)
        case (fails e)
        then show ?thesis using w(1) by (auto simp: io_step_def split: option.splits prod.splits)
      next
        case (continues v d2)
        have "d2 = file_rename ?tmp p d1" using io_step_InrD [of fl _ _ d1 d2] continues(1) by simp
        then have d2: "disk_files d2 p = Some ?log" "disk_synced d2 p = length ?log"
          using w compact_tmp_neq [of p] by auto
        from continues(2) show ?thesis
          by (rule then_op_cases)
            (use d2 in \<open>auto simp: io_step_def split: if_splits option.splits prod.splits\<close>)
      qed
    qed
  qed
qed

section \<open>Without faults\<close>

definition no_faults :: io_faults where
  "no_faults label = None"

lemma write_all_succeeds: "\<exists>s'. write_all no_faults label bs s = (Inr (), s')"
  by (auto simp: no_faults_def write_all_def buf_copy_def flush_buf_def write_through_def then_op_def split: prod.splits)

lemma write_parts_succeed:
  "\<exists>s'. write_parts no_faults parts s = (Inr (), s')"
proof (induction parts arbitrary: s)
  case (Cons p parts)
  obtain label bs where p: "p = (label, bs)" by (cases p)
  obtain t where "write_all no_faults label bs s = (Inr (), t)" using write_all_succeeds by blast
  with Cons p show ?case by simp
qed simp

lemma emit_encoded_succeeds:
  assumes "fields_fit (record_of l v coll op key vo)"
    and "length (payload_of (record_of l v coll op key vo)) \<le> u32_max"
  shows "\<exists>s'. emit_encoded cf no_faults l v coll op key vo s = (Inr (), s')"
proof -
  have "encode_payload l v coll op key vo = Inr (payload_of (record_of l v coll op key vo))"
    using assms(1) by (simp add: encode_payload_Inr_iff record_of_def)
  then show ?thesis using assms(2) write_parts_succeed by (simp add: emit_encoded_def)
qed

lemma append_record_succeeds:
  assumes "fields_fit (record_of (seg_next_lsn w) v coll op key vo)"
    and "length (payload_of (record_of (seg_next_lsn w) v coll op key vo)) \<le> u32_max"
  shows "\<exists>w' d'. append_record cf no_faults coll op key vo v track (w, d) = (Inr (seg_next_lsn w), (w', d'))"
proof -
  obtain w1 d1 where "emit_encoded cf no_faults (seg_next_lsn w) v coll op key vo
      (w\<lparr>seg_next_lsn := saturating_inc (seg_next_lsn w)\<rparr>, d) = (Inr (), (w1, d1))"
    using emit_encoded_succeeds [OF assms] by fastforce
  then show ?thesis by (simp add: append_record_def Let_def)
qed

lemma sync_now_succeeds: "\<exists>w' d'. sync_now no_faults (w, d) = (Inr (), (w', d'))"
  by (auto simp: no_faults_def sync_now_def then_op_def flush_buf_def io_step_def)

section \<open>The life of a segment\<close>

text \<open>A state is the log as a list of records, the number of records covered by the last successful
  sync, and the segment. Appends succeed or the writer is given up; a flush or sync may fail; a crash
  is followed by opening the segment again.\<close>

type_synonym wal_state = "raw_wal_record list \<times> nat \<times> segment"

inductive wal_step :: "crc_functions \<Rightarrow> wal_state \<Rightarrow> wal_state \<Rightarrow> bool" for cf where
  wal_append: "append_record cf fl coll op key vo v track (w, d) = (Inr l, s') \<Longrightarrow>
    loggable (record_of l v coll op key vo) \<Longrightarrow> l \<noteq> - 1 \<Longrightarrow>
    wal_step cf (rs, n, (w, d)) (rs @ [record_of l v coll op key vo], n, s')"
| wal_flushed: "wal_flush fl s = (res, s') \<Longrightarrow> wal_step cf (rs, n, s) (rs, n, s')"
| wal_synced: "sync_now fl s = (res, s') \<Longrightarrow>
    wal_step cf (rs, n, s) (rs, if res = Inr () then length rs else n, s')"
| wal_crashed: "crash d d1 \<Longrightarrow> read_records cf (disk_files d1 (seg_path w)) = Inr rs' \<Longrightarrow>
    open_segment cf fl (seg_path w) d1 = (Inr w', d2) \<Longrightarrow> wal_step cf (rs, n, (w, d)) (rs', n, (w', d2))"

definition wal_inv :: "crc_functions \<Rightarrow> wal_state \<Rightarrow> bool" where
  "wal_inv cf = (\<lambda>(rs, n, (w, d)). seg_inv cf rs (w, d) \<and> n \<le> length rs
     \<and> length (log_bytes cf (take n rs)) \<le> disk_synced d (seg_path w))"

lemma log_bytes_take_mono: "m \<le> n \<Longrightarrow> length (log_bytes cf (take m rs)) \<le> length (log_bytes cf (take n rs))"
  by (metis le_add1 length_append log_bytes_simps(3) append_take_drop_id take_take min.absorb1 min_def)

lemma last_lsn_ge: "ascending l rs \<Longrightarrow> l \<le> last_lsn_of l rs"
  by (induction l rs rule: ascending.induct) auto

lemma last_lsn_take_le: "valid_log l rs \<Longrightarrow> last_lsn_of l (take k rs) \<le> last_lsn_of l rs"
  using valid_log_simps(3) [of l "take k rs" "drop k rs"] last_lsn_ge [of "last_lsn_of l (take k rs)" "drop k rs"]
    last_lsn_of_append [of l "take k rs" "drop k rs"]
  by (simp add: valid_log_def)

lemma wal_step_inv:
  assumes "wal_step cf (rs, n, s) (rs', n', s')" and "wal_inv cf (rs, n, s)"
  shows "wal_inv cf (rs', n', s') \<and> take n rs' = take n rs \<and> n \<le> n'"
  using assms(1)
proof cases
  case (wal_append fl coll op key vo v track w d l)
  have i: "seg_inv cf rs (w, d)" using assms(2) wal_append by (simp add: wal_inv_def)
  obtain w' d' where s': "s' = (w', d')" by (cases s')
  note e = append_record_effect [OF wal_append(4) [unfolded s']]
  have "l = seg_next_lsn w" using e by simp
  with append_record_inv [OF wal_append(4) [unfolded s'] i] wal_append e assms(2) s' show ?thesis
    by (auto simp: wal_inv_def)
next
  case (wal_flushed fl res)
  obtain w d w' d' where s: "s = (w, d)" "s' = (w', d')" by (cases s; cases s')
  have f: "seg_frame (w, d) (w', d')" "seg_bytes (w', d') = seg_bytes (w, d)"
    using flush_buf_effect wal_flushed(3) s by (auto simp: wal_flush_def)
  have i: "seg_inv cf rs (w, d)" using assms(2) s by (simp add: wal_inv_def)
  have "seg_inv cf rs (w', d')"
    using i f seg_frame_synced [OF f(1)] by (intro seg_inv_eq [OF i]) (auto simp: seg_frame_def seg_inv_def)
  with wal_flushed f assms(2) s show ?thesis by (auto simp: wal_inv_def seg_frame_def)
next
  case (wal_synced fl res)
  obtain w d w' d' where s: "s = (w, d)" "s' = (w', d')" by (cases s; cases s')
  note e = sync_now_effect [OF wal_synced(3) [unfolded s]]
  have i: "seg_inv cf rs (w, d)" and n: "n \<le> length rs" "length (log_bytes cf (take n rs)) \<le> disk_synced d (seg_path w)"
    using assms(2) s by (simp_all add: wal_inv_def)
  have "seg_inv cf rs (w', d')" by (rule sync_now_inv [OF wal_synced(3) [unfolded s] i])
  moreover have "length (log_bytes cf (take n' rs)) \<le> disk_synced d' (seg_path w')"
    using wal_synced(2) e n i by (cases "res = Inr ()") (simp_all add: seg_inv_def)
  ultimately show ?thesis using wal_synced(1,2) n s by (simp add: wal_inv_def)
next
  case (wal_crashed d d1 w fl w' d2)
  let ?p = "seg_path w"
  have i: "seg_inv cf rs (w, d)" and n: "n \<le> length rs" "length (log_bytes cf (take n rs)) \<le> disk_synced d ?p"
    using assms(2) wal_crashed by (simp_all add: wal_inv_def)
  obtain k where k: "rs' = take k rs" "n \<le> k"
    using crash_recovers [OF i wal_crashed(4)] wal_crashed(5) n by (metis sum.inject(2))
  have sy: "disk_synced d1 ?p = length (content ?p d1)" using wal_crashed(4) by (simp add: crash_def)
  have l: "last_lsn_of 0 rs' \<noteq> - 1"
    using i last_lsn_take_le [of 0 rs k] k(1) less_le_trans [OF _ word_order.extremum, of "last_lsn_of 0 rs" "seg_next_lsn w"]
    by (auto simp: seg_inv_def)
  have "seg_inv cf rs' (w', d2) \<and> seg_path w' = ?p \<and> seg_buf w' = [] \<and> disk_synced d2 ?p = length (content ?p d2)"
  proof (cases "disk_files d1 ?p")
    case None
    with wal_crashed(5) have "rs' = []" by simp
    have "disk_synced d1 ?p = 0" using sy None by (simp add: content_def)
    from open_segment_new [OF wal_crashed(6) None this, of] \<open>rs' = []\<close> show ?thesis
      by (auto simp: seg_inv_def seg_bytes_def)
  next
    case (Some bs)
    obtain tail where "bs = log_bytes cf rs' @ tail" "valid_log 0 rs'" "torn cf tail"
      using wal_crashed(5) Some by (auto elim: read_records_parts)
    then show ?thesis using open_segment_inv [OF wal_crashed(6) _ _ _ l] Some sy by simp
  qed
  moreover have "length (log_bytes cf (take n rs')) \<le> length (log_bytes cf rs')"
    using log_bytes_take_mono [of n "max n (length rs')" cf rs'] by simp
  ultimately show ?thesis
    using n k wal_crashed(1,2,3) by (auto simp: wal_inv_def seg_inv_def seg_bytes_def)
qed

text \<open>The contract of a log with acknowledged records: a state is the log, the number of acknowledged
  records and the machine, and no step drops or changes an acknowledged record.\<close>

locale durable_log =
  fixes step :: "'r list \<times> nat \<times> 's \<Rightarrow> 'r list \<times> nat \<times> 's \<Rightarrow> bool"
    and inv :: "'r list \<Rightarrow> nat \<Rightarrow> 's \<Rightarrow> bool"
  assumes step_keeps: "step (rs, n, s) (rs', n', s') \<Longrightarrow> inv rs n s \<Longrightarrow>
    inv rs' n' s' \<and> take n rs' = take n rs \<and> n \<le> n'"
    and acked_bound: "inv rs n s \<Longrightarrow> n \<le> length rs"
begin

lemma steps_keep:
  assumes "step\<^sup>*\<^sup>* (rs, n, s) (rs', n', s')" and "inv rs n s"
  shows "inv rs' n' s' \<and> take n rs' = take n rs \<and> n \<le> n'"
  using assms
proof (induction "(rs', n', s')" arbitrary: rs' n' s' rule: rtranclp_induct)
  case base
  then show ?case by simp
next
  case (step y rs2 n2 s2)
  obtain rs1 n1 s1 where y: "y = (rs1, n1, s1)" by (cases y)
  note st = step.hyps(2) [unfolded y]
  from step.hyps(3) [OF y step.prems] have i1: "inv rs1 n1 s1" "take n rs1 = take n rs" "n \<le> n1" by simp_all
  have "take n rs2 = take n (take n1 rs2)" using i1(3) by (simp add: min_absorb1)
  also have "\<dots> = take n rs1" using step_keeps [OF st i1(1)] i1(3) by (simp add: min_absorb1)
  finally show ?case using step_keeps [OF st i1(1)] i1 by simp
qed

lemma acked_records_kept:
  assumes "step\<^sup>*\<^sup>* (rs, n, s) (rs', n', s')" and "inv rs n s" and "i < n"
  shows "i < length rs' \<and> rs' ! i = rs ! i"
proof -
  from steps_keep [OF assms(1,2)] have k: "inv rs' n' s'" "take n rs' = take n rs" "n \<le> n'" by simp_all
  then have "i < length rs'" using assms(3) acked_bound [OF k(1)] by simp
  moreover have "rs' ! i = rs ! i" using k(2) assms(3) by (metis nth_take)
  ultimately show ?thesis by simp
qed

end

interpretation seg_log: durable_log "wal_step cf" "\<lambda>rs n s. wal_inv cf (rs, n, s)" for cf
  by unfold_locales (rule wal_step_inv, auto simp: wal_inv_def split: prod.splits)

lemma lsn_le_last: "valid_log l rs \<Longrightarrow> r \<in> set rs \<Longrightarrow> w_lsn r \<le> last_lsn_of l rs"
proof (induction rs arbitrary: l)
  case (Cons a rs)
  then show ?case using last_lsn_ge [of "w_lsn a" rs] by (auto simp: valid_log_def)
qed simp

lemma latest_snoc: "latest (rs @ [r]) k = (if record_id r = k then Some r else latest rs k)"
  by (simp add: latest_def)

lemma version_map_latest: "map_of (version_map rs) k = map_option w_version (latest rs k)"
proof (induction rs rule: rev_induct)
  case Nil
  show ?case by (simp add: version_map_def latest_def)
next
  case (snoc r rs)
  then show ?case by (auto simp: version_map_def latest_snoc record_id_def)
qed

lemma open_segment_succeeds:
  assumes "read_records cf (disk_files d p) = Inr rs"
  shows "\<exists>w d'. open_segment cf no_faults p d = (Inr w, d')"
proof -
  have "\<exists>a. append_state_for_path cf no_faults p d = Inr a"
  proof (cases "disk_files d p")
    case None
    then show ?thesis by (simp add: append_state_for_path_def)
  next
    case (Some bs)
    with assms obtain tail where "bs = log_bytes cf rs @ tail" "valid_log 0 rs" "torn cf tail"
      by (auto elim: read_records_parts)
    with Some show ?thesis
      by (simp add: append_state_for_path_def scan_path_def io_step_def no_faults_def and_then_def scan_records_log run_note)
  qed
  then show ?thesis
    by (auto simp: open_segment_def then_op_def io_step_def no_faults_def)
qed

lemma torn_take:
  assumes "loggable r" and "n < length (record_frame cf r)"
  shows "torn cf (take n (record_frame cf r))"
proof -
  have "take n (record_frame cf r) \<noteq> record_frame cf r" using assms(2) by (intro list_neq_lengthI) simp
  then have "strict_prefix (take n (record_frame cf r)) (record_frame cf r)"
    by (simp add: strict_prefix_def take_is_prefix)
  then show ?thesis using torn_prefix payload_small assms(1) by (simp add: record_frame_def loggable_def)
qed

text \<open>When the magic number just fits into the buffer and the flush for the length field fails, the
  magic number stays behind.\<close>

lemma append_fails_after_magic:
  assumes "length (seg_buf w) = 8185" and "fl ''write raw WAL length'' = Some (n, message)"
    and "loggable (record_of (seg_next_lsn w) v coll op key vo)"
  shows "\<exists>w1 d1. append_record cf fl coll op key vo v track (w, d) = (Inl (wal_io ''write raw WAL length'' message), (w1, d1))
    \<and> seg_bytes (w1, d1) = seg_bytes (w, d) @ le_bytes 4 raw_wal_record_magic"
proof -
  let ?r = "record_of (seg_next_lsn w) v coll op key vo"
  have "encode_payload (seg_next_lsn w) v coll op key vo = Inr (payload_of ?r)"
    using assms(3) by (simp add: encode_payload_Inr_iff loggable_def readable_def flip: record_of_def)
  moreover have "\<not> u32_max < length (payload_of ?r)"
    using assms(3) by (simp add: loggable_def u32_max_def raw_wal_max_payload_bytes_def)
  moreover define w' m b' where "w' = w\<lparr>seg_next_lsn := saturating_inc (seg_next_lsn w)\<rparr>"
    and "m = le_bytes 4 raw_wal_record_magic" and "b' = seg_buf w @ m"
  have "write_all fl ''write raw WAL magic'' m (w', d) = (Inr (), (w'\<lparr>seg_buf := b'\<rparr>, d))"
    using assms(1) by (simp add: write_all_def spare_def buf_capacity_def buf_copy_def w'_def m_def b'_def)
  moreover have "write_all fl ''write raw WAL length'' (le_bytes 4 x) (w'\<lparr>seg_buf := b'\<rparr>, d) =
      (Inl (wal_io ''write raw WAL length'' message), (w'\<lparr>seg_buf := drop n b'\<rparr>, file_append (seg_path w) (take n b') d))"
    for x :: u32
  proof -
    have "length b' = 8189" using assms(1) by (simp add: b'_def m_def)
    then show ?thesis using assms(2)
      by (auto simp: write_all_def spare_def buf_capacity_def flush_buf_def then_op_def w'_def)
  qed
  ultimately have "append_record cf fl coll op key vo v track (w, d) = (Inl (wal_io ''write raw WAL length'' message),
      (w'\<lparr>seg_buf := drop n b'\<rparr>, file_append (seg_path w) (take n b') d))"
    by (simp add: append_record_def Let_def emit_encoded_def frame_labels_def frame_parts_def
        flip: w'_def m_def)
  moreover have "content (seg_path w) (file_append (seg_path w) (take n b') d) @ drop n b' = content (seg_path w) d @ b'"
    by simp
  ultimately show ?thesis by (simp add: seg_bytes_def w'_def) (simp add: b'_def m_def)
qed

section \<open>Properties\<close>

text \<open>C15. Appending to a healthy segment is appending one record to its log: a successful append
  returns the next sequence number and leaves a healthy segment whose log has exactly that record
  added, and without I/O faults every record that fits is appended.\<close>

theorem segment_append_refines:
  assumes "seg_inv cf rs (w, d)" and "loggable (record_of (seg_next_lsn w) v coll op key vo)" and "seg_next_lsn w \<noteq> - 1"
  shows "(\<forall>fl l s'. append_record cf fl coll op key vo v track (w, d) = (Inr l, s') \<longrightarrow>
      l = seg_next_lsn w \<and> seg_inv cf (rs @ [record_of l v coll op key vo]) s')
    \<and> (\<exists>s'. append_record cf no_faults coll op key vo v track (w, d) = (Inr (seg_next_lsn w), s'))"
proof (intro conjI allI impI)
  fix fl l s' assume a: "append_record cf fl coll op key vo v track (w, d) = (Inr l, s')"
  obtain w' d' where "s' = (w', d')" by (cases s')
  with append_record_inv [OF _ assms] a show "l = seg_next_lsn w" "seg_inv cf (rs @ [record_of l v coll op key vo]) s'"
    by auto
next
  have "fields_fit (record_of (seg_next_lsn w) v coll op key vo)"
    "length (payload_of (record_of (seg_next_lsn w) v coll op key vo)) \<le> u32_max"
    using assms(2) by (auto simp: loggable_def readable_def raw_wal_max_payload_bytes_def u32_max_def)
  then show "\<exists>s'. append_record cf no_faults coll op key vo v track (w, d) = (Inr (seg_next_lsn w), s')"
    using append_record_succeeds by blast
qed


text \<open>C16. Opening a segment for writing repairs it: the torn tail is cut off and nothing else, the next
  sequence number is beyond every record of the log, and every key's version is that of its last
  record.\<close>

theorem open_repairs:
  assumes "open_segment cf fl p d = (Inr w, d')" and "disk_files d p = Some bs"
    and "disk_synced d p \<le> length bs" and "read_records cf (Some bs) = Inr rs" and "last_lsn_of 0 rs \<noteq> - 1"
  shows "disk_files d' p = Some (log_bytes cf rs) \<and> prefix (log_bytes cf rs) bs \<and> read_records cf (disk_files d' p) = Inr rs
    \<and> (\<forall>r \<in> set rs. w_lsn r < seg_next_lsn w)
    \<and> (\<forall>k. map_of (seg_versions w) k = map_option w_version (latest rs k))"
proof -
  obtain tail where t: "bs = log_bytes cf rs @ tail" "valid_log 0 rs" "torn cf tail"
    using assms(4) by (rule read_records_parts)
  have "disk_synced d p \<le> length (content p d)" using assms(2,3) by (simp add: content_Some)
  note o = open_segment_inv [OF assms(1) assms(2) [unfolded t(1)] t(2,3) assms(5) this]
  then have f: "disk_files d' p = Some (log_bytes cf rs)"
    by (auto simp: seg_inv_def seg_bytes_def content_def)
  moreover have "w_lsn r < seg_next_lsn w" if "r \<in> set rs" for r
    using o lsn_le_last [OF t(2) that] by (auto simp: seg_inv_def)
  ultimately show ?thesis
    using o t read_records_log [OF t(2) torn_Nil] version_map_latest by simp
qed



section \<open>Concrete segments\<close>

definition new_disk :: disk where
  "new_disk = \<lparr>disk_files = [''wal'' \<mapsto> []], disk_synced = (\<lambda>_. 0)\<rparr>"

definition new_writer :: raw_wal_segment_writer where
  "new_writer = \<lparr>seg_path = ''wal'', seg_buf = [], seg_next_lsn = 1, seg_versions = []\<rparr>"

lemma new_segment_inv: "seg_inv plain_crc [] (new_writer, new_disk)"
  by (simp add: seg_inv_def new_writer_def new_disk_def seg_bytes_def content_def)

lemma sample_record_of: "record_of l 1 ''c'' Put [1] (Some [2]) = sample_record l"
  by (simp add: record_of_def sample_record_def)

theorem segment_append_refines_witness:
  "\<exists>s'. append_record plain_crc no_faults ''c'' Put [1] (Some [2]) 1 False (new_writer, new_disk) = (Inr 1, s')
     \<and> seg_inv plain_crc [sample_record 1] s'"
proof -
  have l: "loggable (record_of (seg_next_lsn new_writer) 1 ''c'' Put [1] (Some [2]))"
    by (simp add: sample_record_of sample_loggable)
  have "seg_next_lsn new_writer \<noteq> - 1" "seg_next_lsn new_writer = 1" by (simp_all add: new_writer_def)
  with segment_append_refines [OF new_segment_inv l] show ?thesis
    by (metis append_Nil sample_record_of)
qed

lemma new_segment_step:
  obtains s where "wal_step plain_crc ([], 0, (new_writer, new_disk)) ([sample_record 1], 0, s)"
proof -
  have l: "loggable (record_of (seg_next_lsn new_writer) 1 ''c'' Put [1] (Some [2]))"
    by (simp add: sample_record_of sample_loggable)
  then have "fields_fit (record_of (seg_next_lsn new_writer) 1 ''c'' Put [1] (Some [2]))"
    "length (payload_of (record_of (seg_next_lsn new_writer) 1 ''c'' Put [1] (Some [2]))) \<le> u32_max"
    by (simp_all add: loggable_def readable_def raw_wal_max_payload_bytes_def u32_max_def)
  from append_record_succeeds [OF this] obtain w' d' where
    "append_record plain_crc no_faults ''c'' Put [1] (Some [2]) 1 False (new_writer, new_disk) = (Inr 1, (w', d'))"
    by (fastforce simp: new_writer_def)
  from wal_append [OF this, of "[]" 0] show thesis using that by (simp add: sample_record_of sample_loggable)
qed


definition torn_disk :: disk where
  "torn_disk = \<lparr>disk_files = [''wal'' \<mapsto> log_bytes plain_crc [sample_record 1, sample_record 2]
      @ take 9 (record_frame plain_crc (sample_record 3))], disk_synced = (\<lambda>_. 0)\<rparr>"

lemma torn_disk_read: "read_records plain_crc (disk_files torn_disk ''wal'') = Inr [sample_record 1, sample_record 2]"
proof -
  have "valid_log 0 [sample_record 1, sample_record 2]" using sample_loggable by (simp add: sample_record_def)
  moreover have "torn plain_crc (take 9 (record_frame plain_crc (sample_record 3)))"
    by (intro torn_take sample_loggable) simp
  ultimately have "read_records plain_crc (Some (log_bytes plain_crc [sample_record 1, sample_record 2]
      @ take 9 (record_frame plain_crc (sample_record 3)))) = Inr [sample_record 1, sample_record 2]"
    by (rule read_records_log)
  then show ?thesis unfolding torn_disk_def by (simp only: disk.select_convs fun_upd_same)
qed

theorem open_repairs_witness:
  "\<exists>w d'. open_segment plain_crc no_faults ''wal'' torn_disk = (Inr w, d')
     \<and> disk_files d' ''wal'' = Some (log_bytes plain_crc [sample_record 1, sample_record 2])"
proof -
  obtain w d' where o: "open_segment plain_crc no_faults ''wal'' torn_disk = (Inr w, d')"
    using open_segment_succeeds [OF torn_disk_read] by blast
  obtain bs where bs: "disk_files torn_disk ''wal'' = Some bs" by (simp add: torn_disk_def)
  have "disk_synced torn_disk ''wal'' \<le> length bs" by (simp add: torn_disk_def)
  moreover have "last_lsn_of 0 [sample_record 1, sample_record 2] \<noteq> - 1" by (simp add: sample_record_def)
  ultimately show ?thesis using open_repairs [OF o bs] torn_disk_read bs o by metis
qed


definition big_record :: raw_wal_record where
  "big_record = record_of 1 1 ''c'' Put [1] (Some (replicate 8140 0))"

definition full_writer :: raw_wal_segment_writer where
  "full_writer = \<lparr>seg_path = ''wal'', seg_buf = record_frame plain_crc big_record, seg_next_lsn = 2, seg_versions = []\<rparr>"

definition length_fault :: io_faults where
  "length_fault label = (if label = ''write raw WAL length'' then Some (0, ''disk full'') else None)"

lemma big_loggable: "loggable big_record"
proof -
  have "rust_string ''c''" by code_simp
  then show ?thesis
    by (simp add: big_record_def loggable_def readable_def fields_fit_def payload_of_def
        raw_wal_max_payload_bytes_def raw_wal_max_field_bytes_def)
qed

lemma full_writer_inv: "seg_inv plain_crc [big_record] (full_writer, new_disk)"
  using big_loggable
  by (simp add: seg_inv_def full_writer_def new_disk_def seg_bytes_def content_def) (simp add: big_record_def)


end
