(* ===== verification/Store_State.thy ===== *)
theory Store_State
  imports Raw_Collection Wal_Segment Schema_Codec
begin

text \<open>
  The state of the store: \<open>MfsStore\<close>, \<open>StoreDurability\<close> (\<open>store/raw.rs\<close>), the secondary indexes of a
  schema collection (\<open>store/index.rs\<close>) and its reference maps (\<open>store/reference.rs\<close>), and the
  operations that only look at it. Locks serialise the operations of the source, so each operation
  is one step on this state. The \<open>Arc\<close>s are shared ownership of the one state.
\<close>

section \<open>Indexes and references\<close>

datatype schema_exact_index_key =
    IK_String string
  | IK_Int32 "32 word"
  | IK_Int64 "64 word"
  | IK_Float f64
  | IK_Bool bool
  | IK_Bytes bytes

record indexed_field =
  ix_name :: string
  ix_type :: schema_field_type
  ix_unique :: bool

type_synonym schema_index_map = "(schema_exact_index_key, raw_key list) hmap"

record reference_field =
  rf_name :: string
  rf_reference :: reference

record schema_collection_references =
  refs_fields :: "reference_field list"
  refs_forward :: "(raw_key, raw_key) hmap list"
  refs_reverse :: "(raw_key, raw_key list) hmap list"

record schema_collection_indexes =
  sci_schema :: schema
  sci_indexed_fields :: "indexed_field list"
  sci_indexes :: "schema_index_map list"
  sci_references :: schema_collection_references

section \<open>The store\<close>

record store_durability =
  du_wal_path :: "file_path option"
  du_wal :: "raw_wal_segment_writer option"
  du_wal_dirty :: bool

record mfs_store =
  st_config :: mfs_store_config
  st_durability :: store_durability
  st_collections :: "(string, raw_collection) hmap"
  st_schema_indexes :: "(string, schema_collection_indexes) hmap"
  st_next_collection_id :: u64

definition new_durability :: "mfs_store_config \<Rightarrow> store_durability" where
  "new_durability config = \<lparr>du_wal_path = cfg_wal_path config, du_wal = None, du_wal_dirty = False\<rparr>"

definition open_memory :: "mfs_store_config \<Rightarrow> mfs_store store_result" where
  "open_memory config = and_then (validate_store_config config) (\<lambda>_.
     Inr \<lparr>st_config = config, st_durability = new_durability config, st_collections = [],
          st_schema_indexes = [], st_next_collection_id = 1\<rparr>)"

definition raw_collection_of :: "mfs_store \<Rightarrow> string \<Rightarrow> raw_collection store_result" where
  "raw_collection_of st coll = ok_or (CollectionNotFound coll) (map_of (st_collections st) coll)"

definition get_raw :: "mfs_store \<Rightarrow> string \<Rightarrow> raw_key \<Rightarrow> read_result option store_result" where
  "get_raw st coll key = and_then (raw_collection_of st coll) (\<lambda>rc. Inr (rc_get rc key))"

definition collection_count :: "mfs_store \<Rightarrow> string \<Rightarrow> u64 store_result" where
  "collection_count st coll = and_then (raw_collection_of st coll) (\<lambda>rc. Inr (rc_record_count rc))"

definition schema_indexes_for_collection :: "mfs_store \<Rightarrow> string \<Rightarrow> schema_collection_indexes option" where
  "schema_indexes_for_collection st coll = map_of (st_schema_indexes st) coll"

definition create_raw_collection :: "string \<Rightarrow> (mfs_store, collection_id) op" where
  "create_raw_collection name st =
     (if map_of (st_collections st) name \<noteq> None then (Inl (CollectionAlreadyExists name), st)
      else if length (st_collections st) \<ge> max_collections (st_config st)
        then (Inl (CollectionLimitExceeded (max_collections (st_config st))), st)
      else (Inr (st_next_collection_id st),
        st\<lparr>st_next_collection_id := st_next_collection_id st + 1,
           st_collections := hm_insert name (rc_with_capacity (raw_initial_capacity (st_config st))) (st_collections st)\<rparr>))"

definition set_collection :: "string \<Rightarrow> raw_collection \<Rightarrow> mfs_store \<Rightarrow> mfs_store" where
  "set_collection coll rc st = st\<lparr>st_collections := hm_insert coll rc (st_collections st)\<rparr>"

definition set_schema_indexes :: "string \<Rightarrow> schema_collection_indexes \<Rightarrow> mfs_store \<Rightarrow> mfs_store" where
  "set_schema_indexes coll ix st = st\<lparr>st_schema_indexes := hm_insert coll ix (st_schema_indexes st)\<rparr>"

end
