(* ===== verification/Schema_Keys.thy ===== *)
theory Schema_Keys
  imports Store_State
begin

text \<open>
  From documents to keys: the primary key of a document (\<open>store/schema_mode.rs\<close>), the exact index
  key of a value and the decoding of a stored document (\<open>store/index.rs\<close>).
\<close>

section \<open>Primary keys\<close>

definition validate_schema :: "schema \<Rightarrow> unit store_result" where
  "validate_schema s = map_err (SchemaDefinition (s_name s)) (validate s)"

definition schema_document_error :: "schema \<Rightarrow> schema_value_error \<Rightarrow> store_error" where
  "schema_document_error s e = SchemaDocument (s_name s) e"

definition ensure_document_root :: "schema \<Rightarrow> schema_value \<Rightarrow> unit store_result" where
  "ensure_document_root s doc =
     (if as_object doc \<noteq> None then Inr () else Inl (schema_document_error s (RootMustBeObject (kind doc))))"

definition primary_field :: "schema \<Rightarrow> schema_field store_result" where
  "primary_field s = ok_or (SchemaMissingPrimaryField (s_name s)) (primary_field_of s)"

definition encode_key_bytes :: "byte \<Rightarrow> bytes \<Rightarrow> bytes" where
  "encode_key_bytes tag bs = tag # bs"

definition encode_i32_key :: "32 word \<Rightarrow> bytes" where
  "encode_i32_key v = 1 # le_bytes 4 v"

definition encode_i64_key :: "64 word \<Rightarrow> bytes" where
  "encode_i64_key v = 2 # le_bytes 8 v"

definition primary_key_mismatch :: "schema \<Rightarrow> schema_field \<Rightarrow> schema_value \<Rightarrow> store_error" where
  "primary_key_mismatch s primary v =
     SchemaPrimaryKeyTypeMismatch (s_name s) (f_name primary) (schema_type_name (f_type primary)) (kind v)"

definition primary_value_raw_key :: "schema \<Rightarrow> schema_field \<Rightarrow> schema_value \<Rightarrow> raw_key store_result" where
  "primary_value_raw_key s primary v = (case (f_type primary, v) of
     (FT_String, SV_String x) \<Rightarrow> Inr (encode_key_bytes 0 (as_bytes x))
   | (FT_Int32, SV_Int32 x) \<Rightarrow> Inr (encode_i32_key x)
   | (FT_Int32, SV_Int64 x) \<Rightarrow>
       ok_or (primary_key_mismatch s primary v) (map_option encode_i32_key (i32_try_from x))
   | (FT_Int64, SV_Int32 x) \<Rightarrow> Inr (encode_i64_key (i64_from_i32 x))
   | (FT_Int64, SV_Int64 x) \<Rightarrow> Inr (encode_i64_key x)
   | (FT_Bytes, SV_Bytes x) \<Rightarrow> Inr (encode_key_bytes 3 x)
   | _ \<Rightarrow> Inl (primary_key_mismatch s primary v))"

definition schema_primary_key_raw_key :: "schema \<Rightarrow> schema_value \<Rightarrow> raw_key store_result" where
  "schema_primary_key_raw_key s v =
     and_then (validate_schema s) (\<lambda>_. and_then (primary_field s) (\<lambda>p. primary_value_raw_key s p v))"

definition schema_document_raw_key :: "schema \<Rightarrow> schema_value \<Rightarrow> raw_key store_result" where
  "schema_document_raw_key s doc =
     and_then (validate_schema s) (\<lambda>_.
     and_then (ensure_document_root s doc) (\<lambda>_.
     and_then (primary_field s) (\<lambda>p.
     and_then (ok_or (SchemaMissingPrimaryKey (s_name s) (f_name p)) (field doc (f_name p)))
       (primary_value_raw_key s p))))"

section \<open>Stored documents and index keys\<close>

definition decode_schema_raw_value :: "schema \<Rightarrow> raw_value \<Rightarrow> schema_value store_result" where
  "decode_schema_raw_value s raw =
     and_then (map_err (SchemaDecode (s_name s)) (decode_schema_value raw)) (\<lambda>doc.
     and_then (map_err (SchemaDocument (s_name s)) (validate_document s doc)) (\<lambda>_. Inr doc))"

definition is_exact_index_type :: "schema_field_type \<Rightarrow> bool" where
  "is_exact_index_type ty \<longleftrightarrow> (case ty of
     FT_String \<Rightarrow> True | FT_Int32 \<Rightarrow> True | FT_Int64 \<Rightarrow> True | FT_Float \<Rightarrow> True | FT_Bool \<Rightarrow> True
   | FT_Bytes \<Rightarrow> True | _ \<Rightarrow> False)"

definition index_key_mismatch :: "string \<Rightarrow> string \<Rightarrow> schema_field_type \<Rightarrow> schema_value_kind \<Rightarrow> store_error" where
  "index_key_mismatch coll fld expected actual =
     SchemaIndexKeyTypeMismatch coll fld (schema_type_name expected) actual"

definition index_key_from_value ::
    "string \<Rightarrow> string \<Rightarrow> schema_field_type \<Rightarrow> schema_value \<Rightarrow> schema_exact_index_key store_result" where
  "index_key_from_value coll fld ty v = (case (ty, v) of
     (FT_String, SV_String x) \<Rightarrow> Inr (IK_String x)
   | (FT_Int32, SV_Int32 x) \<Rightarrow> Inr (IK_Int32 x)
   | (FT_Int32, SV_Int64 x) \<Rightarrow>
       ok_or (index_key_mismatch coll fld ty K_Int64) (map_option IK_Int32 (i32_try_from x))
   | (FT_Int64, SV_Int32 x) \<Rightarrow> Inr (IK_Int64 (i64_from_i32 x))
   | (FT_Int64, SV_Int64 x) \<Rightarrow> Inr (IK_Int64 x)
   | (FT_Float, SV_Int32 x) \<Rightarrow> Inr (IK_Float (f64_of_int (sint x)))
   | (FT_Float, SV_Int64 x) \<Rightarrow> Inr (IK_Float (f64_of_int (sint x)))
   | (FT_Float, SV_Float x) \<Rightarrow>
       if f64_is_finite x then Inr (IK_Float x) else Inl (index_key_mismatch coll fld ty (kind v))
   | (FT_Bool, SV_Bool x) \<Rightarrow> Inr (IK_Bool x)
   | (FT_Bytes, SV_Bytes x) \<Rightarrow> Inr (IK_Bytes x)
   | _ \<Rightarrow> Inl (index_key_mismatch coll fld ty (kind v)))"

end
