(* ===== verification/Schema_Index.thy ===== *)
theory Schema_Index
  imports Schema_Keys
begin

text \<open>
  Secondary indexes (\<open>store/index.rs\<close>) and reference maps (\<open>store/reference.rs\<close>) of a schema
  collection. A write is prepared against the current state, which may refuse it, and the plan is
  applied once the record is stored. The engine the code consults is the state of the store.
\<close>

section \<open>Plans\<close>

record prepared_index_entry =
  pe_field_idx :: nat
  pe_key :: schema_exact_index_key

record prepared_reference_entry =
  pr_field_idx :: nat
  pr_target_key :: raw_key

record schema_reference_write_plan =
  rp_old_entries :: "prepared_reference_entry list"
  rp_new_entries :: "prepared_reference_entry list"

record schema_index_write_plan =
  ip_old_entries :: "prepared_index_entry list"
  ip_new_entries :: "prepared_index_entry list"
  ip_reference_plan :: schema_reference_write_plan

section \<open>References\<close>

definition new_references :: "schema \<Rightarrow> schema_collection_references" where
  "new_references s =
     (let fs = List.map_filter (\<lambda>f. map_option (\<lambda>r. \<lparr>rf_name = f_name f, rf_reference = r\<rparr>) (f_reference f)) (s_fields s) in
      \<lparr>refs_fields = fs, refs_forward = replicate (length fs) [], refs_reverse = replicate (length fs) []\<rparr>)"

definition referenced_schema :: "mfs_store \<Rightarrow> schema \<Rightarrow> reference_field \<Rightarrow> schema store_result" where
  "referenced_schema st s f =
     and_then (ok_or (ReferenceTargetCollectionNotFound (s_name s) (rf_name f) (ref_collection (rf_reference f)))
       (schema_indexes_for_collection st (ref_collection (rf_reference f)))) (\<lambda>target.
     and_then (ok_or (SchemaMissingPrimaryField (s_name (sci_schema target)))
       (primary_field_of (sci_schema target))) (\<lambda>primary.
     if f_name primary \<noteq> ref_field (rf_reference f)
       then Inl (ReferenceTargetNotPrimary (s_name s) (rf_name f) (ref_collection (rf_reference f)) (ref_field (rf_reference f)))
     else Inr (sci_schema target)))"

definition target_key_from_value :: "mfs_store \<Rightarrow> schema \<Rightarrow> reference_field \<Rightarrow> schema_value \<Rightarrow> raw_key store_result" where
  "target_key_from_value st s f v =
     and_then (referenced_schema st s f) (\<lambda>target. schema_primary_key_raw_key target v)"

fun reference_entries_from ::
    "mfs_store \<Rightarrow> schema \<Rightarrow> schema_value \<Rightarrow> nat \<Rightarrow> reference_field list \<Rightarrow> prepared_reference_entry list store_result" where
  "reference_entries_from st s doc i [] = Inr []"
| "reference_entries_from st s doc i (f # fs) = (case field doc (rf_name f) of
     None \<Rightarrow> reference_entries_from st s doc (i + 1) fs
   | Some v \<Rightarrow>
       if v = SV_Null then reference_entries_from st s doc (i + 1) fs
       else and_then (target_key_from_value st s f v) (\<lambda>key.
         and_then (reference_entries_from st s doc (i + 1) fs) (\<lambda>es.
           Inr (\<lparr>pr_field_idx = i, pr_target_key = key\<rparr> # es))))"

definition document_entries ::
    "mfs_store \<Rightarrow> schema \<Rightarrow> schema_collection_references \<Rightarrow> schema_value \<Rightarrow> prepared_reference_entry list store_result" where
  "document_entries st s refs doc = reference_entries_from st s doc 0 (refs_fields refs)"

definition entries_of_old :: "('d \<Rightarrow> 'e list store_result) \<Rightarrow> 'd option \<Rightarrow> 'e list store_result" where
  "entries_of_old entries old = (case old of Some doc \<Rightarrow> entries doc | None \<Rightarrow> Inr [])"

definition references_prepare_put ::
    "mfs_store \<Rightarrow> schema \<Rightarrow> schema_collection_references \<Rightarrow> schema_value option \<Rightarrow> schema_value \<Rightarrow>
     schema_reference_write_plan store_result" where
  "references_prepare_put st s refs old new =
     and_then (entries_of_old (document_entries st s refs) old) (\<lambda>olds.
     and_then (document_entries st s refs new) (\<lambda>news.
       Inr \<lparr>rp_old_entries = olds, rp_new_entries = news\<rparr>))"

definition references_prepare_delete ::
    "mfs_store \<Rightarrow> schema \<Rightarrow> schema_collection_references \<Rightarrow> schema_value option \<Rightarrow>
     schema_reference_write_plan store_result" where
  "references_prepare_delete st s refs old =
     and_then (entries_of_old (document_entries st s refs) old) (\<lambda>olds.
       Inr \<lparr>rp_old_entries = olds, rp_new_entries = []\<rparr>)"

text \<open>\<open>retain\<close> and the removal of an entry that became empty; appending a key that is not there yet.\<close>

definition drop_key :: "'k \<Rightarrow> raw_key \<Rightarrow> ('k, raw_key list) hmap \<Rightarrow> ('k, raw_key list) hmap" where
  "drop_key k key m = (case map_of m k of
     None \<Rightarrow> m
   | Some keys \<Rightarrow>
       let kept = filter (\<lambda>existing. existing \<noteq> key) keys in
       if kept = [] then hm_remove k m else hm_insert k kept m)"

definition add_key :: "'k \<Rightarrow> raw_key \<Rightarrow> ('k, raw_key list) hmap \<Rightarrow> ('k, raw_key list) hmap" where
  "add_key k key m =
     (let keys = (case map_of m k of None \<Rightarrow> [] | Some keys \<Rightarrow> keys) in
      hm_insert k (if key \<in> set keys then keys else keys @ [key]) m)"

definition remove_reference :: "raw_key \<Rightarrow> prepared_reference_entry \<Rightarrow> schema_collection_references \<Rightarrow> schema_collection_references" where
  "remove_reference source e refs =
     (let i = pr_field_idx e in
      refs\<lparr>refs_forward := (refs_forward refs)[i := hm_remove source (refs_forward refs ! i)],
           refs_reverse := (refs_reverse refs)[i := drop_key (pr_target_key e) source (refs_reverse refs ! i)]\<rparr>)"

definition add_reference :: "raw_key \<Rightarrow> prepared_reference_entry \<Rightarrow> schema_collection_references \<Rightarrow> schema_collection_references" where
  "add_reference source e refs =
     (let i = pr_field_idx e in
      refs\<lparr>refs_forward := (refs_forward refs)[i := hm_insert source (pr_target_key e) (refs_forward refs ! i)],
           refs_reverse := (refs_reverse refs)[i := add_key (pr_target_key e) source (refs_reverse refs ! i)]\<rparr>)"

definition references_apply_write ::
    "raw_key \<Rightarrow> schema_reference_write_plan \<Rightarrow> schema_collection_references \<Rightarrow> schema_collection_references" where
  "references_apply_write source plan refs =
     fold (add_reference source) (rp_new_entries plan)
       (fold (remove_reference source) (rp_old_entries plan) refs)"

definition empty_maps :: "schema_collection_references \<Rightarrow> schema_collection_references" where
  "empty_maps refs = refs\<lparr>refs_forward := replicate (length (refs_fields refs)) [],
     refs_reverse := replicate (length (refs_fields refs)) []\<rparr>"

definition rebuild_document ::
    "mfs_store \<Rightarrow> schema \<Rightarrow> schema_collection_references \<Rightarrow> raw_key \<Rightarrow> schema_value \<Rightarrow> schema_collection_references \<Rightarrow>
     schema_collection_references store_result" where
  "rebuild_document st s refs source doc maps =
     and_then (document_entries st s refs doc) (\<lambda>es. Inr (fold (add_reference source) es maps))"

fun find_named :: "('f \<Rightarrow> string) \<Rightarrow> string \<Rightarrow> nat \<Rightarrow> 'f list \<Rightarrow> (nat \<times> 'f) option" where
  "find_named name_of n i [] = None"
| "find_named name_of n i (f # fs) = (if name_of f = n then Some (i, f) else find_named name_of n (i + 1) fs)"

definition find_reference_field :: "schema \<Rightarrow> schema_collection_references \<Rightarrow> string \<Rightarrow> (nat \<times> reference_field) store_result" where
  "find_reference_field s refs name =
     ok_or (ReferenceFieldNotFound (s_name s) name) (find_named rf_name name 0 (refs_fields refs))"

definition reference_key_from_document ::
    "mfs_store \<Rightarrow> schema_collection_indexes \<Rightarrow> string \<Rightarrow> schema_value \<Rightarrow> raw_key option store_result" where
  "reference_key_from_document st ix name doc =
     and_then (find_reference_field (sci_schema ix) (sci_references ix) name) (\<lambda>(_, f).
     case field doc (rf_name f) of
       None \<Rightarrow> Inr None
     | Some v \<Rightarrow>
         if v = SV_Null then Inr None
         else and_then (target_key_from_value st (sci_schema ix) f v) (\<lambda>key. Inr (Some key)))"

definition reference_target_schema :: "mfs_store \<Rightarrow> schema_collection_indexes \<Rightarrow> string \<Rightarrow> schema store_result" where
  "reference_target_schema st ix name =
     and_then (find_reference_field (sci_schema ix) (sci_references ix) name) (\<lambda>(_, f).
       referenced_schema st (sci_schema ix) f)"

definition reverse_reference_keys :: "schema_collection_indexes \<Rightarrow> string \<Rightarrow> raw_key \<Rightarrow> raw_key list store_result" where
  "reverse_reference_keys ix name target =
     and_then (find_reference_field (sci_schema ix) (sci_references ix) name) (\<lambda>(i, _).
       Inr (case map_of (refs_reverse (sci_references ix) ! i) target of None \<Rightarrow> [] | Some keys \<Rightarrow> keys))"

definition ensure_reference_targets :: "schema_collection_indexes \<Rightarrow> string \<Rightarrow> schema \<Rightarrow> unit store_result" where
  "ensure_reference_targets ix name target =
     (let s = sci_schema ix in
      and_then (find_reference_field s (sci_references ix) name) (\<lambda>(_, f).
      if ref_collection (rf_reference f) \<noteq> s_name target
        then Inl (ReferenceTargetMismatch (s_name s) name (s_name target) (ref_collection (rf_reference f)))
      else and_then (ok_or (SchemaMissingPrimaryField (s_name target)) (primary_field_of target)) (\<lambda>primary.
        if f_name primary \<noteq> ref_field (rf_reference f)
          then Inl (ReferenceTargetNotPrimary (s_name s) name (ref_collection (rf_reference f)) (ref_field (rf_reference f)))
        else Inr ())))"

section \<open>Indexes\<close>

definition new_indexes :: "schema \<Rightarrow> schema_collection_indexes store_result" where
  "new_indexes s =
     and_then (validate_schema s) (\<lambda>_.
     let fs = filter (\<lambda>f. f_indexed f \<or> f_unique f) (s_fields s) in
     case find (\<lambda>f. \<not> is_exact_index_type (f_type f)) fs of
       Some f \<Rightarrow> Inl (UnsupportedExactIndex (s_name s) (f_name f))
     | None \<Rightarrow> Inr \<lparr>sci_schema = s,
         sci_indexed_fields = map (\<lambda>f. \<lparr>ix_name = f_name f, ix_type = f_type f, ix_unique = f_unique f\<rparr>) fs,
         sci_indexes = replicate (length fs) [], sci_references = new_references s\<rparr>)"

fun index_entries_from ::
    "string \<Rightarrow> schema_value \<Rightarrow> nat \<Rightarrow> indexed_field list \<Rightarrow> prepared_index_entry list store_result" where
  "index_entries_from coll doc i [] = Inr []"
| "index_entries_from coll doc i (f # fs) = (case field doc (ix_name f) of
     None \<Rightarrow> index_entries_from coll doc (i + 1) fs
   | Some v \<Rightarrow>
       if v = SV_Null then index_entries_from coll doc (i + 1) fs
       else and_then (index_key_from_value coll (ix_name f) (ix_type f) v) (\<lambda>key.
         and_then (index_entries_from coll doc (i + 1) fs) (\<lambda>es.
           Inr (\<lparr>pe_field_idx = i, pe_key = key\<rparr> # es))))"

definition document_index_entries :: "schema_collection_indexes \<Rightarrow> schema_value \<Rightarrow> prepared_index_entry list store_result" where
  "document_index_entries ix doc = index_entries_from (s_name (sci_schema ix)) doc 0 (sci_indexed_fields ix)"

definition document_matches_index ::
    "schema_collection_indexes \<Rightarrow> indexed_field \<Rightarrow> schema_exact_index_key \<Rightarrow> schema_value \<Rightarrow> bool store_result" where
  "document_matches_index ix f expected doc = (case field doc (ix_name f) of
     None \<Rightarrow> Inr False
   | Some v \<Rightarrow>
       if v = SV_Null then Inr False
       else and_then (index_key_from_value (s_name (sci_schema ix)) (ix_name f) (ix_type f) v)
         (\<lambda>key. Inr (key = expected)))"

definition raw_document_matches_index ::
    "mfs_store \<Rightarrow> schema_collection_indexes \<Rightarrow> raw_key \<Rightarrow> indexed_field \<Rightarrow> schema_exact_index_key \<Rightarrow> bool store_result" where
  "raw_document_matches_index st ix primary f expected =
     and_then (get_raw st (s_name (sci_schema ix)) primary) (\<lambda>found. case found of
       None \<Rightarrow> Inr False
     | Some raw \<Rightarrow>
         and_then (decode_schema_raw_value (sci_schema ix) (rr_value raw)) (\<lambda>doc.
         and_then (schema_document_raw_key (sci_schema ix) doc) (\<lambda>key.
           if key \<noteq> primary then Inr False else document_matches_index ix f expected doc)))"

definition index_keys :: "schema_collection_indexes \<Rightarrow> nat \<Rightarrow> schema_exact_index_key \<Rightarrow> raw_key list" where
  "index_keys ix i key = (case map_of (sci_indexes ix ! i) key of None \<Rightarrow> [] | Some keys \<Rightarrow> keys)"

fun check_unique_holders ::
    "mfs_store \<Rightarrow> schema_collection_indexes \<Rightarrow> raw_key \<Rightarrow> indexed_field \<Rightarrow> schema_exact_index_key \<Rightarrow> raw_key list \<Rightarrow>
     unit store_result" where
  "check_unique_holders st ix primary f key [] = Inr ()"
| "check_unique_holders st ix primary f key (existing # keys) =
     (if existing = primary then check_unique_holders st ix primary f key keys
      else and_then (raw_document_matches_index st ix existing f key) (\<lambda>matches.
        if matches then Inl (UniqueIndexConflict (s_name (sci_schema ix)) (ix_name f) existing)
        else check_unique_holders st ix primary f key keys))"

fun validate_unique_constraints ::
    "mfs_store \<Rightarrow> schema_collection_indexes \<Rightarrow> raw_key \<Rightarrow> prepared_index_entry list \<Rightarrow> unit store_result" where
  "validate_unique_constraints st ix primary [] = Inr ()"
| "validate_unique_constraints st ix primary (e # es) =
     (let f = sci_indexed_fields ix ! pe_field_idx e in
      if \<not> ix_unique f then validate_unique_constraints st ix primary es
      else and_then (check_unique_holders st ix primary f (pe_key e) (index_keys ix (pe_field_idx e) (pe_key e)))
        (\<lambda>_. validate_unique_constraints st ix primary es))"

definition prepare_put ::
    "mfs_store \<Rightarrow> schema_collection_indexes \<Rightarrow> raw_key \<Rightarrow> schema_value option \<Rightarrow> schema_value \<Rightarrow>
     schema_index_write_plan store_result" where
  "prepare_put st ix primary old new =
     and_then (entries_of_old (document_index_entries ix) old) (\<lambda>olds.
     and_then (document_index_entries ix new) (\<lambda>news.
     and_then (validate_unique_constraints st ix primary news) (\<lambda>_.
     and_then (references_prepare_put st (sci_schema ix) (sci_references ix) old new) (\<lambda>rp.
       Inr \<lparr>ip_old_entries = olds, ip_new_entries = news, ip_reference_plan = rp\<rparr>))))"

definition prepare_delete ::
    "mfs_store \<Rightarrow> schema_collection_indexes \<Rightarrow> schema_value option \<Rightarrow> schema_index_write_plan store_result" where
  "prepare_delete st ix old =
     and_then (entries_of_old (document_index_entries ix) old) (\<lambda>olds.
     and_then (references_prepare_delete st (sci_schema ix) (sci_references ix) old) (\<lambda>rp.
       Inr \<lparr>ip_old_entries = olds, ip_new_entries = [], ip_reference_plan = rp\<rparr>))"

definition remove_index_entry :: "raw_key \<Rightarrow> prepared_index_entry \<Rightarrow> schema_index_map list \<Rightarrow> schema_index_map list" where
  "remove_index_entry primary e ixs =
     ixs[pe_field_idx e := drop_key (pe_key e) primary (ixs ! pe_field_idx e)]"

definition add_index_entry :: "raw_key \<Rightarrow> prepared_index_entry \<Rightarrow> schema_index_map list \<Rightarrow> schema_index_map list" where
  "add_index_entry primary e ixs =
     ixs[pe_field_idx e := add_key (pe_key e) primary (ixs ! pe_field_idx e)]"

definition apply_write :: "raw_key \<Rightarrow> schema_index_write_plan \<Rightarrow> schema_collection_indexes \<Rightarrow> schema_collection_indexes" where
  "apply_write primary plan ix =
     ix\<lparr>sci_indexes := fold (add_index_entry primary) (ip_new_entries plan)
          (fold (remove_index_entry primary) (ip_old_entries plan) (sci_indexes ix)),
        sci_references := references_apply_write primary (ip_reference_plan plan) (sci_references ix)\<rparr>"

definition lookup_keys ::
    "schema_collection_indexes \<Rightarrow> string \<Rightarrow> schema_value \<Rightarrow> (nat \<times> schema_exact_index_key \<times> raw_key list) store_result" where
  "lookup_keys ix fld v = (case find_named ix_name fld 0 (sci_indexed_fields ix) of
     None \<Rightarrow> Inl (UnindexedField (s_name (sci_schema ix)) fld)
   | Some (i, f) \<Rightarrow>
       and_then (index_key_from_value (s_name (sci_schema ix)) fld (ix_type f) v) (\<lambda>key.
         Inr (i, key, index_keys ix i key)))"

text \<open>One document of a rebuild: its entries in order, with the unique check on the new maps.\<close>

fun rebuild_entries ::
    "schema_collection_indexes \<Rightarrow> raw_key \<Rightarrow> prepared_index_entry list \<Rightarrow> schema_index_map list \<Rightarrow>
     schema_index_map list store_result" where
  "rebuild_entries ix primary [] ixs = Inr ixs"
| "rebuild_entries ix primary (e # es) ixs =
     (let f = sci_indexed_fields ix ! pe_field_idx e;
          keys = (case map_of (ixs ! pe_field_idx e) (pe_key e) of None \<Rightarrow> [] | Some keys \<Rightarrow> keys) in
      case (if ix_unique f then find (\<lambda>existing. existing \<noteq> primary) keys else None) of
        Some existing \<Rightarrow> Inl (UniqueIndexConflict (s_name (sci_schema ix)) (ix_name f) existing)
      | None \<Rightarrow> rebuild_entries ix primary es (add_index_entry primary e ixs))"

definition rebuild_one ::
    "mfs_store \<Rightarrow> schema_collection_indexes \<Rightarrow> raw_key \<times> schema_value \<Rightarrow> schema_index_map list \<times> schema_collection_references \<Rightarrow>
     (schema_index_map list \<times> schema_collection_references) store_result" where
  "rebuild_one st ix = (\<lambda>(primary, doc) (ixs, refs).
     and_then (document_index_entries ix doc) (\<lambda>es.
     and_then (rebuild_entries ix primary es ixs) (\<lambda>ixs.
     and_then (rebuild_document st (sci_schema ix) (sci_references ix) primary doc refs) (\<lambda>refs.
       Inr (ixs, refs)))))"

definition rebuild_from_documents ::
    "mfs_store \<Rightarrow> schema_collection_indexes \<Rightarrow> (raw_key \<times> schema_value) list \<Rightarrow> schema_collection_indexes store_result" where
  "rebuild_from_documents st ix docs =
     and_then (try_fold (rebuild_one st ix) docs
         (replicate (length (sci_indexed_fields ix)) [], empty_maps (sci_references ix))) (\<lambda>(ixs, refs).
       Inr (ix\<lparr>sci_indexes := ixs, sci_references := refs\<rparr>))"

definition install_schema_indexes :: "schema \<Rightarrow> schema_collection_indexes \<Rightarrow> (mfs_store, unit) op" where
  "install_schema_indexes s ix st = (case map_of (st_schema_indexes st) (s_name s) of
     Some existing \<Rightarrow>
       if sci_schema existing \<noteq> s then (Inl (SchemaDeclarationMismatch (s_name s)), st) else (Inr (), st)
   | None \<Rightarrow> (Inr (), set_schema_indexes (s_name s) ix st))"

definition ensure_schema_indexes :: "schema \<Rightarrow> (mfs_store, schema_collection_indexes) op" where
  "ensure_schema_indexes s st = (case validate_schema s of
     Inl e \<Rightarrow> (Inl e, st)
   | Inr _ \<Rightarrow>
       (case schema_indexes_for_collection st (s_name s) of
          Some existing \<Rightarrow>
            if sci_schema existing \<noteq> s then (Inl (SchemaDeclarationMismatch (s_name s)), st) else (Inr existing, st)
        | None \<Rightarrow>
            (case new_indexes s of
               Inl e \<Rightarrow> (Inl e, st)
             | Inr ix \<Rightarrow> (Inr ix, set_schema_indexes (s_name s) ix st))))"

end
