(* ===== verification/Raw_Store.thy ===== *)
theory Raw_Store
  imports Schema_Index
begin

text \<open>
  The raw store of \<open>store/raw.rs\<close>: acknowledging a write through the write-ahead log, the write path
  with its hooks, replay of logged records (\<open>store/wal.rs\<close>), snapshots and their loading. The
  preflight hook is a function from the current value and version; what it returns is handed to the
  caller together with the result of the write, for the hook that runs after success.
\<close>

type_synonym durable = "store_durability \<times> disk"
type_synonym engine = "mfs_store \<times> disk"

section \<open>Acknowledging writes\<close>

text \<open>Running a segment operation on the writer the store holds.\<close>

definition with_writer :: "raw_wal_segment_writer \<Rightarrow> (segment, 'a) op \<Rightarrow> (durable, 'a) op" where
  "with_writer w act = (\<lambda>(du, d). case act (w, d) of
     (res, (w', d')) \<Rightarrow> (res, (du\<lparr>du_wal := Some w'\<rparr>, d')))"

definition obtain_writer :: "crc_functions \<Rightarrow> io_faults \<Rightarrow> (durable, raw_wal_segment_writer) op" where
  "obtain_writer cf fl = (\<lambda>(du, d). case du_wal du of
     Some w \<Rightarrow> (Inr w, (du, d))
   | None \<Rightarrow>
       (case du_wal_path du of
          None \<Rightarrow> (Inl (InvalidConfig ''wal_path'' ''required for WAL durability modes''), (du, d))
        | Some p \<Rightarrow>
            (case open_segment cf fl p d of
               (Inl e, d') \<Rightarrow> (Inl e, (du, d'))
             | (Inr w, d') \<Rightarrow> (Inr w, (du\<lparr>du_wal := Some w\<rparr>, d')))))"

definition set_dirty :: "bool \<Rightarrow> (durable, unit) op" where
  "set_dirty b = (\<lambda>(du, d). (Inr (), (du\<lparr>du_wal_dirty := b\<rparr>, d)))"

definition sync_writer :: "io_faults \<Rightarrow> (durable, unit) op" where
  "sync_writer fl = (\<lambda>(du, d). case du_wal du of
     None \<Rightarrow> (Inr (), (du, d))
   | Some w \<Rightarrow> with_writer w (sync_now fl) (du, d))"

definition append_raw_wal ::
    "crc_functions \<Rightarrow> io_faults \<Rightarrow> string \<Rightarrow> raw_key \<Rightarrow> raw_value option \<Rightarrow> document_version \<Rightarrow> bool \<Rightarrow>
     (durable, lsn) op" where
  "append_raw_wal cf fl coll key v version sync =
     then_op (obtain_writer cf fl) (\<lambda>w.
     then_op (with_writer w (case v of
         Some x \<Rightarrow> append_put_versioned cf fl coll key x version
       | None \<Rightarrow> append_delete_versioned cf fl coll key version)) (\<lambda>l.
     then_op (if sync then then_op (sync_writer fl) (\<lambda>_. set_dirty False) else set_dirty True) (\<lambda>_. ret l)))"

definition acknowledge_write ::
    "crc_functions \<Rightarrow> io_faults \<Rightarrow> durability_mode \<Rightarrow> string \<Rightarrow> raw_key \<Rightarrow> raw_value option \<Rightarrow> document_version \<Rightarrow>
     (durable, write_acknowledgement) op" where
  "acknowledge_write cf fl mode coll key v version = (case mode of
     MemoryOnly \<Rightarrow> ret AckMemoryOnly
   | SnapshotOnly \<Rightarrow> ret AckSnapshotOnly
   | WalAsync \<Rightarrow> then_op (append_raw_wal cf fl coll key v version False) (\<lambda>l. ret (AckWalBuffered l))
   | WalGroupCommit \<Rightarrow> then_op (append_raw_wal cf fl coll key v version True) (\<lambda>l. ret (AckWalGroupCommitted l))
   | WalSync \<Rightarrow> then_op (append_raw_wal cf fl coll key v version True) (\<lambda>l. ret (AckWalSynced l)))"

definition durability_sync_wal :: "crc_functions \<Rightarrow> io_faults \<Rightarrow> (durable, unit) op" where
  "durability_sync_wal cf fl = (\<lambda>(du, d).
     if \<not> du_wal_dirty du then (Inr (), (du, d))
     else case du_wal du of
       Some w \<Rightarrow> then_op (sync_writer fl) (\<lambda>_. set_dirty False) (du, d)
     | None \<Rightarrow>
         (case du_wal_path du of
            None \<Rightarrow> (Inr (), (du, d))
          | Some p \<Rightarrow>
              if disk_files d p = None then (Inr (), (du, d))
              else then_op (obtain_writer cf fl) (\<lambda>_. then_op (sync_writer fl) (\<lambda>_. set_dirty False)) (du, d)))"

definition durability_compact_wal ::
    "crc_functions \<Rightarrow> io_faults \<Rightarrow> (durable, raw_wal_compaction_stats option) op" where
  "durability_compact_wal cf fl = (\<lambda>(du, d). case du_wal_path du of
     None \<Rightarrow> (Inr None, (du, d))
   | Some p \<Rightarrow>
       then_op (sync_writer fl) (\<lambda>_ (du, d).
         let du = du\<lparr>du_wal := None, du_wal_dirty := False\<rparr> in
         if disk_files d p = None then (Inr None, (du, d))
         else case compact_raw_wal cf fl p d of
           (Inl e, d) \<Rightarrow> (Inl e, (du, d))
         | (Inr stats, d) \<Rightarrow>
             (case open_segment cf fl p d of
                (Inl e, d) \<Rightarrow> (Inl e, (du, d))
              | (Inr w, d) \<Rightarrow> (Inr (Some stats), (du\<lparr>du_wal := Some w\<rparr>, d)))) (du, d))"

text \<open>The same on the whole store.\<close>

definition on_durability :: "(durable, 'a) op \<Rightarrow> (engine, 'a) op" where
  "on_durability act = (\<lambda>(st, d). case act (st_durability st, d) of
     (res, (du, d')) \<Rightarrow> (res, (st\<lparr>st_durability := du\<rparr>, d')))"

definition sync_wal :: "crc_functions \<Rightarrow> io_faults \<Rightarrow> (engine, unit) op" where
  "sync_wal cf fl = on_durability (durability_sync_wal cf fl)"

definition compact_wal :: "crc_functions \<Rightarrow> io_faults \<Rightarrow> (engine, raw_wal_compaction_stats option) op" where
  "compact_wal cf fl = on_durability (durability_compact_wal cf fl)"

definition wal_dirty :: "mfs_store \<Rightarrow> bool" where
  "wal_dirty st = du_wal_dirty (st_durability st)"

section \<open>Writing\<close>

definition next_version :: "document_version \<Rightarrow> document_version" where
  "next_version v = v + 1"

definition write_with_hooks ::
    "crc_functions \<Rightarrow> io_faults \<Rightarrow> string \<Rightarrow> raw_key \<Rightarrow> raw_value option \<Rightarrow> write_options \<Rightarrow>
     (raw_value option \<Rightarrow> document_version \<Rightarrow> 'p store_result) \<Rightarrow> (engine, write_result \<times> 'p) op" where
  "write_with_hooks cf fl coll key v opts preflight = (\<lambda>(st, d).
     case raw_collection_of st coll of
       Inl e \<Rightarrow> (Inl e, (st, d))
     | Inr rc \<Rightarrow>
         let old_record = rc_lookup rc key;
             actual = (case old_record of Some r \<Rightarrow> rec_version r | None \<Rightarrow> 0);
             old_value = Option.bind old_record rec_value in
         if expected_version opts \<noteq> None \<and> expected_version opts \<noteq> Some actual
           then (Inl (Conflict coll key (the (expected_version opts)) actual), (st, d))
         else case preflight old_value actual of
           Inl e \<Rightarrow> (Inl e, (st, d))
         | Inr plan \<Rightarrow>
             let version = next_version actual in
             if \<not> can_insert_or_replace hash_bytes key (rc_records rc)
               then (Inl (CollectionCapacityFull coll), (st, d))
             else case on_durability (acknowledge_write cf fl
                 (effective_durability opts (cfg_durability (st_config st))) coll key v version) (st, d) of
               (Inl e, s) \<Rightarrow> (Inl e, s)
             | (Inr ack, (st, d)) \<Rightarrow>
                 (case rc_insert key \<lparr>rec_value = v, rec_version = version\<rparr> old_value rc of
                    (Full, _) \<Rightarrow> (Inl (CollectionCapacityFull coll), (st, d))
                  | (_, rc) \<Rightarrow>
                      (Inr (\<lparr>wr_version = version, wr_lsn = ack_lsn ack, wr_ack = ack\<rparr>, plan),
                       (set_collection coll rc st, d))))"

definition no_preflight :: "raw_value option \<Rightarrow> document_version \<Rightarrow> unit store_result" where
  "no_preflight old_value actual = Inr ()"

definition first_of :: "('s, 'a \<times> 'b) op \<Rightarrow> ('s, 'a) op" where
  "first_of act = then_op act (\<lambda>(x, _). ret x)"

definition put_raw :: "crc_functions \<Rightarrow> io_faults \<Rightarrow> string \<Rightarrow> raw_key \<Rightarrow> raw_value \<Rightarrow> write_options \<Rightarrow> (engine, write_result) op" where
  "put_raw cf fl coll key v opts = first_of (write_with_hooks cf fl coll key (Some v) opts no_preflight)"

definition delete_raw :: "crc_functions \<Rightarrow> io_faults \<Rightarrow> string \<Rightarrow> raw_key \<Rightarrow> write_options \<Rightarrow> (engine, write_result) op" where
  "delete_raw cf fl coll key opts = first_of (write_with_hooks cf fl coll key None opts no_preflight)"

definition compare_put_raw ::
    "crc_functions \<Rightarrow> io_faults \<Rightarrow> string \<Rightarrow> raw_key \<Rightarrow> raw_value \<Rightarrow> document_version \<Rightarrow> (engine, write_result) op" where
  "compare_put_raw cf fl coll key v expected =
     put_raw cf fl coll key v (default_write_options\<lparr>expected_version := Some expected\<rparr>)"

section \<open>Replay\<close>

definition prepare_schema_replay_plan ::
    "mfs_store \<Rightarrow> schema_collection_indexes \<Rightarrow> raw_key \<Rightarrow> raw_value option \<Rightarrow> raw_value option \<Rightarrow>
     schema_index_write_plan store_result" where
  "prepare_schema_replay_plan st ix key old_raw new_raw =
     and_then (case old_raw of
         None \<Rightarrow> Inr None
       | Some raw \<Rightarrow> and_then (decode_schema_raw_value (sci_schema ix) raw) (\<lambda>doc. Inr (Some doc))) (\<lambda>old.
     case new_raw of
       Some raw \<Rightarrow> and_then (decode_schema_raw_value (sci_schema ix) raw) (\<lambda>new. prepare_put st ix key old new)
     | None \<Rightarrow> prepare_delete st ix old)"

definition apply_raw_replay_record ::
    "string \<Rightarrow> raw_key \<Rightarrow> raw_value option \<Rightarrow> document_version \<Rightarrow> (mfs_store, unit) op" where
  "apply_raw_replay_record coll key v version st = (case raw_collection_of st coll of
     Inl e \<Rightarrow> (Inl e, st)
   | Inr rc \<Rightarrow>
       (case schema_indexes_for_collection st coll of
          Some ix \<Rightarrow>
            (case prepare_schema_replay_plan st ix key (Option.bind (rc_lookup rc key) rec_value) v of
               Inl e \<Rightarrow> (Inl e, st)
             | Inr plan \<Rightarrow>
                 (case insert_replay_record_locked coll key v version rc of
                    Inl e \<Rightarrow> (Inl e, st)
                  | Inr rc' \<Rightarrow> (Inr (), set_schema_indexes coll (apply_write key plan ix) (set_collection coll rc' st))))
        | None \<Rightarrow>
            (case insert_replay_record_locked coll key v version rc of
               Inl e \<Rightarrow> (Inl e, st)
             | Inr rc' \<Rightarrow> (Inr (), set_collection coll rc' st))))"

definition collection_probe :: raw_key where
  "collection_probe = as_bytes ''__mfs_collection_probe__''"

definition ensure_raw_collection :: "string \<Rightarrow> (mfs_store, unit) op" where
  "ensure_raw_collection coll st = (case create_raw_collection coll st of
     (Inr _, st') \<Rightarrow> (Inr (), st')
   | (Inl (CollectionAlreadyExists _), st') \<Rightarrow> (Inr (), st')
   | (Inl (CollectionLimitExceeded _), st') \<Rightarrow>
       (case get_raw st' coll collection_probe of
          Inr _ \<Rightarrow> (Inr (), st')
        | Inl _ \<Rightarrow> (Inl (CollectionLimitExceeded (max_collections (st_config st'))), st'))
   | (Inl e, st') \<Rightarrow> (Inl e, st'))"

definition apply_raw_record :: "raw_wal_record \<Rightarrow> (mfs_store, unit) op" where
  "apply_raw_record r = then_op (ensure_raw_collection (w_collection r)) (\<lambda>_. case w_op r of
     Put \<Rightarrow>
       (case w_value r of
          None \<Rightarrow> raise (wal_corrupt (unat (w_lsn r)) WalMalformedRecord)
        | Some v \<Rightarrow> apply_raw_replay_record (w_collection r) (w_key r) (Some v) (w_version r))
   | Delete \<Rightarrow> apply_raw_replay_record (w_collection r) (w_key r) None (w_version r))"

text \<open>The callback of a replay also counts; its state is the store with the statistics.\<close>

definition replay_record :: "lsn \<Rightarrow> raw_wal_record \<Rightarrow> (mfs_store \<times> raw_wal_replay_stats, unit) op" where
  "replay_record after r = (\<lambda>(st, stats).
     if w_lsn r > after then
       (case apply_raw_record r st of
          (Inl e, st) \<Rightarrow> (Inl e, (st, stats))
        | (Inr _, st) \<Rightarrow> (Inr (), (st, \<lparr>stat_records = stat_records stats + 1, stat_last_lsn = w_lsn r\<rparr>)))
     else (Inr (), (st, stats)))"

definition replay_after :: "crc_functions \<Rightarrow> io_faults \<Rightarrow> file_path \<Rightarrow> disk \<Rightarrow> lsn \<Rightarrow> (mfs_store, raw_wal_replay_stats) op" where
  "replay_after cf fl p d after st = (case scan_path cf fl p d (replay_record after) (st, empty_stats) of
     (Inl e, (st, _)) \<Rightarrow> (Inl e, st)
   | (Inr _, (st, stats)) \<Rightarrow> (Inr stats, st))"

definition replay_into :: "crc_functions \<Rightarrow> io_faults \<Rightarrow> file_path \<Rightarrow> disk \<Rightarrow> (mfs_store, raw_wal_replay_stats) op" where
  "replay_into cf fl p d st = (case scan_path cf fl p d (\<lambda>r (st, stats). case apply_raw_record r st of
       (Inl e, st) \<Rightarrow> (Inl e, (st, stats))
     | (Inr _, st) \<Rightarrow> (Inr (), (st, \<lparr>stat_records = stat_records stats + 1, stat_last_lsn = w_lsn r\<rparr>))) (st, empty_stats) of
     (Inl e, (st, _)) \<Rightarrow> (Inl e, st)
   | (Inr _, (st, stats)) \<Rightarrow> (Inr stats, st))"

section \<open>Snapshots\<close>

record raw_collection_snapshot =
  cs_name :: string
  cs_records :: "raw_snapshot_record list"

type_synonym raw_store_snapshot = "raw_collection_snapshot list"

definition raw_snapshot :: "mfs_store \<Rightarrow> raw_store_snapshot" where
  "raw_snapshot st = sort_key cs_name
     (map (\<lambda>(name, rc). \<lparr>cs_name = name, cs_records = rc_snapshot_records rc\<rparr>) (st_collections st))"

fun load_records :: "string \<Rightarrow> raw_snapshot_record list \<Rightarrow> (raw_key, raw_record) concurrent_map \<times> u64 \<Rightarrow>
    ((raw_key, raw_record) concurrent_map \<times> u64) store_result" where
  "load_records name [] (t, live) = Inr (t, live)"
| "load_records name (s # ss) (t, live) =
     (case cm_insert hash_bytes (sn_key s) \<lparr>rec_value = sn_value s, rec_version = sn_version s\<rparr> t of
        (Full, _) \<Rightarrow> Inl (CollectionCapacityFull name)
      | (_, t') \<Rightarrow> load_records name ss (t', if sn_value s \<noteq> None then live + 1 else live))"

definition saturating_mul :: "nat \<Rightarrow> nat \<Rightarrow> nat" where
  "saturating_mul a b = min (a * b) usize_max"

definition load_collection ::
    "mfs_store_config \<Rightarrow> raw_collection_snapshot \<Rightarrow> (string, raw_collection) hmap \<Rightarrow> (string, raw_collection) hmap store_result" where
  "load_collection config c colls =
     (if map_of colls (cs_name c) \<noteq> None then Inl (CollectionAlreadyExists (cs_name c))
      else
        let capacity = max (max (raw_initial_capacity config) (saturating_mul (length (cs_records c)) 2)) 1 in
        and_then (load_records (cs_name c) (cs_records c) (with_capacity capacity, 0)) (\<lambda>(t, live).
          Inr (hm_insert (cs_name c) \<lparr>rc_records = t, rc_record_count = live\<rparr> colls)))"

definition from_raw_snapshot :: "mfs_store_config \<Rightarrow> raw_store_snapshot \<Rightarrow> mfs_store store_result" where
  "from_raw_snapshot config snapshot =
     and_then (validate_store_config config) (\<lambda>_.
     if length snapshot > max_collections config then Inl (CollectionLimitExceeded (max_collections config))
     else and_then (try_fold (load_collection config) snapshot []) (\<lambda>colls.
       Inr \<lparr>st_config = config, st_durability = new_durability config, st_collections = colls,
            st_schema_indexes = [], st_next_collection_id = of_nat (length colls) + 1\<rparr>))"

end
