(* ===== verification/Checkpoint_Codec.thy ===== *)
theory Checkpoint_Codec
  imports Raw_Store Sequence_Codec
begin

text \<open>
  The file format of \<open>store/checkpoint.rs\<close>: header, payload and checksum. The payload lists the
  collections and, for each, its records. The decoder reads with a cursor and rejects counts that
  the remaining bytes cannot hold before it allocates.
\<close>

definition raw_checkpoint_magic :: u32 where
  "raw_checkpoint_magic = 0x4353464D"

definition raw_checkpoint_format_version :: u16 where
  "raw_checkpoint_format_version = 1"

definition ck_header_len :: nat where "ck_header_len = 14"
definition ck_checksum_len :: nat where "ck_checksum_len = 4"

definition max_checkpoint_payload_bytes :: nat where
  "max_checkpoint_payload_bytes = 512 * 1024 * 1024"

definition max_checkpoint_field_bytes :: nat where
  "max_checkpoint_field_bytes = 64 * 1024 * 1024"

definition min_collection_payload_bytes :: nat where "min_collection_payload_bytes = 12"
definition min_record_payload_bytes :: nat where "min_record_payload_bytes = 13"
definition record_tombstone :: byte where "record_tombstone = 0"
definition record_value :: byte where "record_value = 1"

record raw_checkpoint_collection_metadata =
  mc_name :: string
  mc_record_count :: nat

record raw_checkpoint_metadata =
  ck_format_version :: u16
  ck_lsn :: lsn
  ck_max_collections :: nat
  ck_raw_initial_capacity :: nat
  ck_collection_count :: nat
  ck_record_count :: nat
  ck_collections :: "raw_checkpoint_collection_metadata list"

record decoded_raw_checkpoint =
  dc_metadata :: raw_checkpoint_metadata
  dc_snapshot :: raw_store_snapshot

definition ck_corrupt :: "file_path \<Rightarrow> checkpoint_corruption_kind \<Rightarrow> store_error" where
  "ck_corrupt p k = CheckpointCorruption p k"

definition metadata_for_snapshot :: "mfs_store_config \<Rightarrow> lsn \<Rightarrow> raw_store_snapshot \<Rightarrow> raw_checkpoint_metadata" where
  "metadata_for_snapshot config l snapshot =
     (let collections = map (\<lambda>c. \<lparr>mc_name = cs_name c, mc_record_count = length (cs_records c)\<rparr>) snapshot in
      \<lparr>ck_format_version = raw_checkpoint_format_version, ck_lsn = l, ck_max_collections = max_collections config,
       ck_raw_initial_capacity = raw_initial_capacity config, ck_collection_count = length collections,
       ck_record_count = sum_list (map mc_record_count collections), ck_collections = collections\<rparr>)"

section \<open>Encoding\<close>

definition ck_write_u32 :: "nat \<Rightarrow> bytes store_result" where
  "ck_write_u32 n = (if n > u32_max then Inl (ck_corrupt ''<encode>'' CkFieldTooLarge) else Inr (le_bytes 4 (of_nat n :: u32)))"

definition ck_write_u64 :: "nat \<Rightarrow> bytes store_result" where
  "ck_write_u64 n = (if n > usize_max then Inl (ck_corrupt ''<encode>'' CkFieldTooLarge) else Inr (le_bytes 8 (of_nat n :: u64)))"

definition ck_write_len_prefixed :: "bytes \<Rightarrow> bytes store_result" where
  "ck_write_len_prefixed bs =
     (if length bs > max_checkpoint_field_bytes then Inl (ck_corrupt ''<encode>'' CkFieldTooLarge)
      else and_then (ck_write_u32 (length bs)) (\<lambda>out. Inr (out @ bs)))"

fun encode_each :: "('a \<Rightarrow> bytes store_result) \<Rightarrow> 'a list \<Rightarrow> bytes store_result" where
  "encode_each f [] = Inr []"
| "encode_each f (x # xs) = and_then (f x) (\<lambda>out. and_then (encode_each f xs) (\<lambda>rest. Inr (out @ rest)))"

definition encode_snapshot_record :: "raw_snapshot_record \<Rightarrow> bytes store_result" where
  "encode_snapshot_record r =
     and_then (ck_write_len_prefixed (sn_key r)) (\<lambda>key.
     and_then (case sn_value r of
         Some v \<Rightarrow> and_then (ck_write_len_prefixed v) (\<lambda>out. Inr (record_value # out))
       | None \<Rightarrow> Inr [record_tombstone]) (\<lambda>v.
       Inr (le_bytes 8 (sn_version r) @ key @ v)))"

definition encode_collection :: "raw_collection_snapshot \<Rightarrow> bytes store_result" where
  "encode_collection c =
     and_then (ck_write_len_prefixed (as_bytes (cs_name c))) (\<lambda>name.
     and_then (ck_write_u64 (length (cs_records c))) (\<lambda>n.
     and_then (encode_each encode_snapshot_record (cs_records c)) (\<lambda>records.
       Inr (name @ n @ records))))"

definition encode_checkpoint :: "crc_functions \<Rightarrow> raw_checkpoint_metadata \<Rightarrow> raw_store_snapshot \<Rightarrow> bytes store_result" where
  "encode_checkpoint cf meta snapshot =
     and_then (ck_write_u64 (ck_max_collections meta)) (\<lambda>maxc.
     and_then (ck_write_u64 (ck_raw_initial_capacity meta)) (\<lambda>cap.
     and_then (ck_write_u32 (length snapshot)) (\<lambda>n.
     and_then (ck_write_u64 (ck_record_count meta)) (\<lambda>sum.
     and_then (encode_each encode_collection snapshot) (\<lambda>body.
       let payload = le_bytes 8 (ck_lsn meta) @ maxc @ cap @ n @ sum @ body in
       if length payload > max_checkpoint_payload_bytes then Inl (ck_corrupt ''<encode>'' CkPayloadTooLarge)
       else
         let out = le_bytes 4 raw_checkpoint_magic @ le_bytes 2 raw_checkpoint_format_version
               @ le_bytes 8 (of_nat (length payload) :: u64) @ payload in
         Inr (out @ le_bytes 4 (crc32c cf out)))))))"

section \<open>Decoding\<close>

definition ck_read_exact :: "file_path \<Rightarrow> nat \<Rightarrow> (store_error, bytes) reader" where
  "ck_read_exact path n p c =
     (if length p - c < n then Inl (ck_corrupt path CkMalformedCheckpoint)
      else Inr (take n (drop c p), c + n))"

definition ck_read_u8 :: "file_path \<Rightarrow> (store_error, byte) reader" where
  "ck_read_u8 path p c =
     (if length p - c < 1 then Inl (ck_corrupt path CkMalformedCheckpoint) else Inr (p ! c, c + 1))"

definition ck_read_usize :: "file_path \<Rightarrow> (store_error, nat) reader" where
  "ck_read_usize path p c = and_then (read_le (ck_read_exact path) 8 p c) (\<lambda>(w :: u64, c).
     if unat w > usize_max then Inl (ck_corrupt path CkFieldTooLarge) else Inr (unat w, c))"

definition ck_read_bytes :: "file_path \<Rightarrow> (store_error, bytes) reader" where
  "ck_read_bytes path = read_prefixed (ck_read_exact path) max_checkpoint_field_bytes
     (ck_corrupt path CkFieldTooLarge) (ck_corrupt path CkMalformedCheckpoint)"

definition validate_collection_count :: "file_path \<Rightarrow> nat \<Rightarrow> nat \<Rightarrow> unit store_result" where
  "validate_collection_count path n remaining =
     (if n > remaining div min_collection_payload_bytes then Inl (ck_corrupt path CkMalformedCheckpoint) else Inr ())"

definition validate_record_count :: "file_path \<Rightarrow> nat \<Rightarrow> nat \<Rightarrow> unit store_result" where
  "validate_record_count path n remaining =
     (if n > remaining div min_record_payload_bytes then Inl (ck_corrupt path CkMalformedCheckpoint) else Inr ())"

definition ck_read_record :: "file_path \<Rightarrow> (store_error, raw_snapshot_record) reader" where
  "ck_read_record path p c =
     and_then (read_le (ck_read_exact path) 8 p c) (\<lambda>(version :: u64, c).
     if version = 0 then Inl (ck_corrupt path CkMalformedCheckpoint) else
     and_then (ck_read_bytes path p c) (\<lambda>(key, c).
     and_then (ck_read_u8 path p c) (\<lambda>(marker, c).
     and_then (if marker = record_tombstone then Inr (None, c)
               else if marker = record_value
                 then and_then (ck_read_bytes path p c) (\<lambda>(v, c). Inr (Some v, c))
               else Inl (ck_corrupt path CkMalformedCheckpoint)) (\<lambda>(v, c).
       Inr (\<lparr>sn_key = key, sn_value = v, sn_version = version\<rparr>, c)))))"

text \<open>The loop over the collections; the fourth argument counts the records announced so far.\<close>

fun ck_read_collections ::
    "file_path \<Rightarrow> nat \<Rightarrow> nat \<Rightarrow> nat \<Rightarrow> bytes \<Rightarrow> nat \<Rightarrow> (raw_store_snapshot \<times> nat \<times> nat) store_result" where
  "ck_read_collections path announced 0 decoded p c = Inr ([], decoded, c)"
| "ck_read_collections path announced (Suc n) decoded p c =
     and_then (ck_read_bytes path p c) (\<lambda>(nb, c).
     and_then (ok_or (ck_corrupt path CkMalformedCheckpoint) (from_utf8 nb)) (\<lambda>name.
     if name = [] then Inl (ck_corrupt path CkMalformedCheckpoint) else
     and_then (ck_read_usize path p c) (\<lambda>(count, c).
     and_then (validate_record_count path count (length p - c)) (\<lambda>_.
     if decoded + count > usize_max \<or> decoded + count > announced then Inl (ck_corrupt path CkMalformedCheckpoint) else
     and_then (read_seq (ck_read_record path) count p c) (\<lambda>(records, c).
     and_then (ck_read_collections path announced n (decoded + count) p c) (\<lambda>(rest, decoded, c).
       Inr (\<lparr>cs_name = name, cs_records = records\<rparr> # rest, decoded, c)))))))"

definition ck_decode_payload :: "file_path \<Rightarrow> u16 \<Rightarrow> bytes \<Rightarrow> decoded_raw_checkpoint store_result" where
  "ck_decode_payload path version p =
     and_then (read_le (ck_read_exact path) 8 p 0) (\<lambda>(l :: u64, c).
     and_then (ck_read_usize path p c) (\<lambda>(maxc, c).
     and_then (ck_read_usize path p c) (\<lambda>(cap, c).
     and_then (read_le (ck_read_exact path) 4 p c) (\<lambda>(n :: u32, c).
     and_then (ck_read_usize path p c) (\<lambda>(announced, c).
     and_then (validate_collection_count path (unat n) (length p - c)) (\<lambda>_.
     and_then (validate_record_count path announced (length p - c)) (\<lambda>_.
     and_then (ck_read_collections path announced (unat n) 0 p c) (\<lambda>(collections, decoded, c).
     if c \<noteq> length p \<or> decoded \<noteq> announced then Inl (ck_corrupt path CkMalformedCheckpoint)
     else Inr \<lparr>dc_metadata = \<lparr>ck_format_version = version, ck_lsn = l, ck_max_collections = maxc,
           ck_raw_initial_capacity = cap, ck_collection_count = unat n, ck_record_count = announced,
           ck_collections = map (\<lambda>c. \<lparr>mc_name = cs_name c, mc_record_count = length (cs_records c)\<rparr>) collections\<rparr>,
         dc_snapshot = collections\<rparr>))))))))"

definition decode_checkpoint :: "crc_functions \<Rightarrow> file_path \<Rightarrow> bytes \<Rightarrow> decoded_raw_checkpoint store_result" where
  "decode_checkpoint cf path bs =
     (if length bs < ck_header_len + ck_checksum_len then Inl (ck_corrupt path CkMalformedCheckpoint)
      else if (from_le (take 4 bs) :: u32) \<noteq> raw_checkpoint_magic then Inl (ck_corrupt path CkBadMagic)
      else
        let version = from_le (take 2 (drop 4 bs)) :: u16 in
        if version \<noteq> raw_checkpoint_format_version then Inl (ck_corrupt path CkUnknownFormatVersion)
        else
          let payload_len = unat (from_le (take 8 (drop 6 bs)) :: u64) in
          if payload_len > max_checkpoint_payload_bytes then Inl (ck_corrupt path CkPayloadTooLarge)
          else if length bs \<noteq> ck_header_len + payload_len + ck_checksum_len
            then Inl (ck_corrupt path CkMalformedCheckpoint)
          else
            let checksum_offset = ck_header_len + payload_len;
                stored = from_le (take 4 (drop checksum_offset bs)) in
            if crc32c cf (take checksum_offset bs) \<noteq> stored then Inl (ck_corrupt path CkChecksumMismatch)
            else ck_decode_payload path version (take payload_len (drop ck_header_len bs)))"

section \<open>What the encoder writes\<close>

definition record_bytes :: "raw_snapshot_record \<Rightarrow> bytes" where
  "record_bytes r = le_bytes 8 (sn_version r) @ prefixed (sn_key r)
     @ (case sn_value r of None \<Rightarrow> [record_tombstone] | Some v \<Rightarrow> record_value # prefixed v)"

definition record_fits :: "raw_snapshot_record \<Rightarrow> bool" where
  "record_fits r \<longleftrightarrow> length (sn_key r) \<le> max_checkpoint_field_bytes
     \<and> (\<forall>v. sn_value r = Some v \<longrightarrow> length v \<le> max_checkpoint_field_bytes)"

definition collection_bytes :: "raw_collection_snapshot \<Rightarrow> bytes" where
  "collection_bytes c = prefixed (as_bytes (cs_name c)) @ le_bytes 8 (of_nat (length (cs_records c)) :: u64)
     @ encode_seq record_bytes (cs_records c)"

definition collection_fits :: "raw_collection_snapshot \<Rightarrow> bool" where
  "collection_fits c \<longleftrightarrow> length (cs_name c) \<le> max_checkpoint_field_bytes \<and> length (cs_records c) \<le> usize_max
     \<and> list_all record_fits (cs_records c)"

definition ck_payload :: "raw_checkpoint_metadata \<Rightarrow> raw_store_snapshot \<Rightarrow> bytes" where
  "ck_payload meta snapshot = le_bytes 8 (ck_lsn meta) @ le_bytes 8 (of_nat (ck_max_collections meta) :: u64)
     @ le_bytes 8 (of_nat (ck_raw_initial_capacity meta) :: u64) @ le_bytes 4 (of_nat (length snapshot) :: u32)
     @ le_bytes 8 (of_nat (ck_record_count meta) :: u64) @ encode_seq collection_bytes snapshot"

definition ck_head :: "bytes \<Rightarrow> bytes" where
  "ck_head payload = le_bytes 4 raw_checkpoint_magic @ le_bytes 2 raw_checkpoint_format_version
     @ le_bytes 8 (of_nat (length payload) :: u64) @ payload"

lemma ck_field_small: "max_checkpoint_field_bytes < 2 ^ 32" "max_checkpoint_field_bytes \<le> u32_max"
  by (simp_all add: max_checkpoint_field_bytes_def u32_max_def)

lemma ck_write_u32_iff: "ck_write_u32 n = Inr b \<longleftrightarrow> n \<le> u32_max \<and> b = le_bytes 4 (of_nat n :: u32)"
  by (auto simp: ck_write_u32_def)

lemma ck_write_u64_iff: "ck_write_u64 n = Inr b \<longleftrightarrow> n \<le> usize_max \<and> b = le_bytes 8 (of_nat n :: u64)"
  by (auto simp: ck_write_u64_def)

lemma ck_write_len_prefixed_iff:
  "ck_write_len_prefixed bs = Inr b \<longleftrightarrow> length bs \<le> max_checkpoint_field_bytes \<and> b = prefixed bs"
  using ck_field_small by (auto simp: ck_write_len_prefixed_def and_then_Inr_iff ck_write_u32_iff prefixed_def)

lemma encode_each_iff:
  assumes "\<And>x b. f x = Inr b \<longleftrightarrow> fits x \<and> b = enc x"
  shows "encode_each f xs = Inr b \<longleftrightarrow> list_all fits xs \<and> b = encode_seq enc xs"
  by (induction xs arbitrary: b) (auto simp: and_then_Inr_iff assms)

lemma encode_snapshot_record_iff: "encode_snapshot_record r = Inr b \<longleftrightarrow> record_fits r \<and> b = record_bytes r"
  by (cases "sn_value r")
    (auto simp: encode_snapshot_record_def and_then_Inr_iff ck_write_len_prefixed_iff record_fits_def record_bytes_def)

lemma encode_collection_iff: "encode_collection c = Inr b \<longleftrightarrow> collection_fits c \<and> b = collection_bytes c"
  by (auto simp: encode_collection_def and_then_Inr_iff ck_write_len_prefixed_iff ck_write_u64_iff
      encode_each_iff [OF encode_snapshot_record_iff] collection_fits_def collection_bytes_def)

lemma encode_checkpoint_iff:
  "encode_checkpoint cf meta snapshot = Inr b \<longleftrightarrow>
     ck_max_collections meta \<le> usize_max \<and> ck_raw_initial_capacity meta \<le> usize_max \<and> length snapshot \<le> u32_max
     \<and> ck_record_count meta \<le> usize_max \<and> list_all collection_fits snapshot
     \<and> length (ck_payload meta snapshot) \<le> max_checkpoint_payload_bytes
     \<and> b = ck_head (ck_payload meta snapshot) @ le_bytes 4 (crc32c cf (ck_head (ck_payload meta snapshot)))"
  by (auto simp: encode_checkpoint_def and_then_Inr_iff ck_write_u32_iff ck_write_u64_iff Let_def
      encode_each_iff [OF encode_collection_iff] ck_payload_def ck_head_def)

lemma length_record_bytes: "min_record_payload_bytes \<le> length (record_bytes r)"
  by (auto simp: record_bytes_def min_record_payload_bytes_def split: option.split)

lemma length_collection_bytes: "min_collection_payload_bytes \<le> length (collection_bytes c)"
  by (simp add: collection_bytes_def min_collection_payload_bytes_def)

section \<open>Reading it back\<close>

interpretation ck_rd: cursor_reader "ck_read_exact path" "ck_corrupt path CkMalformedCheckpoint" for path
  by unfold_locales (simp add: ck_read_exact_def)

lemma ck_read_u8_at: "at_cursor p c (b # r) \<Longrightarrow> ck_read_u8 path p c = Inr (b, c + 1)"
  by (frule at_cursor_length) (auto simp: ck_read_u8_def at_cursor_def nth_via_drop)

lemma ck_read_u8_InrD:
  "ck_read_u8 path p c = Inr (b, c') \<Longrightarrow> c \<le> length p \<Longrightarrow> c' = c + 1 \<and> c' \<le> length p \<and> at_cursor p c (b # drop c' p)"
  by (auto simp: ck_read_u8_def at_cursor_def Cons_nth_drop_Suc split: if_splits)

lemma ck_read_usize_at:
  assumes "at_cursor p c (le_bytes 8 (of_nat n :: u64) @ r)" and "n \<le> usize_max"
  shows "ck_read_usize path p c = Inr (n, c + 8)"
proof -
  have "n < 2 ^ 64" using assms(2) by (simp add: u64_max_def)
  then have "unat (of_nat n :: u64) = n" by (simp add: unat_of_nat take_bit_nat_eq_self)
  then show ?thesis using ck_rd.read_le_at [OF assms(1)] assms(2) by (simp add: ck_read_usize_def)
qed

lemma ck_read_usize_InrD:
  assumes "ck_read_usize path p c = Inr (n, c')" and "c \<le> length p"
  shows "c' = c + 8 \<and> c' \<le> length p \<and> n \<le> usize_max \<and> at_cursor p c (le_bytes 8 (of_nat n :: u64) @ drop c' p)"
proof -
  from assms(1) obtain w :: u64 where w: "read_le (ck_read_exact path) 8 p c = Inr (w, c')" "n = unat w" "n \<le> usize_max"
    by (auto simp: ck_read_usize_def and_then_Inr_iff split: if_splits)
  from ck_rd.read_le_InrD [OF w(1) assms(2)] w show ?thesis by auto
qed

lemma ck_read_bytes_at:
  "at_cursor p c (prefixed bs @ r) \<Longrightarrow> length bs \<le> max_checkpoint_field_bytes \<Longrightarrow>
     ck_read_bytes path p c = Inr (bs, c + length (prefixed bs))"
  unfolding ck_read_bytes_def by (rule ck_rd.read_prefixed_at [OF _ _ ck_field_small(1)])

lemma ck_read_bytes_InrD:
  "ck_read_bytes path p c = Inr (bs, c') \<Longrightarrow> c \<le> length p \<Longrightarrow>
     c' = c + 4 + length bs \<and> c' \<le> length p \<and> length bs \<le> max_checkpoint_field_bytes \<and> at_cursor p c (prefixed bs @ drop c' p)"
  unfolding ck_read_bytes_def by (drule (1) ck_rd.read_prefixed_InrD [OF _ _ ck_field_small(1)]) auto

definition record_ok :: "raw_snapshot_record \<Rightarrow> bool" where
  "record_ok r \<longleftrightarrow> record_fits r \<and> sn_version r \<noteq> 0"

lemma ck_read_record_at:
  assumes "at_cursor p c (record_bytes r @ rest)" and "record_ok r"
  shows "ck_read_record path p c = Inr (r, c + length (record_bytes r))"
proof -
  let ?v = "case sn_value r of None \<Rightarrow> [record_tombstone] | Some v \<Rightarrow> record_value # prefixed v"
  note f = assms(2) [unfolded record_ok_def record_fits_def]
  have a0: "at_cursor p c (le_bytes 8 (sn_version r) @ (prefixed (sn_key r) @ (?v @ rest)))"
    using assms(1) by (simp add: record_bytes_def)
  note a1 = at_cursor_advance [OF a0, simplified length_le_bytes]
  note a2 = at_cursor_advance [OF a1]
  have r0: "read_le (ck_read_exact path) 8 p c = Inr (sn_version r, c + 8)" by (rule ck_rd.read_le_at [OF a0]) simp
  have r1: "ck_read_bytes path p (c + 8) = Inr (sn_key r, c + 8 + length (prefixed (sn_key r)))"
    by (rule ck_read_bytes_at [OF a1]) (use f in simp)
  show ?thesis
  proof (cases "sn_value r")
    case None
    with a2 have "at_cursor p (c + 8 + length (prefixed (sn_key r))) (record_tombstone # rest)" by simp
    from ck_read_u8_at [OF this] r0 r1 f None show ?thesis
      by (cases r) (simp add: ck_read_record_def record_bytes_def)
  next
    case (Some v)
    with a2 have a3: "at_cursor p (c + 8 + length (prefixed (sn_key r))) (record_value # (prefixed v @ rest))" by simp
    from ck_read_bytes_at [OF at_cursor_Cons [OF a3]] f Some
    have "ck_read_bytes path p (c + 8 + length (prefixed (sn_key r)) + 1) =
        Inr (v, c + 8 + length (prefixed (sn_key r)) + 1 + length (prefixed v))" by simp
    with ck_read_u8_at [OF a3] r0 r1 f Some show ?thesis
      by (cases r) (simp add: ck_read_record_def record_bytes_def record_value_def record_tombstone_def)
  qed
qed

lemma ck_read_record_InrD:
  assumes "ck_read_record path p c = Inr (r, c')" and "c \<le> length p"
  shows "record_ok r \<and> c' \<le> length p \<and> at_cursor p c (record_bytes r @ drop c' p)"
proof -
  from assms(1) obtain c1 c2 m c3 where
    r0: "read_le (ck_read_exact path) 8 p c = Inr (sn_version r, c1)" and v0: "sn_version r \<noteq> 0"
    and r1: "ck_read_bytes path p c1 = Inr (sn_key r, c2)" and r2: "ck_read_u8 path p c2 = Inr (m, c3)"
    and r3: "(if m = record_tombstone then Inr (None, c3) else if m = record_value
        then and_then (ck_read_bytes path p c3) (\<lambda>(v, c). Inr (Some v, c))
        else Inl (ck_corrupt path CkMalformedCheckpoint)) = Inr (sn_value r, c')"
    unfolding ck_read_record_def by (auto simp: and_then_Inr_iff split: if_splits)
  have e0: "c1 \<le> length p" "at_cursor p c (le_bytes 8 (sn_version r) @ drop c1 p)"
    using ck_rd.read_le_InrD [OF r0 assms(2)] by auto
  note e1 = ck_read_bytes_InrD [OF r1 e0(1)]
  have e2: "c3 \<le> length p" "at_cursor p c2 (m # drop c3 p)" using ck_read_u8_InrD [OF r2] e1 by auto
  show ?thesis
  proof (cases "m = record_tombstone")
    case True
    with r3 have "sn_value r = None" "c' = c3" by auto
    then show ?thesis using e0 e1 e2 v0 True by (simp add: at_cursor_def record_bytes_def record_ok_def record_fits_def)
  next
    case False
    with r3 obtain v where v: "m = record_value" "sn_value r = Some v" "ck_read_bytes path p c3 = Inr (v, c')"
      by (cases "sn_value r") (auto simp: and_then_Inr_iff split: if_splits)
    note e3 = ck_read_bytes_InrD [OF v(3) e2(1)]
    then show ?thesis using e0 e1 e2 v v0 by (simp add: at_cursor_def record_bytes_def record_ok_def record_fits_def)
  qed
qed

interpretation record_codec: exact_codec "ck_read_record path" record_bytes record_ok for path
proof
  fix p c x r assume "at_cursor p c (record_bytes x @ r)" and "record_ok x"
  then show "ck_read_record path p c = Inr (x, c + length (record_bytes x))" by (rule ck_read_record_at)
next
  fix p c x c' assume a: "ck_read_record path p c = Inr (x, c')" "c \<le> length p"
  note i = ck_read_record_InrD [OF a]
  then show "at_cursor p c (record_bytes x @ drop c' p)" by simp
  have "length (drop c p) = length (record_bytes x) + length (drop c' p)" using i by (simp add: at_cursor_def)
  then show "record_ok x \<and> c + length (record_bytes x) \<le> c' \<and> c' \<le> length p" using i a(2) by auto
qed

definition collection_ok :: "raw_collection_snapshot \<Rightarrow> bool" where
  "collection_ok c \<longleftrightarrow> collection_fits c \<and> cs_name c \<noteq> [] \<and> rust_string (cs_name c) \<and> list_all record_ok (cs_records c)"

definition record_total :: "raw_store_snapshot \<Rightarrow> nat" where
  "record_total cs = sum_list (map (\<lambda>c. length (cs_records c)) cs)"

lemma record_total_simps [simp]: "record_total [] = 0" "record_total (c # cs) = length (cs_records c) + record_total cs"
  by (simp_all add: record_total_def)

lemma count_fits:
  assumes "at_cursor p c (encode_seq enc xs @ r)" and "\<And>x. m \<le> length (enc x)" and "0 < m"
  shows "length xs \<le> (length p - c) div m"
proof -
  have "m * length xs \<le> length (encode_seq enc xs)" by (rule length_encode_seq_ge) (rule assms(2))
  then have "m * length xs \<le> length p - c" using at_cursor_length [OF assms(1)] by simp
  then show ?thesis using assms(3) by (simp add: less_eq_div_iff_mult_less_eq mult.commute)
qed

lemma validate_record_count_at:
  "at_cursor p c (encode_seq record_bytes xs @ r) \<Longrightarrow> validate_record_count path (length xs) (length p - c) = Inr ()"
  using count_fits [OF _ length_record_bytes]
  by (fastforce simp: validate_record_count_def min_record_payload_bytes_def)

lemma ck_read_collections_at:
  "at_cursor p c (encode_seq collection_bytes cs @ r) \<Longrightarrow> list_all collection_ok cs \<Longrightarrow>
     decoded + record_total cs \<le> announced \<Longrightarrow> announced \<le> usize_max \<Longrightarrow>
     ck_read_collections path announced (length cs) decoded p c =
       Inr (cs, decoded + record_total cs, c + length (encode_seq collection_bytes cs))"
proof (induction cs arbitrary: c decoded)
  case (Cons x cs)
  let ?n = "length (cs_records x)"
  have ok: "collection_ok x" "list_all collection_ok cs" using Cons.prems(2) by simp_all
  note f = ok(1) [unfolded collection_ok_def collection_fits_def]
  have a0: "at_cursor p c (prefixed (as_bytes (cs_name x)) @ (le_bytes 8 (of_nat ?n :: u64)
      @ (encode_seq record_bytes (cs_records x) @ (encode_seq collection_bytes cs @ r))))"
    using Cons.prems(1) by (simp add: collection_bytes_def [of x])
  note a1 = at_cursor_advance [OF a0]
  note a2 = at_cursor_advance [OF a1, simplified length_le_bytes]
  note a3 = at_cursor_advance [OF a2]
  let ?c = "c + length (prefixed (as_bytes (cs_name x)))"
  have "ck_read_bytes path p c = Inr (as_bytes (cs_name x), ?c)"
    by (rule ck_read_bytes_at [OF a0]) (use f in simp)
  moreover have "ck_read_usize path p ?c = Inr (?n, ?c + 8)"
    by (rule ck_read_usize_at [OF a1]) (use f in simp)
  moreover have "read_seq (ck_read_record path) ?n p (?c + 8)
      = Inr (cs_records x, ?c + 8 + length (encode_seq record_bytes (cs_records x)))"
    by (rule record_codec.read_seq_at [OF a2]) (use f in simp)
  moreover note validate_record_count_at [OF a2, of path]
  moreover have "decoded + ?n + record_total cs \<le> announced" using Cons.prems(3) by simp
  note Cons.IH [OF a3 ok(2) this Cons.prems(4)]
  ultimately show ?case
    using f Cons.prems(3,4) by (simp add: collection_bytes_def [of x] add.assoc)
qed simp

lemma ck_read_collections_InrD:
  "ck_read_collections path announced n decoded p c = Inr (cs, decoded', c') \<Longrightarrow> c \<le> length p \<Longrightarrow>
     length cs = n \<and> list_all collection_ok cs \<and> decoded' = decoded + record_total cs \<and> c' \<le> length p
     \<and> at_cursor p c (encode_seq collection_bytes cs @ drop c' p)"
proof (induction n arbitrary: decoded c cs)
  case 0
  then show ?case by (simp add: at_cursor_def)
next
  case (Suc n)
  from Suc.prems(1) obtain nb c1 name count c2 records c3 rest where
    r0: "ck_read_bytes path p c = Inr (nb, c1)" and u: "from_utf8 nb = Some name" and ne: "name \<noteq> []"
    and r1: "ck_read_usize path p c1 = Inr (count, c2)"
    and r2: "read_seq (ck_read_record path) count p c2 = Inr (records, c3)"
    and r3: "ck_read_collections path announced n (decoded + count) p c3 = Inr (rest, decoded', c')"
    and cs: "cs = \<lparr>cs_name = name, cs_records = records\<rparr> # rest"
    by (auto simp: and_then_Inr_iff split: if_splits)
  note e0 = ck_read_bytes_InrD [OF r0 Suc.prems(2)]
  have e1: "c2 \<le> length p" "count \<le> usize_max" "at_cursor p c1 (le_bytes 8 (of_nat count :: u64) @ drop c2 p)"
    using ck_read_usize_InrD [OF r1] e0 by auto
  have e2: "length records = count" "list_all record_ok records" "c3 \<le> length p"
      "at_cursor p c2 (encode_seq record_bytes records @ drop c3 p)"
    using record_codec.read_seq_InrD [OF r2 e1(1)] record_codec.read_seq_exact [OF r2 e1(1)] by auto
  note e3 = Suc.IH [OF r3 e2(3)]
  have nb: "nb = as_bytes name" "rust_string name" using from_utf8_SomeD [OF u] by auto
  have "collection_ok \<lparr>cs_name = name, cs_records = records\<rparr>"
    using e0 e1 e2 nb ne by (auto simp: collection_ok_def collection_fits_def record_ok_def list_all_iff)
  moreover have "at_cursor p c (encode_seq collection_bytes cs @ drop c' p)"
    using e0 e1 e2 e3 nb cs
    by (simp add: at_cursor_def collection_bytes_def [of "\<lparr>cs_name = name, cs_records = records\<rparr>"])
  ultimately show ?case using e2 e3 cs by simp
qed

section \<open>The whole file\<close>

definition checkpoint_ok :: "decoded_raw_checkpoint \<Rightarrow> bool" where
  "checkpoint_ok dc \<longleftrightarrow> list_all collection_ok (dc_snapshot dc)
     \<and> (\<exists>config l. dc_metadata dc = metadata_for_snapshot config l (dc_snapshot dc))"

lemma metadata_fields:
  "ck_record_count (metadata_for_snapshot config l cs) = record_total cs"
  "ck_lsn (metadata_for_snapshot config l cs) = l"
  "ck_max_collections (metadata_for_snapshot config l cs) = max_collections config"
  "ck_raw_initial_capacity (metadata_for_snapshot config l cs) = raw_initial_capacity config"
  "ck_collection_count (metadata_for_snapshot config l cs) = length cs"
  by (simp_all add: metadata_for_snapshot_def Let_def record_total_def comp_def)

lemma ck_payload_size: "length (ck_payload meta cs) = 36 + length (encode_seq collection_bytes cs)"
  by (simp add: ck_payload_def)

lemma snapshot_bounds:
  "12 * length cs \<le> length (encode_seq collection_bytes cs)" "13 * record_total cs \<le> length (encode_seq collection_bytes cs)"
proof -
  show "12 * length cs \<le> length (encode_seq collection_bytes cs)"
    using length_encode_seq_ge [of 12 collection_bytes cs] length_collection_bytes by (simp add: min_collection_payload_bytes_def)
  show "13 * record_total cs \<le> length (encode_seq collection_bytes cs)"
  proof (induction cs)
    case (Cons c cs)
    have "13 * length (cs_records c) \<le> length (encode_seq record_bytes (cs_records c))"
      using length_encode_seq_ge [of 13 record_bytes] length_record_bytes by (simp add: min_record_payload_bytes_def)
    with Cons show ?case by (simp add: collection_bytes_def [of c])
  qed simp
qed

lemma ck_decode_payload_at:
  assumes "list_all collection_ok cs" and "max_collections config \<le> usize_max" and "raw_initial_capacity config \<le> usize_max"
    and "length cs \<le> u32_max" and "record_total cs \<le> usize_max"
  shows "ck_decode_payload path raw_checkpoint_format_version (ck_payload (metadata_for_snapshot config l cs) cs)
    = Inr \<lparr>dc_metadata = metadata_for_snapshot config l cs, dc_snapshot = cs\<rparr>"
proof -
  let ?m = "metadata_for_snapshot config l cs"
  let ?p = "ck_payload ?m cs"
  have a0: "at_cursor ?p 0 (le_bytes 8 l @ (le_bytes 8 (of_nat (max_collections config) :: u64)
     @ (le_bytes 8 (of_nat (raw_initial_capacity config) :: u64) @ (le_bytes 4 (of_nat (length cs) :: u32)
     @ (le_bytes 8 (of_nat (record_total cs) :: u64) @ (encode_seq collection_bytes cs @ []))))))"
    by (simp add: ck_payload_def metadata_fields)
  note a1 = at_cursor_advance [OF a0, simplified length_le_bytes]
  note a2 = at_cursor_advance [OF a1, simplified length_le_bytes]
  note a3 = at_cursor_advance [OF a2, simplified length_le_bytes]
  note a4 = at_cursor_advance [OF a3, simplified length_le_bytes]
  note a5 = at_cursor_advance [OF a4, simplified length_le_bytes]
  note e = at_cursor_end [OF at_cursor_advance [OF a5]]
  have r0: "read_le (ck_read_exact path) 8 ?p 0 = Inr (l, 0 + 8)" by (rule ck_rd.read_le_at [OF a0]) simp
  note r1 = ck_read_usize_at [OF a1 assms(2), of path]
  note r2 = ck_read_usize_at [OF a2 assms(3), of path]
  have r3: "read_le (ck_read_exact path) 4 ?p (0 + 8 + 8 + 8) = Inr (of_nat (length cs) :: u32, 0 + 8 + 8 + 8 + 4)"
    by (rule ck_rd.read_le_at [OF a3]) simp
  note r4 = ck_read_usize_at [OF a4 assms(5), of path]
  have n: "unat (of_nat (length cs) :: u32) = length cs"
    using assms(4) by (simp add: unat_of_nat take_bit_nat_eq_self u32_max_def)
  have v: "validate_collection_count path (length cs) (length ?p - 36) = Inr ()"
    "validate_record_count path (record_total cs) (length ?p - 36) = Inr ()"
    using snapshot_bounds [of cs] by (simp_all add: validate_collection_count_def validate_record_count_def ck_payload_size
        min_collection_payload_bytes_def min_record_payload_bytes_def less_eq_div_iff_mult_less_eq mult.commute not_less)
  note r5 = ck_read_collections_at [OF a5 assms(1), of 0 "record_total cs" path, simplified]
  show ?thesis
    using r0 r1 r2 r3 r4 r5 e n v assms(5)
    by (simp add: ck_decode_payload_def metadata_for_snapshot_def Let_def record_total_def comp_def)
qed

lemma ck_decode_payload_InrD:
  assumes "ck_decode_payload path raw_checkpoint_format_version p = Inr dc"
  shows "\<exists>config l. dc_metadata dc = metadata_for_snapshot config l (dc_snapshot dc)
    \<and> list_all collection_ok (dc_snapshot dc) \<and> max_collections config \<le> usize_max \<and> raw_initial_capacity config \<le> usize_max
    \<and> length (dc_snapshot dc) \<le> u32_max \<and> record_total (dc_snapshot dc) \<le> usize_max
    \<and> p = ck_payload (dc_metadata dc) (dc_snapshot dc)"
proof -
  let ?cs = "dc_snapshot dc"
  from assms obtain l c1 maxc c2 cap c3 n c4 announced c5 where
    r0: "read_le (ck_read_exact path) 8 p 0 = Inr (l :: u64, c1)"
    and r1: "ck_read_usize path p c1 = Inr (maxc, c2)" and r2: "ck_read_usize path p c2 = Inr (cap, c3)"
    and r3: "read_le (ck_read_exact path) 4 p c3 = Inr (n :: u32, c4)"
    and r4: "ck_read_usize path p c4 = Inr (announced, c5)"
    and r5: "ck_read_collections path announced (unat n) 0 p c5 = Inr (?cs, announced, length p)"
    and m: "dc_metadata dc = \<lparr>ck_format_version = raw_checkpoint_format_version, ck_lsn = l, ck_max_collections = maxc,
           ck_raw_initial_capacity = cap, ck_collection_count = unat n, ck_record_count = announced,
           ck_collections = map (\<lambda>c. \<lparr>mc_name = cs_name c, mc_record_count = length (cs_records c)\<rparr>) ?cs\<rparr>"
    unfolding ck_decode_payload_def by (auto simp: and_then_Inr_iff split: if_splits)
  have e0: "c1 \<le> length p" "at_cursor p 0 (le_bytes 8 l @ drop c1 p)" using ck_rd.read_le_InrD [OF r0] by auto
  note e1 = ck_read_usize_InrD [OF r1 e0(1)]
  have e1': "c2 \<le> length p" using e1 by simp
  note e2 = ck_read_usize_InrD [OF r2 e1']
  have e2': "c3 \<le> length p" using e2 by simp
  have e3: "c4 \<le> length p" "at_cursor p c3 (le_bytes 4 n @ drop c4 p)" using ck_rd.read_le_InrD [OF r3 e2'] by auto
  note e4 = ck_read_usize_InrD [OF r4 e3(1)]
  have e4': "c5 \<le> length p" using e4 by simp
  note e5 = ck_read_collections_InrD [OF r5 e4']
  define config where "config = default_store_config\<lparr>max_collections := maxc, raw_initial_capacity := cap\<rparr>"
  have meta: "dc_metadata dc = metadata_for_snapshot config l ?cs"
    using m e5 by (simp add: metadata_for_snapshot_def Let_def config_def record_total_def comp_def)
  have "n = of_nat (length ?cs)" using e5 by simp
  then have "p = ck_payload (dc_metadata dc) ?cs"
    using e0 e1 e2 e3 e4 e5 by (simp add: at_cursor_def ck_payload_def meta metadata_fields config_def)
  moreover have "unat n < 2 ^ LENGTH(32)" by (rule unsigned_less)
  then have "length ?cs \<le> u32_max" using e5 by (simp add: u32_max_def)
  ultimately show ?thesis using meta e1 e2 e4 e5 by (intro exI [of _ config] exI [of _ l]) (simp add: config_def)
qed

lemma checkpoint_frame_parts:
  assumes "length bs = ck_header_len + n + ck_checksum_len" and "n < 2 ^ 64"
  shows "bs = ck_head p @ le_bytes 4 (crc32c cf (ck_head p)) \<and> length p = n \<longleftrightarrow>
    (from_le (take 4 bs) :: u32) = raw_checkpoint_magic \<and> (from_le (take 2 (drop 4 bs)) :: u16) = raw_checkpoint_format_version
    \<and> unat (from_le (take 8 (drop 6 bs)) :: u64) = n \<and> p = take n (drop ck_header_len bs)
    \<and> crc32c cf (take (ck_header_len + n) bs) = from_le (take 4 (drop (ck_header_len + n) bs))"
    (is "?l \<longleftrightarrow> ?r")
proof
  assume l: ?l
  have u: "unat (of_nat n :: u64) = n" using assms(2) by (simp add: unat_of_nat take_bit_nat_eq_self)
  from l u show ?r by (auto simp: ck_head_def ck_header_len_def)
next
  assume r: ?r
  let ?m = "take 4 bs" and ?v = "take 2 (drop 4 bs)" and ?n = "take 8 (drop 6 bs)"
  have len: "length ?m = 4" "length ?v = 2" "length ?n = 8" "length p = n"
    using assms(1) r by (simp_all add: ck_header_len_def ck_checksum_len_def)
  have "le_bytes 4 raw_checkpoint_magic = ?m" using r len le_bytes_from_le [of ?m 4, where ?'a = 32] by simp
  moreover have "le_bytes 2 raw_checkpoint_format_version = ?v" using r len le_bytes_from_le [of ?v 2, where ?'a = 16] by simp
  moreover have "le_bytes 8 (of_nat n :: u64) = ?n"
  proof -
    have "n = unat (from_le ?n :: u64)" using r by simp
    then have "of_nat n = (from_le ?n :: u64)" by simp
    then show ?thesis using len le_bytes_from_le [of ?n 8, where ?'a = 64] by simp
  qed
  moreover have "take (ck_header_len + n) bs = ?m @ ?v @ ?n @ take n (drop ck_header_len bs)"
    using take_add [of 14 n bs] take_add [of 6 8 bs] take_add [of 4 2 bs] by (simp add: ck_header_len_def)
  ultimately have h: "ck_head p = take (ck_header_len + n) bs" using r len by (simp add: ck_head_def)
  moreover have "length (drop (ck_header_len + n) bs) = 4" using assms(1) by (simp add: ck_checksum_len_def)
  then have "le_bytes 4 (crc32c cf (ck_head p)) = drop (ck_header_len + n) bs"
    using r h le_bytes_from_le [of "drop (ck_header_len + n) bs" 4, where ?'a = 32] by simp
  ultimately show ?l using len by simp
qed

lemma decode_checkpoint_unfold:
  assumes "n = unat (from_le (take 8 (drop 6 bs)) :: u64)"
  shows "decode_checkpoint cf path bs = Inr dc \<longleftrightarrow>
     length bs = ck_header_len + n + ck_checksum_len \<and> n \<le> max_checkpoint_payload_bytes
       \<and> (from_le (take 4 bs) :: u32) = raw_checkpoint_magic
       \<and> (from_le (take 2 (drop 4 bs)) :: u16) = raw_checkpoint_format_version
       \<and> crc32c cf (take (ck_header_len + n) bs) = from_le (take 4 (drop (ck_header_len + n) bs))
       \<and> ck_decode_payload path raw_checkpoint_format_version (take n (drop ck_header_len bs)) = Inr dc"
  unfolding decode_checkpoint_def Let_def assms [symmetric] by (simp add: not_less)

lemma decode_checkpoint_payload:
  "decode_checkpoint cf path bs = Inr dc \<longleftrightarrow>
     (\<exists>p. length p \<le> max_checkpoint_payload_bytes \<and> bs = ck_head p @ le_bytes 4 (crc32c cf (ck_head p))
       \<and> ck_decode_payload path raw_checkpoint_format_version p = Inr dc)" (is "_ \<longleftrightarrow> ?r")
proof
  assume d: "decode_checkpoint cf path bs = Inr dc"
  define n where "n = unat (from_le (take 8 (drop 6 bs)) :: u64)"
  have n: "length bs = ck_header_len + n + ck_checksum_len" "n \<le> max_checkpoint_payload_bytes"
      "(from_le (take 4 bs) :: u32) = raw_checkpoint_magic"
      "(from_le (take 2 (drop 4 bs)) :: u16) = raw_checkpoint_format_version"
      "crc32c cf (take (ck_header_len + n) bs) = from_le (take 4 (drop (ck_header_len + n) bs))"
      "ck_decode_payload path raw_checkpoint_format_version (take n (drop ck_header_len bs)) = Inr dc"
    using d by (simp_all only: decode_checkpoint_unfold [OF n_def])
  have "n < 2 ^ 64" using n(2) by (simp add: max_checkpoint_payload_bytes_def)
  then have "bs = ck_head (take n (drop ck_header_len bs)) @ le_bytes 4 (crc32c cf (ck_head (take n (drop ck_header_len bs))))"
    by (rule iffD2 [OF checkpoint_frame_parts [OF n(1)], THEN conjunct1]) (intro conjI n(3) n(4) n(5) n_def [symmetric] refl)
  moreover have "length (take n (drop ck_header_len bs)) \<le> max_checkpoint_payload_bytes" using n(2) by simp
  ultimately show ?r using n(6) by blast
next
  assume ?r
  then obtain p where p: "length p \<le> max_checkpoint_payload_bytes" "bs = ck_head p @ le_bytes 4 (crc32c cf (ck_head p))"
    "ck_decode_payload path raw_checkpoint_format_version p = Inr dc" by blast
  have n: "length bs = ck_header_len + length p + ck_checksum_len" "length p < 2 ^ 64"
    using p by (simp_all add: ck_head_def ck_header_len_def ck_checksum_len_def max_checkpoint_payload_bytes_def)
  have "bs = ck_head p @ le_bytes 4 (crc32c cf (ck_head p)) \<and> length p = length p" using p(2) by (intro conjI refl)
  note q = iffD1 [OF checkpoint_frame_parts [OF n] this]
  have r: "(from_le (take 4 bs) :: u32) = raw_checkpoint_magic" "(from_le (take 2 (drop 4 bs)) :: u16) = raw_checkpoint_format_version"
      "length p = unat (from_le (take 8 (drop 6 bs)) :: u64)" "take (length p) (drop ck_header_len bs) = p"
      "crc32c cf (take (ck_header_len + length p) bs) = from_le (take 4 (drop (ck_header_len + length p) bs))" using q by (simp_all only: simp_thms)
  show "decode_checkpoint cf path bs = Inr dc"
    unfolding decode_checkpoint_unfold [OF r(3)] r(4) by (intro conjI r(1) r(2) r(5) n(1) p(1) p(3))
qed

lemma collection_ok_fits: "list_all collection_ok cs \<Longrightarrow> list_all collection_fits cs"
  by (auto simp: list_all_iff collection_ok_def)

lemma decode_encoded:
  assumes "encode_checkpoint cf (metadata_for_snapshot config l cs) cs = Inr bs" and "list_all collection_ok cs"
  shows "decode_checkpoint cf path bs = Inr \<lparr>dc_metadata = metadata_for_snapshot config l cs, dc_snapshot = cs\<rparr>"
proof -
  note e = assms(1) [unfolded encode_checkpoint_iff metadata_fields]
  have "ck_decode_payload path raw_checkpoint_format_version (ck_payload (metadata_for_snapshot config l cs) cs)
    = Inr \<lparr>dc_metadata = metadata_for_snapshot config l cs, dc_snapshot = cs\<rparr>"
    by (rule ck_decode_payload_at [OF assms(2)]) (use e in simp_all)
  then show ?thesis using e unfolding decode_checkpoint_payload by blast
qed

section \<open>Properties\<close>

text \<open>C23. The checkpoint codec: the decoder accepts exactly the files the encoder writes for a snapshot
  whose collections are named and whose versions are not zero, and returns that snapshot with the
  metadata computed from it. Every other file is rejected.\<close>

theorem checkpoint_codec:
  "decode_checkpoint cf path bs = Inr dc \<longleftrightarrow>
     checkpoint_ok dc \<and> encode_checkpoint cf (dc_metadata dc) (dc_snapshot dc) = Inr bs"
proof
  assume "decode_checkpoint cf path bs = Inr dc"
  then obtain p where p: "length p \<le> max_checkpoint_payload_bytes" "bs = ck_head p @ le_bytes 4 (crc32c cf (ck_head p))"
    "ck_decode_payload path raw_checkpoint_format_version p = Inr dc" unfolding decode_checkpoint_payload by blast
  from ck_decode_payload_InrD [OF p(3)] p(1,2) show "checkpoint_ok dc \<and> encode_checkpoint cf (dc_metadata dc) (dc_snapshot dc) = Inr bs"
    by (auto simp: checkpoint_ok_def encode_checkpoint_iff metadata_fields collection_ok_fits)
next
  assume r: "checkpoint_ok dc \<and> encode_checkpoint cf (dc_metadata dc) (dc_snapshot dc) = Inr bs"
  then obtain config l where m: "dc_metadata dc = metadata_for_snapshot config l (dc_snapshot dc)"
    by (auto simp: checkpoint_ok_def)
  from decode_encoded [of cf config l "dc_snapshot dc" bs path] r m show "decode_checkpoint cf path bs = Inr dc"
    by (cases dc) (auto simp: checkpoint_ok_def)
qed

end
