(* ===== verification/Paths.thy ===== *)
theory Paths
  imports Store_Types
begin

text \<open>
  The operations of \<open>std::path::Path\<close> the store uses, on Unix paths: the last component, the parent,
  replacing or appending a component, the extension. Trailing separators and \<open>.\<close> components are
  dropped the way \<open>Path::components\<close> does. Decimal formatting of unsigned integers.
\<close>

text \<open>On the reversed path: separators and \<open>.\<close> components at the end.\<close>

fun strip_tail :: "string \<Rightarrow> string" where
  "strip_tail [] = []"
| "strip_tail [c] = (if c = CHR ''/'' then [] else [c])"
| "strip_tail (c # c' # cs) =
     (if c = CHR ''/'' then strip_tail (c' # cs)
      else if c = CHR ''.'' \<and> c' = CHR ''/'' then strip_tail (c' # cs)
      else c # c' # cs)"

definition last_component :: "file_path \<Rightarrow> string" where
  "last_component p = rev (takeWhile (\<lambda>c. c \<noteq> CHR ''/'') (strip_tail (rev p)))"

definition file_name :: "file_path \<Rightarrow> string option" where
  "file_name p = (let n = last_component p in if n = [] \<or> n = ''.'' \<or> n = ''..'' then None else Some n)"

text \<open>\<open>Path::parent\<close>: the empty path for a single relative component.\<close>

definition parent_path :: "file_path \<Rightarrow> file_path option" where
  "parent_path p =
     (let r = strip_tail (rev p); rest = dropWhile (\<lambda>c. c \<noteq> CHR ''/'') r in
      if r = [] then None
      else if rest = [] then Some []
      else if strip_tail rest = [] then Some ''/''
      else Some (rev (strip_tail rest)))"

definition path_push :: "file_path \<Rightarrow> string \<Rightarrow> file_path" where
  "path_push p n = (if p = [] \<or> last p = CHR ''/'' then p @ n else p @ CHR ''/'' # n)"

definition with_file_name :: "file_path \<Rightarrow> string \<Rightarrow> file_path" where
  "with_file_name p n = (case file_name p of
     None \<Rightarrow> path_push p n
   | Some _ \<Rightarrow> path_push (case parent_path p of None \<Rightarrow> [] | Some q \<Rightarrow> q) n)"

text \<open>\<open>Path::extension\<close>: what follows the last dot of the file name, unless that is its first character.\<close>

definition path_extension :: "file_path \<Rightarrow> string option" where
  "path_extension p = (case file_name p of
     None \<Rightarrow> None
   | Some n \<Rightarrow>
       let r = rev n; before = dropWhile (\<lambda>c. c \<noteq> CHR ''.'') r in
       if before = [] \<or> length before = 1 then None
       else Some (rev (takeWhile (\<lambda>c. c \<noteq> CHR ''.'') r)))"

text \<open>\<open>{:020}\<close>\<close>

definition zero_padded :: "nat \<Rightarrow> nat \<Rightarrow> string" where
  "zero_padded width n = (let s = dec_string n in replicate (width - length s) CHR ''0'' @ s)"

section \<open>Decimal notation\<close>

definition undecimal :: "string \<Rightarrow> nat" where
  "undecimal s = foldl (\<lambda>n c. 10 * n + (of_char c - 48)) 0 s"

lemma undecimal_decimal: "undecimal (dec_string n) = n"
proof (induction n rule: dec_string.induct)
  case (1 n)
  show ?case
  proof (cases "n < 10")
    case True
    then show ?thesis by (subst dec_string.simps) (simp add: undecimal_def)
  next
    case False
    have "undecimal (dec_string n) = 10 * undecimal (dec_string (n div 10)) + n mod 10"
      using False by (subst dec_string.simps) (simp add: undecimal_def)
    then show ?thesis using 1 [OF False] by simp
  qed
qed

lemma undecimal_zeros: "undecimal (replicate k CHR ''0'' @ s) = undecimal s"
proof -
  have "foldl (\<lambda>n c. 10 * n + (of_char c - 48)) 0 (replicate k CHR ''0'') = (0 :: nat)"
    by (induction k) simp_all
  then show ?thesis by (simp add: undecimal_def)
qed

lemma zero_padded_inj: "zero_padded w m = zero_padded w n \<longleftrightarrow> m = n"
  by (metis undecimal_decimal undecimal_zeros zero_padded_def)

lemma decimal_no_dot: "set (dec_string n) \<subseteq> (\<lambda>k. char_of (48 + k)) ` {..<10 :: nat}"
proof (induction n rule: dec_string.induct)
  case (1 n)
  then show ?case by (subst dec_string.simps) auto
qed

end
