(* ===== verification/Store_Log.thy ===== *)
theory Store_Log
  imports Raw_Store
begin

text \<open>
  What the raw store promises: a write is atomic, the counters are exact, and the write-ahead log
  behind the store determines every read. The log of a store is related to its collections by
  replay (\<open>replay_coll\<close>), the operations and crashes of the store are the steps of \<open>engine_step\<close>, and
  the locale \<open>durable_log\<close> is interpreted on them.
\<close>

section \<open>The write path\<close>

definition store_ok :: "mfs_store \<Rightarrow> bool" where
  "store_ok st \<longleftrightarrow> hm_wf (st_collections st) \<and> length (st_collections st) \<le> max_collections (st_config st)
     \<and> (\<forall>coll rc. map_of (st_collections st) coll = Some rc \<longrightarrow> rc_ok rc)"

lemma store_ok_open: "open_memory config = Inr st \<Longrightarrow> store_ok st"
  by (auto simp: open_memory_def and_then_Inr_iff store_ok_def)

lemma length_hm_insert_present: "map_of m k \<noteq> None \<Longrightarrow> hm_wf m \<Longrightarrow> length (hm_insert k v m) = length m"
  by (auto simp: length_hm_insert dest: map_of_SomeD intro: rev_image_eqI)

lemma store_ok_set_collection:
  assumes "store_ok st" and "rc_ok rc" and "map_of (st_collections st) coll \<noteq> None"
  shows "store_ok (set_collection coll rc st)"
  using assms length_hm_insert_present [of "st_collections st" coll rc]
  by (auto simp: store_ok_def set_collection_def)

lemma on_durability_frame:
  assumes "on_durability act (st, d) = (res, (st', d'))"
  shows "\<exists>du. st' = st\<lparr>st_durability := du\<rparr>"
  using assms by (auto simp: on_durability_def split: prod.splits)

lemma store_ok_durability [simp]: "store_ok (st\<lparr>st_durability := du\<rparr>) \<longleftrightarrow> store_ok st"
  by (simp add: store_ok_def)

lemma fits_not_full:
  assumes "rc_ok rc" and "can_insert_or_replace hash_bytes key (rc_records rc)"
  shows "fst (rc_insert key r old rc) \<noteq> Full"
  using cmt.fits_iff [of hash_bytes "rc_records rc" key r] assms
  by (auto simp: rc_insert_def rc_ok_def split: prod.splits insert_outcome.splits)

lemma write_cases:
  assumes "write_with_hooks cf fl coll key v opts preflight (st, d) = (res, (st', d'))" and "store_ok st"
  obtains (rejected) e where "res = Inl e" "st' = st" "d' = d"
    | (not_logged) e rc where "res = Inl e" "map_of (st_collections st) coll = Some rc"
        "on_durability (acknowledge_write cf fl (effective_durability opts (cfg_durability (st_config st))) coll key v
           (next_version (case rc_lookup rc key of Some r \<Rightarrow> rec_version r | None \<Rightarrow> 0))) (st, d) = (Inl e, (st', d'))"
    | (written) rc rc' actual plan ack st1 where
        "map_of (st_collections st) coll = Some rc" "actual = (case rc_lookup rc key of Some r \<Rightarrow> rec_version r | None \<Rightarrow> 0)"
        "expected_version opts \<in> {None, Some actual}"
        "preflight (Option.bind (rc_lookup rc key) rec_value) actual = Inr plan"
        "can_insert_or_replace hash_bytes key (rc_records rc)"
        "on_durability (acknowledge_write cf fl (effective_durability opts (cfg_durability (st_config st))) coll key v
           (next_version actual)) (st, d) = (Inr ack, (st1, d'))"
        "snd (rc_insert key \<lparr>rec_value = v, rec_version = next_version actual\<rparr> (Option.bind (rc_lookup rc key) rec_value) rc) = rc'"
        "fst (rc_insert key \<lparr>rec_value = v, rec_version = next_version actual\<rparr> (Option.bind (rc_lookup rc key) rec_value) rc) \<noteq> Full"
        "st' = set_collection coll rc' st1"
        "res = Inr (\<lparr>wr_version = next_version actual, wr_lsn = ack_lsn ack, wr_ack = ack\<rparr>, plan)"
proof (cases "raw_collection_of st coll")
  case (Inl e)
  with assms(1) show thesis by (intro rejected) (auto simp: write_with_hooks_def)
next
  case (Inr rc)
  then have rc: "map_of (st_collections st) coll = Some rc" by (simp add: raw_collection_of_def)
  then have ok: "rc_ok rc" using assms(2) by (simp add: store_ok_def)
  define actual where "actual = (case rc_lookup rc key of Some r \<Rightarrow> rec_version r | None \<Rightarrow> 0)"
  define old where "old = Option.bind (rc_lookup rc key) rec_value"
  let ?r = "\<lparr>rec_value = v, rec_version = next_version actual\<rparr>"
  note unf = assms(1) [unfolded write_with_hooks_def prod.case Inr sum.case Let_def, folded actual_def old_def]
  show thesis
  proof (cases "expected_version opts \<noteq> None \<and> expected_version opts \<noteq> Some actual")
    case True
    with unf show thesis by (intro rejected) auto
  next
    case ev: False
    show thesis
    proof (cases "preflight old actual")
      case (Inl e)
      with unf ev show thesis by (intro rejected) auto
    next
      case pf: (Inr plan)
      show thesis
      proof (cases "can_insert_or_replace hash_bytes key (rc_records rc)")
        case False
        with unf ev pf show thesis by (intro rejected) auto
      next
        case fits: True
        obtain ares st1 d1 where ack: "on_durability (acknowledge_write cf fl
            (effective_durability opts (cfg_durability (st_config st))) coll key v (next_version actual)) (st, d) = (ares, (st1, d1))"
          by (metis surj_pair)
        show thesis
        proof (cases ares)
          case (Inl e)
          with unf ev pf fits ack have "res = Inl e" "st' = st1" "d' = d1" by auto
          with not_logged rc ack Inl show thesis unfolding actual_def by blast
        next
          case (Inr a)
          have nf: "fst (rc_insert key ?r old rc) \<noteq> Full" by (rule fits_not_full [OF ok fits])
          obtain o' rc' where ins: "rc_insert key ?r old rc = (o', rc')" by (cases "rc_insert key ?r old rc")
          with unf ev pf fits ack Inr nf have
            "res = Inr (\<lparr>wr_version = next_version actual, wr_lsn = ack_lsn a, wr_ack = a\<rparr>, plan)"
            "st' = set_collection coll rc' st1" "d' = d1" by (cases o'; auto)+
          then show thesis using rc ev pf fits ack Inr nf ins actual_def old_def
            by (intro written [of rc actual plan a st1 rc']) auto
        qed
      qed
    qed
  qed
qed

lemma write_effect:
  assumes "write_with_hooks cf fl coll key v opts preflight (st, d) = (res, (st', d'))" and "store_ok st"
  shows "store_ok st' \<and> st_config st' = st_config st \<and> st_schema_indexes st' = st_schema_indexes st \<and> (case res of
      Inl e \<Rightarrow> st_collections st' = st_collections st
    | Inr (wr, plan) \<Rightarrow> \<exists>rc rc' actual. map_of (st_collections st) coll = Some rc
        \<and> actual = (case rc_lookup rc key of Some r \<Rightarrow> rec_version r | None \<Rightarrow> 0)
        \<and> expected_version opts \<in> {None, Some actual}
        \<and> preflight (Option.bind (rc_lookup rc key) rec_value) actual = Inr plan
        \<and> wr_version wr = next_version actual
        \<and> st_collections st' = hm_insert coll rc' (st_collections st)
        \<and> (\<forall>k. rc_lookup rc' k = (if k = key then Some \<lparr>rec_value = v, rec_version = wr_version wr\<rparr> else rc_lookup rc k)))"
  using assms
proof (cases rule: write_cases)
  case (rejected e)
  with assms(2) show ?thesis by simp
next
  case (not_logged e rc)
  with on_durability_frame [OF not_logged(3)] assms(2) show ?thesis by auto
next
  case (written rc rc' actual plan ack st1)
  obtain du where st1: "st1 = st\<lparr>st_durability := du\<rparr>" using on_durability_frame [OF written(6)] by auto
  let ?r = "\<lparr>rec_value = v, rec_version = next_version actual\<rparr>"
  have ok: "rc_ok rc" using assms(2) written(1) by (simp add: store_ok_def)
  obtain o' where ins: "rc_insert key ?r (Option.bind (rc_lookup rc key) rec_value) rc = (o', rc')" "o' \<noteq> Full"
    using written(7,8) by (metis prod.collapse)
  note e = rc_insert_effect [OF ok ins(1)]
  have "store_ok st'" unfolding written(9)
    using e assms(2) written(1) st1 by (intro store_ok_set_collection) auto
  moreover have "st_collections st' = hm_insert coll rc' (st_collections st)"
    by (simp add: written(9) st1 set_collection_def)
  ultimately show ?thesis
    using written e ins(2) st1 by (auto simp: set_collection_def)
qed

lemma create_effect:
  assumes "create_raw_collection name st = (res, st')" and "store_ok st"
  shows "store_ok st' \<and> st_config st' = st_config st \<and> st_schema_indexes st' = st_schema_indexes st
    \<and> st_durability st' = st_durability st \<and> (case res of
      Inl e \<Rightarrow> st' = st \<and> (e = CollectionAlreadyExists name \<and> map_of (st_collections st) name \<noteq> None
        \<or> e = CollectionLimitExceeded (max_collections (st_config st)) \<and> map_of (st_collections st) name = None
          \<and> length (st_collections st) = max_collections (st_config st))
    | Inr i \<Rightarrow> i = st_next_collection_id st \<and> map_of (st_collections st) name = None
        \<and> length (st_collections st) < max_collections (st_config st)
        \<and> st_collections st' = (st_collections st) @ [(name, rc_with_capacity (raw_initial_capacity (st_config st)))])"
proof (cases "map_of (st_collections st) name = None \<and> length (st_collections st) < max_collections (st_config st)")
  case True
  then show ?thesis using assms rc_ok_new
    by (auto simp: create_raw_collection_def store_ok_def hm_insert_fresh hm_wf_def map_of_eq_None_iff
        map_add_def split: if_splits option.splits)
next
  case False
  then show ?thesis using assms by (auto simp: create_raw_collection_def store_ok_def split: if_splits)
qed

section \<open>The log behind the store\<close>

text \<open>The log of a store: that of its open writer, or the content of the segment file.\<close>

definition wal_state_ok :: "crc_functions \<Rightarrow> raw_wal_record list \<Rightarrow> nat \<Rightarrow> durable \<Rightarrow> bool" where
  "wal_state_ok cf rs n = (\<lambda>(du, d). \<exists>p. du_wal_path du = Some p \<and> (case du_wal du of
     Some w \<Rightarrow> seg_path w = p \<and> wal_inv cf (rs, n, (w, d))
   | None \<Rightarrow> read_records cf (disk_files d p) = Inr rs \<and> disk_synced d p = length (content p d)
       \<and> n \<le> length rs \<and> last_lsn_of 0 rs \<noteq> - 1))"

lemma wal_inv_synced:
  assumes "seg_inv cf rs (w, d)" and "seg_buf w = []" and "disk_synced d (seg_path w) = length (content (seg_path w) d)"
    and "n \<le> length rs"
  shows "wal_inv cf (rs, n, (w, d))"
  using assms log_bytes_take_mono [of n "length rs" cf rs] by (simp add: wal_inv_def seg_inv_def seg_bytes_def)

lemma open_segment_wal_inv:
  assumes "open_segment cf fl p d = (Inr w, d')" and "read_records cf (disk_files d p) = Inr rs"
    and "disk_synced d p = length (content p d)" and "n \<le> length rs" and "last_lsn_of 0 rs \<noteq> - 1"
  shows "seg_path w = p \<and> wal_inv cf (rs, n, (w, d'))"
proof (cases "disk_files d p")
  case None
  then have "rs = []" "disk_synced d p = 0" using assms(2,3) by (simp_all add: content_def)
  moreover have "seg_inv cf [] (w, d') \<and> seg_path w = p" using open_segment_new [OF assms(1) None] calculation by simp
  ultimately show ?thesis using assms(4) by (simp add: wal_inv_def)
next
  case (Some bs)
  obtain tail where t: "bs = log_bytes cf rs @ tail" "valid_log 0 rs" "torn cf tail"
    using assms(2) Some by (auto elim: read_records_parts)
  have "disk_synced d p \<le> length (content p d)" using assms(3) by simp
  from open_segment_inv [OF assms(1) Some [unfolded t(1)] t(2,3) assms(5) this] assms(3,4) show ?thesis
    by (auto intro: wal_inv_synced)
qed

lemma obtain_writer_ok:
  assumes "obtain_writer cf fl (du, d) = (Inr w, (du', d'))" and "wal_state_ok cf rs n (du, d)"
  shows "du' = du\<lparr>du_wal := Some w\<rparr> \<and> wal_state_ok cf rs n (du', d')"
proof (cases "du_wal du")
  case (Some w')
  then show ?thesis using assms by (auto simp: obtain_writer_def)
next
  case None
  obtain p where p: "du_wal_path du = Some p" using assms(2) by (auto simp: wal_state_ok_def)
  then have o: "open_segment cf fl p d = (Inr w, d')" "du' = du\<lparr>du_wal := Some w\<rparr>"
    using assms(1) None by (auto simp: obtain_writer_def split: prod.splits sum.splits)
  have "seg_path w = p \<and> wal_inv cf (rs, n, (w, d'))"
    using assms(2) None p by (intro open_segment_wal_inv [OF o(1)]) (simp_all add: wal_state_ok_def)
  then show ?thesis using o(2) p by (simp add: wal_state_ok_def)
qed

definition op_of :: "raw_value option \<Rightarrow> operation" where
  "op_of v = (if v = None then Delete else Put)"

lemma append_versioned:
  "(case v of Some x \<Rightarrow> append_put_versioned cf fl coll key x version
     | None \<Rightarrow> append_delete_versioned cf fl coll key version) =
   append_record cf fl coll (op_of v) key v version False"
  by (cases v) (simp_all add: append_put_versioned_def append_delete_versioned_def op_of_def fun_eq_iff)

lemma with_writer_step:
  assumes "with_writer w act (du, d) = (res, (du', d'))"
  obtains w' where "act (w, d) = (res, (w', d'))" "du' = du\<lparr>du_wal := Some w'\<rparr>"
  using assms by (auto simp: with_writer_def split: prod.splits)

lemma append_raw_wal_ok:
  assumes "append_raw_wal cf fl coll key v version sync (du, d) = (Inr l, (du', d'))" and "wal_state_ok cf rs n (du, d)"
    and "loggable (record_of l version coll (op_of v) key v)" and "l \<noteq> - 1"
  shows "wal_state_ok cf (rs @ [record_of l version coll (op_of v) key v]) (if sync then Suc (length rs) else n) (du', d')"
proof -
  let ?rs = "rs @ [record_of l version coll (op_of v) key v]"
  from assms(1) obtain w s1 l1 s2 u where
    o: "obtain_writer cf fl (du, d) = (Inr w, s1)"
    and a: "with_writer w (append_record cf fl coll (op_of v) key v version False) s1 = (Inr l1, s2)"
    and y: "(if sync then then_op (sync_writer fl) (\<lambda>_. set_dirty False) else set_dirty True) s2 = (Inr u, (du', d'))"
    and l: "l1 = l"
    unfolding append_raw_wal_def append_versioned by (elim then_op_InrE) auto
  obtain du1 d1 where s1: "s1 = (du1, d1)" by (cases s1)
  obtain du2 d2 where s2: "s2 = (du2, d2)" by (cases s2)
  note ow = obtain_writer_ok [OF o [unfolded s1] assms(2)]
  obtain p where p: "du_wal_path du1 = Some p" "seg_path w = p" and i1: "wal_inv cf (rs, n, (w, d1))"
    using ow by (auto simp: wal_state_ok_def)
  obtain w2 where ar: "append_record cf fl coll (op_of v) key v version False (w, d1) = (Inr l, (w2, d2))"
    and du2: "du2 = du1\<lparr>du_wal := Some w2\<rparr>"
    using a l unfolding s1 s2 by (auto elim: with_writer_step)
  have i2: "wal_inv cf (?rs, n, (w2, d2))"
    using wal_step_inv [OF wal_append [OF ar assms(3,4)] i1] by simp
  have p2: "seg_path w2 = p" using append_record_effect [OF ar] p(2) by simp
  show ?thesis
  proof (cases sync)
    case False
    with y s2 have "du' = du2\<lparr>du_wal_dirty := True\<rparr>" "d' = d2" by (auto simp: set_dirty_def)
    then show ?thesis using False i2 p2 p(1) du2 by (simp add: wal_state_ok_def)
  next
    case True
    with y obtain s3 u3 where sw: "sync_writer fl s2 = (Inr u3, s3)" and sd: "set_dirty False s3 = (Inr u, (du', d'))"
      by (auto elim: then_op_InrE)
    obtain du3 d3 where s3: "s3 = (du3, d3)" by (cases s3)
    obtain w3 where sy: "sync_now fl (w2, d2) = (Inr (), (w3, d3))" and du3: "du3 = du2\<lparr>du_wal := Some w3\<rparr>"
      using sw s2 s3 du2 by (auto simp: sync_writer_def elim: with_writer_step)
    have "wal_inv cf (?rs, length ?rs, (w3, d3))"
      using wal_step_inv [OF wal_synced [OF sy, of cf ?rs n] i2] by simp
    moreover have "seg_path w3 = p" using sync_now_effect [OF sy] p2 by simp
    moreover have "du' = du3\<lparr>du_wal_dirty := False\<rparr>" "d' = d3" using sd s3 by (auto simp: set_dirty_def)
    ultimately show ?thesis using True p(1) du2 du3 by (simp add: wal_state_ok_def)
  qed
qed

lemma acknowledge_write_ok:
  assumes "acknowledge_write cf fl mode coll key v version (du, d) = (Inr ack, (du', d'))" and "wal_state_ok cf rs n (du, d)"
    and "ack_lsn ack = Some l" and "loggable (record_of l version coll (op_of v) key v)" and "l \<noteq> - 1"
  shows "wal_state_ok cf (rs @ [record_of l version coll (op_of v) key v])
    (if mode \<in> {WalSync, WalGroupCommit} then Suc (length rs) else n) (du', d')"
proof -
  define sync where "sync \<longleftrightarrow> mode \<in> {WalSync, WalGroupCommit}"
  have a: "append_raw_wal cf fl coll key v version sync (du, d) = (Inr l, (du', d'))"
    using assms(1,3) by (cases mode) (auto simp: acknowledge_write_def sync_def elim!: then_op_InrE)
  show ?thesis using append_raw_wal_ok [OF a assms(2,4,5)] by (simp add: sync_def)
qed

section \<open>Replay\<close>

definition log_record :: "raw_wal_record \<Rightarrow> raw_record" where
  "log_record r = \<lparr>rec_value = w_value r, rec_version = w_version r\<rparr>"

text \<open>The collection that the records of a log build from an empty one, if they all fit.\<close>

fun replay_coll :: "raw_collection \<Rightarrow> raw_wal_record list \<Rightarrow> raw_collection option" where
  "replay_coll rc [] = Some rc"
| "replay_coll rc (r # rs) =
     (case rc_insert (w_key r) (log_record r) (Option.bind (rc_lookup rc (w_key r)) rec_value) rc of
        (Full, _) \<Rightarrow> None
      | (_, rc') \<Rightarrow> replay_coll rc' rs)"

lemma replay_coll_append:
  "replay_coll rc (rs @ rs') = Option.bind (replay_coll rc rs) (\<lambda>rc'. replay_coll rc' rs')"
  by (induction rc rs rule: replay_coll.induct) (auto split: prod.splits insert_outcome.splits)

lemma replay_coll_ok: "replay_coll rc rs = Some rc' \<Longrightarrow> rc_ok rc \<Longrightarrow> rc_ok rc'"
proof (induction rc rs rule: replay_coll.induct)
  case (2 rc r rs)
  obtain o' rc1 where i: "rc_insert (w_key r) (log_record r) (Option.bind (rc_lookup rc (w_key r)) rec_value) rc = (o', rc1)"
    by fastforce
  have "rc_ok rc1" using rc_insert_effect [OF 2(4) i] by simp
  moreover have "o' \<noteq> Full" "replay_coll rc1 rs = Some rc'" using 2(3) i by (cases o'; simp)+
  ultimately show ?case using 2(1,2) i by (cases o') auto
qed simp

definition records_in :: "string \<Rightarrow> raw_wal_record list \<Rightarrow> raw_wal_record list" where
  "records_in coll rs = filter (\<lambda>r. w_collection r = coll) rs"

lemma records_in_snoc [simp]:
  "records_in coll (rs @ [r]) = (if w_collection r = coll then records_in coll rs @ [r] else records_in coll rs)"
  by (simp add: records_in_def)

lemma records_in_empty: "coll \<notin> w_collection ` set rs \<Longrightarrow> records_in coll rs = []"
  by (auto simp: records_in_def filter_empty_conv)

text \<open>The store built by replaying a log into a store without collections.\<close>

definition replayed :: "mfs_store \<Rightarrow> raw_wal_record list \<Rightarrow> mfs_store \<Rightarrow> bool" where
  "replayed st0 rs st \<longleftrightarrow> st_config st = st_config st0 \<and> st_durability st = st_durability st0 \<and> st_schema_indexes st = []
     \<and> hm_wf (st_collections st) \<and> fst ` set (st_collections st) = w_collection ` set rs
     \<and> (\<forall>coll rc. map_of (st_collections st) coll = Some rc \<longrightarrow>
          replay_coll (rc_with_capacity (raw_initial_capacity (st_config st0))) (records_in coll rs) = Some rc)"

lemma hm_wf_length: "hm_wf m \<Longrightarrow> length m = card (fst ` set m)"
  by (metis distinct_card hm_wf_def length_map list.set_map)

lemma apply_raw_record_step:
  assumes "replayed st0 rs st" and "fields_fit r" and "card (w_collection ` set (rs @ [r])) \<le> max_collections (st_config st0)"
    and "replay_coll (rc_with_capacity (raw_initial_capacity (st_config st0))) (records_in (w_collection r) (rs @ [r])) \<noteq> None"
  shows "\<exists>st'. apply_raw_record r st = (Inr (), st') \<and> replayed st0 (rs @ [r]) st'"
proof -
  let ?new = "rc_with_capacity (raw_initial_capacity (st_config st0))" and ?c = "w_collection r"
  note rp = assms(1) [unfolded replayed_def]
  obtain st1 where e1: "ensure_raw_collection ?c st = (Inr (), st1)"
    and st1: "map_of (st_collections st1) = (map_of (st_collections st))(?c := Some
        (case map_of (st_collections st) ?c of Some rc \<Rightarrow> rc | None \<Rightarrow> ?new))"
      "hm_wf (st_collections st1)" "fst ` set (st_collections st1) = insert ?c (fst ` set (st_collections st))"
      "st_config st1 = st_config st0" "st_durability st1 = st_durability st0" "st_schema_indexes st1 = []"
  proof (cases "map_of (st_collections st) ?c")
    case None
    then have nc: "?c \<notin> w_collection ` set rs" using rp by (metis map_of_eq_None_iff)
    have "length (st_collections st) < max_collections (st_config st)"
      using assms(3) nc rp hm_wf_length [of "st_collections st"] by simp
    with None have "ensure_raw_collection ?c st = (Inr (), st\<lparr>st_next_collection_id := st_next_collection_id st + 1,
           st_collections := hm_insert ?c ?new (st_collections st)\<rparr>)"
      using rp by (simp add: ensure_raw_collection_def create_raw_collection_def)
    from that [OF this] None rp show thesis by simp
  next
    case (Some rc)
    then have "ensure_raw_collection ?c st = (Inr (), st)"
      by (simp add: ensure_raw_collection_def create_raw_collection_def)
    moreover have "?c \<in> fst ` set (st_collections st)" using Some by (metis map_of_eq_None_iff option.distinct(1))
    ultimately show thesis using that [of st] Some rp by (simp add: fun_upd_idem insert_absorb)
  qed
  define rc1 where "rc1 = (case map_of (st_collections st) ?c of Some rc \<Rightarrow> rc | None \<Rightarrow> ?new)"
  have rc1: "map_of (st_collections st1) ?c = Some rc1" by (simp add: st1(1) rc1_def)
  have rc1': "replay_coll ?new (records_in ?c rs) = Some rc1"
  proof (cases "map_of (st_collections st) ?c")
    case None
    then have "?c \<notin> w_collection ` set rs" using rp by (metis map_of_eq_None_iff)
    then show ?thesis using None by (simp add: rc1_def records_in_empty)
  next
    case (Some rc)
    then show ?thesis using rp by (simp add: rc1_def)
  qed
  have ok: "rc_ok rc1" by (rule replay_coll_ok [OF rc1' rc_ok_new])
  obtain rc2 where rc2: "replay_coll ?new (records_in ?c (rs @ [r])) = Some rc2" using assms(4) by blast
  then have "replay_coll rc1 [r] = Some rc2" using rc1' by (simp add: replay_coll_append)
  then have "insert_replay_record_locked ?c (w_key r) (w_value r) (w_version r) rc1 = Inr rc2"
    using replay_insert [OF ok, of ?c "w_key r" "w_value r" "w_version r"]
    by (auto simp: log_record_def split: prod.splits insert_outcome.splits)
  then have "apply_raw_replay_record ?c (w_key r) (w_value r) (w_version r) st1 = (Inr (), set_collection ?c rc2 st1)"
    using rc1 st1(6) by (simp add: apply_raw_replay_record_def raw_collection_of_def schema_indexes_for_collection_def)
  then have "apply_raw_record r st = (Inr (), set_collection ?c rc2 st1)"
    using e1 assms(2) by (cases "w_op r"; cases "w_value r") (auto simp: apply_raw_record_def fields_fit_def)
  moreover have "replayed st0 (rs @ [r]) (set_collection ?c rc2 st1)"
    unfolding replayed_def
  proof (intro conjI allI impI)
    show "fst ` set (st_collections (set_collection ?c rc2 st1)) = w_collection ` set (rs @ [r])"
      using st1(3) rp by (simp add: set_collection_def)
    show "replay_coll ?new (records_in coll (rs @ [r])) = Some rc"
      if "map_of (st_collections (set_collection ?c rc2 st1)) coll = Some rc" for coll rc
      using that rc2 rp st1(1) by (auto simp: set_collection_def split: if_splits)
  qed (use st1 in \<open>simp_all add: set_collection_def\<close>)
  ultimately show ?thesis by blast
qed

text \<open>A log can be replayed when its collections fit into the configuration and the records of each
  fit into its table.\<close>

definition replayable :: "mfs_store_config \<Rightarrow> raw_wal_record list \<Rightarrow> bool" where
  "replayable config rs \<longleftrightarrow> card (w_collection ` set rs) \<le> max_collections config
     \<and> (\<forall>coll. replay_coll (rc_with_capacity (raw_initial_capacity config)) (records_in coll rs) \<noteq> None)"

lemma replayable_prefix:
  assumes "replayable config (rs @ rs')"
  shows "replayable config rs"
proof -
  have "card (w_collection ` set rs) \<le> card (w_collection ` set (rs @ rs'))" by (rule card_mono) auto
  moreover have "replay_coll rc (records_in coll rs) \<noteq> None" if "replay_coll rc (records_in coll (rs @ rs')) \<noteq> None" for rc coll
    using that by (cases "replay_coll rc (records_in coll rs)") (auto simp: records_in_def replay_coll_append)
  ultimately show ?thesis using assms by (auto simp: replayable_def)
qed

definition replay_callback :: "raw_wal_record \<Rightarrow> (mfs_store \<times> raw_wal_replay_stats, unit) op" where
  "replay_callback r = (\<lambda>(st, stats). case apply_raw_record r st of
       (Inl e, st) \<Rightarrow> (Inl e, (st, stats))
     | (Inr _, st) \<Rightarrow> (Inr (), (st, \<lparr>stat_records = stat_records stats + 1, stat_last_lsn = w_lsn r\<rparr>)))"

lemma run_records_append:
  "run_records f (rs @ rs') st = (case run_records f rs st of
     (Inl e, st') \<Rightarrow> (Inl e, st') | (Inr _, st') \<Rightarrow> run_records f rs' st')"
  by (induction f rs st rule: run_records.induct) (auto split: prod.splits sum.splits)

lemma add_stats_snoc:
  "add_stats stats (rs @ [r]) = \<lparr>stat_records = stat_records (add_stats stats rs) + 1, stat_last_lsn = w_lsn r\<rparr>"
  by (simp add: add_stats_def)

lemma replay_run:
  assumes "replayed st0 [] st" and "list_all fields_fit rs" and "replayable (st_config st0) rs"
  shows "\<exists>st'. run_records replay_callback rs (st, empty_stats) = (Inr (), (st', add_stats empty_stats rs)) \<and> replayed st0 rs st'"
  using assms(2,3)
proof (induction rs rule: rev_induct)
  case Nil
  then show ?case using assms(1) by simp
next
  case (snoc r rs)
  from snoc replayable_prefix [OF snoc.prems(2)] obtain st1 where
    r1: "run_records replay_callback rs (st, empty_stats) = (Inr (), (st1, add_stats empty_stats rs))" "replayed st0 rs st1"
    by auto
  have "fields_fit r" using snoc.prems(1) by simp
  moreover have "card (w_collection ` set (rs @ [r])) \<le> max_collections (st_config st0)"
    "replay_coll (rc_with_capacity (raw_initial_capacity (st_config st0))) (records_in (w_collection r) (rs @ [r])) \<noteq> None"
    using snoc.prems(2) unfolding replayable_def by blast+
  ultimately obtain st2 where
    r2: "apply_raw_record r st1 = (Inr (), st2)" "replayed st0 (rs @ [r]) st2"
    using apply_raw_record_step [OF r1(2)] by blast
  have "replay_callback r (st1, add_stats empty_stats rs) = (Inr (), (st2, add_stats empty_stats (rs @ [r])))"
    by (simp add: replay_callback_def add_stats_snoc r2(1))
  then show ?case using r1(1) r2(2) by (simp add: run_records_append)
qed

lemma replay_into_log:
  assumes "read_records cf (disk_files d p) = Inr rs" and "replayed st0 [] st" and "replayable (st_config st0) rs"
  shows "\<exists>st'. replay_into cf no_faults p d st = (Inr (add_stats empty_stats rs), st') \<and> replayed st0 rs st'"
proof (cases "disk_files d p")
  case None
  then have "rs = []" using assms(1) by simp
  with None assms(2) show ?thesis
    by (simp add: replay_into_def scan_path_def scan_records_with_offsets_def)
next
  case (Some bs)
  obtain tail where t: "bs = log_bytes cf rs @ tail" "valid_log 0 rs" "torn cf tail"
    using assms(1) Some by (auto elim: read_records_parts)
  have "list_all fields_fit rs" using t(2) by (auto simp: valid_log_def list_all_iff loggable_def readable_def)
  from replay_run [OF assms(2) this assms(3)] obtain st' where
    r: "run_records replay_callback rs (st, empty_stats) = (Inr (), (st', add_stats empty_stats rs))" "replayed st0 rs st'"
    by blast
  have "scan_path cf no_faults p d replay_callback (st, empty_stats) =
      (Inr (add_stats empty_stats rs, length (log_bytes cf rs)), (st', add_stats empty_stats rs))"
    using Some t r(1) by (simp add: scan_path_def io_step_def no_faults_def and_then_def scan_records_log)
  then show ?thesis using r(2) by (simp add: replay_into_def flip: replay_callback_def)
qed

section \<open>The life of a store\<close>

text \<open>The log is ahead of the tables: every collection is exactly what replaying its records builds.\<close>

definition store_inv :: "crc_functions \<Rightarrow> raw_wal_record list \<Rightarrow> nat \<Rightarrow> engine \<Rightarrow> bool" where
  "store_inv cf rs n = (\<lambda>(st, d). store_ok st \<and> st_schema_indexes st = [] \<and> wal_state_ok cf rs n (st_durability st, d)
     \<and> w_collection ` set rs \<subseteq> fst ` set (st_collections st)
     \<and> (\<forall>coll rc. map_of (st_collections st) coll = Some rc \<longrightarrow>
          replay_coll (rc_with_capacity (raw_initial_capacity (st_config st))) (records_in coll rs) = Some rc))"

lemma store_inv_replayable:
  assumes "store_inv cf rs n (st, d)"
  shows "replayable (st_config st) rs"
proof -
  have wf: "hm_wf (st_collections st)" "length (st_collections st) \<le> max_collections (st_config st)"
    and sub: "w_collection ` set rs \<subseteq> fst ` set (st_collections st)"
    using assms by (auto simp: store_inv_def store_ok_def)
  have "card (w_collection ` set rs) \<le> card (fst ` set (st_collections st))" by (rule card_mono) (use sub in auto)
  moreover have "replay_coll (rc_with_capacity (raw_initial_capacity (st_config st))) (records_in coll rs) \<noteq> None" for coll
  proof (cases "map_of (st_collections st) coll")
    case None
    then have "coll \<notin> w_collection ` set rs" using sub by (metis map_of_eq_None_iff subsetD)
    then show ?thesis by (simp add: records_in_empty)
  qed (use assms in \<open>auto simp: store_inv_def\<close>)
  ultimately show ?thesis using wf hm_wf_length [of "st_collections st"] by (simp add: replayable_def)
qed

lemma write_inv:
  assumes "write_with_hooks cf fl coll key v opts preflight (st, d) = (Inr (wr, plan), (st', d'))"
    and "store_inv cf rs n (st, d)" and "wr_lsn wr = Some l" and "l \<noteq> - 1"
    and "loggable (record_of l (wr_version wr) coll (op_of v) key v)"
  shows "store_inv cf (rs @ [record_of l (wr_version wr) coll (op_of v) key v])
    (if effective_durability opts (cfg_durability (st_config st)) \<in> {WalSync, WalGroupCommit} then Suc (length rs) else n) (st', d')"
proof -
  have ok: "store_ok st" and wal: "wal_state_ok cf rs n (st_durability st, d)"
    and sub: "w_collection ` set rs \<subseteq> fst ` set (st_collections st)"
    and tab: "\<And>coll rc. map_of (st_collections st) coll = Some rc \<Longrightarrow>
          replay_coll (rc_with_capacity (raw_initial_capacity (st_config st))) (records_in coll rs) = Some rc"
    using assms(2) by (auto simp: store_inv_def)
  let ?r = "record_of l (wr_version wr) coll (op_of v) key v"
  from assms(1) ok show ?thesis
  proof (cases rule: write_cases)
    case (written rc rc' actual plan' ack st1)
    have wv: "wr_version wr = next_version actual" "ack_lsn ack = Some l" using written(10) assms(3) by auto
    obtain du where ack: "acknowledge_write cf fl (effective_durability opts (cfg_durability (st_config st))) coll key v
        (wr_version wr) (st_durability st, d) = (Inr ack, (du, d'))" and st1: "st1 = st\<lparr>st_durability := du\<rparr>"
      using written(6) wv(1) by (auto simp: on_durability_def split: prod.splits)
    note w = acknowledge_write_ok [OF ack wal wv(2) assms(5,4)]
    have c': "st_collections st' = hm_insert coll rc' (st_collections st)" by (simp add: written(9) st1 set_collection_def)
    have eff: "store_ok st' \<and> st_config st' = st_config st \<and> st_schema_indexes st' = st_schema_indexes st"
      using write_effect [OF assms(1) ok] by blast
    have "replay_coll rc [?r] = Some rc'"
      using written(7,8) wv(1) by (auto simp: log_record_def split: prod.splits insert_outcome.splits)
    then have "replay_coll (rc_with_capacity (raw_initial_capacity (st_config st))) (records_in coll (rs @ [?r])) = Some rc'"
      using tab [OF written(1)] by (simp add: replay_coll_append)
    then have "replay_coll (rc_with_capacity (raw_initial_capacity (st_config st))) (records_in coll2 (rs @ [?r])) = Some rc2"
      if "map_of (st_collections st') coll2 = Some rc2" for coll2 rc2
      using that tab [of coll2 rc2] c' by (cases "coll2 = coll") auto
    moreover have "st_durability st' = du" by (simp add: written(9) st1 set_collection_def)
    moreover have "st_schema_indexes st = []" using assms(2) by (simp add: store_inv_def)
    ultimately show ?thesis using w eff c' sub by (auto simp: store_inv_def)
  qed auto
qed

lemma create_inv:
  assumes "create_raw_collection name st = (res, st')" and "store_inv cf rs n (st, d)"
  shows "store_inv cf rs n (st', d)"
proof -
  have ok: "store_ok st" using assms(2) by (simp add: store_inv_def)
  note c = create_effect [OF assms(1) ok]
  show ?thesis
  proof (cases res)
    case (Inl e)
    with c assms(2) show ?thesis by simp
  next
    case (Inr i)
    let ?new = "rc_with_capacity (raw_initial_capacity (st_config st))"
    have c': "st_collections st' = st_collections st @ [(name, ?new)]" "map_of (st_collections st) name = None"
      using c Inr by simp_all
    then have "name \<notin> w_collection ` set rs" using assms(2) by (auto simp: store_inv_def map_of_eq_None_iff)
    then have "replay_coll ?new (records_in coll rs) = Some rc" if "map_of (st_collections st') coll = Some rc" for coll rc
      using that c' assms(2) by (auto simp: store_inv_def records_in_empty map_add_def split: option.splits if_splits)
    with c c' assms(2) show ?thesis by (auto simp: store_inv_def)
  qed
qed

lemma sync_writer_ok:
  assumes "sync_writer fl (du, d) = (Inr (), (du', d'))" and "wal_state_ok cf rs n (du, d)" and "du_wal du = Some w"
  shows "wal_state_ok cf rs (length rs) (du', d')"
proof -
  obtain p where p: "du_wal_path du = Some p" "seg_path w = p" and i: "wal_inv cf (rs, n, (w, d))"
    using assms(2,3) by (auto simp: wal_state_ok_def)
  obtain w' where sy: "sync_now fl (w, d) = (Inr (), (w', d'))" and du': "du' = du\<lparr>du_wal := Some w'\<rparr>"
    using assms(1,3) by (auto simp: sync_writer_def elim: with_writer_step)
  have "wal_inv cf (rs, length rs, (w', d'))"
    using wal_step_inv [OF wal_synced [OF sy, of cf rs n] i] by simp
  moreover have "seg_path w' = p" using sync_now_effect [OF sy] p(2) by simp
  ultimately show ?thesis using p(1) du' by (simp add: wal_state_ok_def)
qed

lemma wal_state_dirty [simp]: "wal_state_ok cf rs n (du\<lparr>du_wal_dirty := b\<rparr>, d) \<longleftrightarrow> wal_state_ok cf rs n (du, d)"
  by (simp add: wal_state_ok_def)

lemma sync_then_clean:
  assumes "then_op (sync_writer fl) (\<lambda>_. set_dirty False) (du, d) = (Inr (), (du', d'))"
    and "wal_state_ok cf rs n (du, d)" and "du_wal du = Some w"
  shows "wal_state_ok cf rs (length rs) (du', d')"
proof -
  from assms(1) obtain du1 d1 where "sync_writer fl (du, d) = (Inr (), (du1, d1))" "set_dirty False (du1, d1) = (Inr (), (du', d'))"
    by (elim then_op_InrE) (metis old.unit.exhaust surj_pair)
  then show ?thesis using sync_writer_ok [OF _ assms(2,3)] by (auto simp: set_dirty_def)
qed

lemma durability_sync_ok:
  assumes "durability_sync_wal cf fl (du, d) = (Inr (), (du', d'))" and "wal_state_ok cf rs n (du, d)"
  shows "wal_state_ok cf rs (if du_wal_dirty du then length rs else n) (du', d')"
proof (cases "du_wal_dirty du")
  case False
  with assms show ?thesis by (simp add: durability_sync_wal_def)
next
  case True
  obtain p where p: "du_wal_path du = Some p" using assms(2) by (auto simp: wal_state_ok_def)
  show ?thesis
  proof (cases "du_wal du")
    case (Some w)
    with True assms(1) sync_then_clean [OF _ assms(2) Some] show ?thesis by (simp add: durability_sync_wal_def)
  next
    case None
    show ?thesis
    proof (cases "disk_files d p")
      case nf: None
      with assms(2) None p have "rs = []" by (simp add: wal_state_ok_def)
      with nf assms True None p show ?thesis by (simp add: durability_sync_wal_def wal_state_ok_def)
    next
      case (Some bs)
      with assms(1) True None p have
        "then_op (obtain_writer cf fl) (\<lambda>_. then_op (sync_writer fl) (\<lambda>_. set_dirty False)) (du, d) = (Inr (), (du', d'))"
        by (simp add: durability_sync_wal_def)
      then obtain w s1 where o: "obtain_writer cf fl (du, d) = (Inr w, s1)"
        and sy: "then_op (sync_writer fl) (\<lambda>_. set_dirty False) s1 = (Inr (), (du', d'))"
        by (rule then_op_InrE)
      obtain du1 d1 where s1: "s1 = (du1, d1)" by (cases s1)
      have "du1 = du\<lparr>du_wal := Some w\<rparr>" "wal_state_ok cf rs n (du1, d1)"
        using obtain_writer_ok [OF o [unfolded s1] assms(2)] by auto
      then have "wal_state_ok cf rs (length rs) (du', d')"
        using sync_then_clean [OF sy [unfolded s1], of cf rs n w] by simp
      then show ?thesis using True by simp
    qed
  qed
qed

lemma sync_wal_inv:
  assumes "sync_wal cf fl (st, d) = (Inr (), (st', d'))" and "store_inv cf rs n (st, d)"
  shows "store_inv cf rs (if wal_dirty st then length rs else n) (st', d')"
proof -
  obtain du where s: "durability_sync_wal cf fl (st_durability st, d) = (Inr (), (du, d'))" and st': "st' = st\<lparr>st_durability := du\<rparr>"
    using assms(1) by (auto simp: sync_wal_def on_durability_def split: prod.splits)
  have "wal_state_ok cf rs n (st_durability st, d)" using assms(2) by (simp add: store_inv_def)
  from durability_sync_ok [OF s this] assms(2) st' show ?thesis by (auto simp: store_inv_def wal_dirty_def)
qed

lemma wal_state_bound: "wal_state_ok cf rs n (du, d) \<Longrightarrow> n \<le> length rs"
  by (auto simp: wal_state_ok_def wal_inv_def split: option.splits)

lemma store_crash:
  assumes "wal_state_ok cf rs n (du, d)" and "crash d d'" and "du_wal_path du = Some p"
  obtains k where "n \<le> k" "read_records cf (disk_files d' p) = Inr (take k rs)" "last_lsn_of 0 (take k rs) \<noteq> - 1"
proof (cases "du_wal du")
  case (Some w)
  then have p: "seg_path w = p" and i: "seg_inv cf rs (w, d)" "n \<le> length rs"
      "length (log_bytes cf (take n rs)) \<le> disk_synced d p"
    using assms(1,3) by (auto simp: wal_state_ok_def wal_inv_def)
  obtain k where k: "read_records cf (disk_files d' p) = Inr (take k rs)" "n \<le> k"
    using crash_recovers [OF i(1) assms(2)] i p by metis
  have "last_lsn_of 0 (take k rs) \<noteq> - 1"
    using i(1) last_lsn_take_le [of 0 rs k] less_le_trans [OF _ word_order.extremum, of "last_lsn_of 0 rs" "seg_next_lsn w"]
    by (auto simp: seg_inv_def)
  with that k show thesis by blast
next
  case None
  have r: "read_records cf (disk_files d p) = Inr rs" "disk_synced d p = length (content p d)" "n \<le> length rs"
      "last_lsn_of 0 rs \<noteq> - 1"
    using assms(1,3) None by (auto simp: wal_state_ok_def)
  have "read_records cf (disk_files d' p) = Inr rs"
  proof (cases "disk_files d p")
    case nf: None
    then have "disk_files d' p = None" using assms(2) unfolding crash_def by (metis (mono_tags) option.simps(4))
    then show ?thesis using r(1) nf by simp
  next
    case (Some bs)
    from assms(2) Some show ?thesis
    proof (cases rule: crash_file)
      case (1 k)
      then show ?thesis using r Some by (simp add: content_Some)
    next
      case 2
      then have "bs = []" using r(2) Some by (simp add: content_Some)
      then show ?thesis using r(1) Some 2 read_records_log [of "[]" cf "[]"] by simp
    qed
  qed
  with that [of "length rs"] r show thesis by simp
qed

text \<open>Restarting after a crash: a new store with the same configuration replays the segment.\<close>

inductive engine_step :: "crc_functions \<Rightarrow> raw_wal_record list \<times> nat \<times> engine \<Rightarrow> raw_wal_record list \<times> nat \<times> engine \<Rightarrow> bool"
  for cf where
  engine_create: "create_raw_collection name st = (res, st') \<Longrightarrow>
    engine_step cf (rs, n, (st, d)) (rs, n, (st', d))"
| engine_write: "write_with_hooks cf fl coll key v opts no_preflight (st, d) = (Inr (wr, plan), (st', d')) \<Longrightarrow>
    wr_lsn wr = Some l \<Longrightarrow> l \<noteq> - 1 \<Longrightarrow> loggable (record_of l (wr_version wr) coll (op_of v) key v) \<Longrightarrow>
    engine_step cf (rs, n, (st, d)) (rs @ [record_of l (wr_version wr) coll (op_of v) key v],
      if effective_durability opts (cfg_durability (st_config st)) \<in> {WalSync, WalGroupCommit} then Suc (length rs) else n,
      (st', d'))"
| engine_sync: "sync_wal cf fl (st, d) = (Inr (), (st', d')) \<Longrightarrow>
    engine_step cf (rs, n, (st, d)) (rs, if wal_dirty st then length rs else n, (st', d'))"
| engine_restart: "crash d d' \<Longrightarrow> cfg_wal_path (st_config st) = Some p \<Longrightarrow> du_wal_path (st_durability st) = Some p \<Longrightarrow>
    read_records cf (disk_files d' p) = Inr rs' \<Longrightarrow> open_memory (st_config st) = Inr st0 \<Longrightarrow>
    replay_into cf no_faults p d' st0 = (Inr stats, st') \<Longrightarrow>
    engine_step cf (rs, n, (st, d)) (rs', n, (st', d'))"

lemma replayed_open: "open_memory config = Inr st0 \<Longrightarrow> replayed st0 [] st0"
  by (auto simp: open_memory_def and_then_Inr_iff replayed_def)

lemma open_memory_fields:
  "open_memory config = Inr st0 \<Longrightarrow> st_config st0 = config \<and> st_durability st0 = new_durability config"
  by (auto simp: open_memory_def and_then_Inr_iff)

lemma replayed_store_inv:
  assumes "replayed st0 rs st" and "replayable (st_config st0) rs" and "wal_state_ok cf rs n (st_durability st0, d)"
  shows "store_inv cf rs n (st, d)"
proof -
  have "length (st_collections st) \<le> max_collections (st_config st)"
    using assms(1,2) hm_wf_length [of "st_collections st"] by (simp add: replayed_def replayable_def)
  moreover have "rc_ok rc" if "map_of (st_collections st) coll = Some rc" for coll rc
  proof -
    have "replay_coll (rc_with_capacity (raw_initial_capacity (st_config st0))) (records_in coll rs) = Some rc"
      using assms(1) that by (simp add: replayed_def)
    then show ?thesis by (rule replay_coll_ok [OF _ rc_ok_new])
  qed
  ultimately show ?thesis using assms by (auto simp: store_inv_def store_ok_def replayed_def)
qed

lemma engine_step_inv:
  assumes "engine_step cf (rs, n, s) (rs', n', s')" and "store_inv cf rs n s"
  shows "store_inv cf rs' n' s' \<and> take n rs' = take n rs \<and> n \<le> n'"
  using assms(1)
proof cases
  case (engine_create name st res st' d)
  then show ?thesis using create_inv [OF engine_create(5)] assms(2) by simp
next
  case (engine_write fl coll key v opts st d wr plan st' d' l)
  have "n \<le> length rs" using assms(2) engine_write(1) wal_state_bound by (auto simp: store_inv_def)
  then show ?thesis using write_inv [OF engine_write(5) _ engine_write(6,7,8)] assms(2) engine_write by auto
next
  case (engine_sync fl st d st' d')
  have "n \<le> length rs" using assms(2) engine_sync(1) wal_state_bound by (auto simp: store_inv_def)
  then show ?thesis using sync_wal_inv [OF engine_sync(5)] assms(2) engine_sync by auto
next
  case (engine_restart d d' st p st0 stats st')
  have w: "wal_state_ok cf rs n (st_durability st, d)" using assms(2) engine_restart(1) by (simp add: store_inv_def)
  obtain k where k: "n \<le> k" "rs' = take k rs" "last_lsn_of 0 rs' \<noteq> - 1"
    using store_crash [OF w engine_restart(4,6)] engine_restart(7) by (metis sum.inject(2))
  have "replayable (st_config st) (take k rs @ drop k rs)" using store_inv_replayable assms(2) engine_restart(1) by simp
  then have rp: "replayable (st_config st) rs'" using replayable_prefix k(2) by blast
  note om = open_memory_fields [OF engine_restart(8)]
  have re: "replayed st0 rs' st'"
    using replay_into_log [OF engine_restart(7) replayed_open [OF engine_restart(8)]] rp om engine_restart(9) by simp
  have b: "n \<le> length rs'" using k wal_state_bound [OF w] by simp
  have "disk_synced d' p = length (content p d')" using engine_restart(4) by (simp add: crash_def)
  then have "wal_state_ok cf rs' n (st_durability st0, d')"
    using om engine_restart(5,7) k(3) b by (simp add: wal_state_ok_def new_durability_def)
  then have "store_inv cf rs' n (st', d')" using replayed_store_inv [OF re] rp om by simp
  then show ?thesis using engine_restart(1,2,3) k by (simp add: min_absorb1)
qed

interpretation engine_log: durable_log "engine_step cf" "store_inv cf" for cf
  by unfold_locales (rule engine_step_inv, auto simp: store_inv_def dest: wal_state_bound)

section \<open>What the store reads\<close>

lemma replay_lookup:
  "replay_coll (rc_with_capacity n) (records_in coll rs) = Some rc \<Longrightarrow>
     rc_lookup rc key = map_option log_record (latest rs (coll, key))"
proof (induction rs arbitrary: rc rule: rev_induct)
  case Nil
  then have "rc = rc_with_capacity n" by (simp add: records_in_def)
  then show ?case by (simp add: latest_def new_lookup)
next
  case (snoc r rs)
  show ?case
  proof (cases "w_collection r = coll")
    case False
    with snoc show ?thesis by (simp add: latest_snoc record_id_def)
  next
    case True
    with snoc.prems obtain rc1 where rc1: "replay_coll (rc_with_capacity n) (records_in coll rs) = Some rc1"
      "replay_coll rc1 [r] = Some rc"
      by (auto simp: replay_coll_append bind_eq_Some_conv)
    have ok: "rc_ok rc1" by (rule replay_coll_ok [OF rc1(1) rc_ok_new])
    obtain o' where i: "rc_insert (w_key r) (log_record r) (Option.bind (rc_lookup rc1 (w_key r)) rec_value) rc1 = (o', rc)" "o' \<noteq> Full"
      using rc1(2) by (auto split: prod.splits insert_outcome.splits)
    from rc_insert_effect [OF ok i(1)] i(2) snoc.IH [OF rc1(1)] True show ?thesis
      by (auto simp: latest_snoc record_id_def)
  qed
qed

definition read_of :: "raw_record option \<Rightarrow> read_result option" where
  "read_of r = (case r of
     None \<Rightarrow> None
   | Some r \<Rightarrow> map_option (\<lambda>v. \<lparr>rr_value = v, rr_version = rec_version r\<rparr>) (rec_value r))"

definition store_lookup :: "mfs_store \<Rightarrow> string \<Rightarrow> raw_key \<Rightarrow> raw_record option" where
  "store_lookup st coll key = Option.bind (map_of (st_collections st) coll) (\<lambda>rc. rc_lookup rc key)"

lemma get_raw_read: "map_of (st_collections st) coll = Some rc \<Longrightarrow> get_raw st coll key = Inr (read_of (rc_lookup rc key))"
  by (simp add: get_raw_def raw_collection_of_def rc_get_def read_of_def)

lemma live_keys_get: "map_of (st_collections st) coll = Some rc \<Longrightarrow>
    live_keys rc = {k. \<exists>x. get_raw st coll k = Inr (Some x)}"
  by (auto simp: get_raw_read read_of_def live_keys_def split: option.splits)

lemma new_table_fits: "can_insert_or_replace hash k (with_capacity n :: ('k, 'v) concurrent_map)"
proof -
  let ?m = "with_capacity n :: ('k, 'v) concurrent_map"
  obtain ks where ps: "probe_sequence hash ?m k = h1_of hash ?m k # ks"
    using probes_hd unfolding probe_sequence_def by blast
  have "cm_wf hash ?m" unfolding with_capacity_def by (rule cm_wf_with_capacity [THEN conjunct1])
  then have "h1_of hash ?m k < cm_capacity ?m" using ps by (intro probe_sequence_bounded [where hash = hash and k = k]) simp_all
  then have "cm_meta ?m ! h1_of hash ?m k = meta_empty" "cm_entries ?m ! h1_of hash ?m k = None"
    by (simp_all add: with_capacity_def with_capacity_and_batch_def Let_def)
  then show ?thesis by (simp add: can_insert_or_replace_def ps)
qed

section \<open>Writes without faults succeed\<close>

lemma payload_of_lsn: "length (payload_of (record_of l v coll op key vo)) = length (payload_of (record_of l' v' coll op key vo))"
  by (simp add: payload_of_def record_of_def)

lemma loggable_lsn: "loggable (record_of l v coll op key vo) \<longleftrightarrow> loggable (record_of l' v' coll op key vo)"
  using payload_of_lsn [of l v coll op key vo l' v']
  by (simp add: loggable_def readable_def fields_fit_def record_of_def)

lemma obtain_writer_succeeds:
  assumes "wal_state_ok cf rs n (du, d)"
  shows "\<exists>w d'. obtain_writer cf no_faults (du, d) = (Inr w, (du\<lparr>du_wal := Some w\<rparr>, d'))
    \<and> (\<forall>w0. du_wal du = Some w0 \<longrightarrow> w = w0)"
proof (cases "du_wal du")
  case (Some w)
  then show ?thesis by (intro exI [of _ w] exI [of _ d]) (simp add: obtain_writer_def)
next
  case None
  then obtain p where p: "du_wal_path du = Some p" "read_records cf (disk_files d p) = Inr rs"
    using assms by (auto simp: wal_state_ok_def)
  from open_segment_succeeds [OF p(2)] None p(1) show ?thesis by (auto simp: obtain_writer_def)
qed

lemma append_raw_wal_succeeds:
  assumes "wal_state_ok cf rs n (du, d)" and "loggable (record_of l0 version coll (op_of v) key v)"
  shows "\<exists>w s'. append_raw_wal cf no_faults coll key v version sync (du, d) = (Inr (seg_next_lsn w), s')
    \<and> last_lsn_of 0 rs < seg_next_lsn w \<and> (\<forall>w0. du_wal du = Some w0 \<longrightarrow> w = w0)"
proof -
  obtain w d1 where o: "obtain_writer cf no_faults (du, d) = (Inr w, (du\<lparr>du_wal := Some w\<rparr>, d1))"
      "\<forall>w0. du_wal du = Some w0 \<longrightarrow> w = w0"
    using obtain_writer_succeeds [OF assms(1)] by blast
  have "loggable (record_of (seg_next_lsn w) version coll (op_of v) key v)" using assms(2) loggable_lsn by blast
  then have "fields_fit (record_of (seg_next_lsn w) version coll (op_of v) key v)"
    "length (payload_of (record_of (seg_next_lsn w) version coll (op_of v) key v)) \<le> u32_max"
    by (simp_all add: loggable_def readable_def raw_wal_max_payload_bytes_def u32_max_def)
  from append_record_succeeds [OF this, of cf False d1] obtain w2 d2 where
    a: "append_record cf no_faults coll (op_of v) key v version False (w, d1) = (Inr (seg_next_lsn w), (w2, d2))" by blast
  obtain w3 d3 where "sync_now no_faults (w2, d2) = (Inr (), (w3, d3))" using sync_now_succeeds by blast
  with o(1) a have "\<exists>s'. append_raw_wal cf no_faults coll key v version sync (du, d) = (Inr (seg_next_lsn w), s')"
    by (simp add: append_raw_wal_def append_versioned then_op_def with_writer_def sync_writer_def set_dirty_def ret_def)
  moreover have "last_lsn_of 0 rs < seg_next_lsn w"
    using obtain_writer_ok [OF o(1) assms(1)] by (simp add: wal_state_ok_def wal_inv_def seg_inv_def)
  ultimately show ?thesis using o(2) by blast
qed

lemma acknowledge_write_succeeds:
  assumes "wal_state_ok cf rs n (du, d)" and "loggable (record_of l0 version coll (op_of v) key v)"
  shows "\<exists>ack s'. acknowledge_write cf no_faults mode coll key v version (du, d) = (Inr ack, s')
    \<and> (mode \<in> {WalAsync, WalGroupCommit, WalSync} \<longrightarrow> (\<exists>l. ack_lsn ack = Some l \<and> last_lsn_of 0 rs < l
         \<and> (\<forall>w. du_wal du = Some w \<longrightarrow> l = seg_next_lsn w)))"
proof -
  obtain w s1 where a: "append_raw_wal cf no_faults coll key v version False (du, d) = (Inr (seg_next_lsn w), s1)"
    "last_lsn_of 0 rs < seg_next_lsn w" "\<forall>w0. du_wal du = Some w0 \<longrightarrow> w = w0"
    using append_raw_wal_succeeds [OF assms] by blast
  obtain w' s2 where b: "append_raw_wal cf no_faults coll key v version True (du, d) = (Inr (seg_next_lsn w'), s2)"
    "last_lsn_of 0 rs < seg_next_lsn w'" "\<forall>w0. du_wal du = Some w0 \<longrightarrow> w' = w0"
    using append_raw_wal_succeeds [OF assms] by blast
  show ?thesis
    by (cases mode) (use a b in \<open>auto simp: acknowledge_write_def then_op_def ret_def\<close>)
qed

lemma write_accepted:
  assumes "store_inv cf rs n (st, d)" and "map_of (st_collections st) coll = Some rc"
    and "actual = (case rc_lookup rc key of Some r \<Rightarrow> rec_version r | None \<Rightarrow> 0)"
    and "expected_version opts \<in> {None, Some actual}"
    and "preflight (Option.bind (rc_lookup rc key) rec_value) actual = Inr plan"
    and "can_insert_or_replace hash_bytes key (rc_records rc)"
    and "loggable (record_of 1 1 coll (op_of v) key v)"
  shows "\<exists>wr s'. write_with_hooks cf no_faults coll key v opts preflight (st, d) = (Inr (wr, plan), s')
    \<and> wr_version wr = actual + 1
    \<and> (effective_durability opts (cfg_durability (st_config st)) \<in> {WalAsync, WalGroupCommit, WalSync} \<longrightarrow>
         (\<exists>l. wr_lsn wr = Some l \<and> last_lsn_of 0 rs < l \<and> (\<forall>w. du_wal (st_durability st) = Some w \<longrightarrow> l = seg_next_lsn w)))"
proof -
  let ?mode = "effective_durability opts (cfg_durability (st_config st))"
  let ?ins = "rc_insert key \<lparr>rec_value = v, rec_version = next_version actual\<rparr> (Option.bind (rc_lookup rc key) rec_value) rc"
  have i: "wal_state_ok cf rs n (st_durability st, d)" "rc_ok rc"
    using assms(1,2) by (auto simp: store_inv_def store_ok_def)
  have "loggable (record_of 1 (next_version actual) coll (op_of v) key v)" using assms(7) loggable_lsn by blast
  from acknowledge_write_succeeds [OF i(1) this, of ?mode] obtain ack du d' where
    a: "acknowledge_write cf no_faults ?mode coll key v (next_version actual) (st_durability st, d) = (Inr ack, (du, d'))"
    and l: "?mode \<in> {WalAsync, WalGroupCommit, WalSync} \<longrightarrow> (\<exists>l. ack_lsn ack = Some l \<and> last_lsn_of 0 rs < l
         \<and> (\<forall>w. du_wal (st_durability st) = Some w \<longrightarrow> l = seg_next_lsn w))"
    by (metis surj_pair)
  obtain out rc' where ins: "?ins = (out, rc')" by (cases ?ins)
  have "out \<noteq> Full" using fits_not_full [OF i(2) assms(6), of _ "Option.bind (rc_lookup rc key) rec_value"] ins by (metis fst_conv)
  moreover have "\<not> (expected_version opts \<noteq> None \<and> expected_version opts \<noteq> Some actual)" using assms(4) by auto
  ultimately have w: "write_with_hooks cf no_faults coll key v opts preflight (st, d)
      = (Inr (\<lparr>wr_version = next_version actual, wr_lsn = ack_lsn ack, wr_ack = ack\<rparr>, plan),
         (set_collection coll rc' (st\<lparr>st_durability := du\<rparr>), d'))"
    using assms(2,5,6) a ins
    by (simp add: write_with_hooks_def raw_collection_of_def assms(3) [symmetric] Let_def on_durability_def
        split: insert_outcome.split del: not_None_eq)
  show ?thesis by (intro exI conjI, rule w) (use l in \<open>simp_all add: next_version_def\<close>)
qed

section \<open>Properties\<close>

text \<open>C11. A write takes effect completely or not at all. When it fails, for whatever reason, no
  collection changes. When it succeeds, the expected version (if any) was the current one, the key
  has the next version and the new value, and every other key and collection is as before.\<close>

theorem write_all_or_nothing:
  assumes "write_with_hooks cf fl coll key v opts preflight (st, d) = (res, (st', d'))" and "store_ok st"
  shows "store_ok st' \<and> (case res of
      Inl e \<Rightarrow> st_collections st' = st_collections st
    | Inr (wr, plan) \<Rightarrow> \<exists>rc actual. map_of (st_collections st) coll = Some rc
        \<and> actual = (case rc_lookup rc key of Some r \<Rightarrow> rec_version r | None \<Rightarrow> 0)
        \<and> expected_version opts \<in> {None, Some actual}
        \<and> preflight (Option.bind (rc_lookup rc key) rec_value) actual = Inr plan
        \<and> wr_version wr = actual + 1
        \<and> get_raw st' coll key = Inr (map_option (\<lambda>x. \<lparr>rr_value = x, rr_version = wr_version wr\<rparr>) v)
        \<and> (\<forall>coll' key'. (coll', key') \<noteq> (coll, key) \<longrightarrow> get_raw st' coll' key' = get_raw st coll' key'))"
proof -
  note e = write_effect [OF assms]
  show ?thesis
  proof (cases res)
    case (Inl x)
    with e show ?thesis by simp
  next
    case (Inr wp)
    obtain wr plan where wp: "wp = (wr, plan)" by (cases wp)
    from e Inr wp obtain rc rc' actual where w: "map_of (st_collections st) coll = Some rc"
      "actual = (case rc_lookup rc key of Some r \<Rightarrow> rec_version r | None \<Rightarrow> 0)"
      "expected_version opts \<in> {None, Some actual}"
      "preflight (Option.bind (rc_lookup rc key) rec_value) actual = Inr plan"
      "wr_version wr = next_version actual" "st_collections st' = hm_insert coll rc' (st_collections st)"
      "\<And>k. rc_lookup rc' k = (if k = key then Some \<lparr>rec_value = v, rec_version = wr_version wr\<rparr> else rc_lookup rc k)"
      by auto
    have g': "get_raw st' coll k = Inr (read_of (rc_lookup rc' k))" for k by (rule get_raw_read) (simp add: w(6))
    have g: "get_raw st coll k = Inr (read_of (rc_lookup rc k))" for k by (rule get_raw_read [OF w(1)])
    have "get_raw st' coll' key' = get_raw st coll' key'" if "(coll', key') \<noteq> (coll, key)" for coll' key'
      using that g g' w(7) by (cases "coll' = coll") (auto simp: get_raw_def raw_collection_of_def w(6))
    moreover have "get_raw st' coll key = Inr (map_option (\<lambda>x. \<lparr>rr_value = x, rr_version = wr_version wr\<rparr>) v)"
      using g' w(7) by (simp add: read_of_def)
    moreover have "store_ok st'" using e by blast
    ultimately show ?thesis
      unfolding Inr wp sum.case prod.case
      using w(1-5) by (intro conjI exI [of _ rc] exI [of _ actual]) (auto simp: next_version_def)
  qed
qed

text \<open>C34. The counter of a collection is the number of keys that can be read, and every operation of the
  store, failing or not, keeps it so.\<close>

theorem collection_count_exact:
  assumes "store_ok st" and "map_of (st_collections st) coll = Some rc"
  shows "collection_count st coll = Inr (of_nat (card {k. \<exists>x. get_raw st coll k = Inr (Some x)}))
    \<and> store_ok (fst (snd (write_with_hooks cf fl coll' key v opts preflight (st, d))))
    \<and> store_ok (snd (create_raw_collection name st))"
proof (intro conjI)
  have "rc_ok rc" using assms by (simp add: store_ok_def)
  then show "collection_count st coll = Inr (of_nat (card {k. \<exists>x. get_raw st coll k = Inr (Some x)}))"
    using live_keys_get [OF assms(2)] assms(2) by (simp add: collection_count_def raw_collection_of_def rc_ok_def)
  show "store_ok (fst (snd (write_with_hooks cf fl coll' key v opts preflight (st, d))))"
    using write_effect [OF _ assms(1)] by (metis prod.collapse)
  show "store_ok (snd (create_raw_collection name st))"
    using create_effect [OF _ assms(1)] by (metis prod.collapse)
qed

text \<open>C1. The write-ahead log is the store: across creations, logged writes, syncs and crashes each
  followed by a restart that replays the segment, no write acknowledged as synced is lost, and every
  collection reads, for every key, as the last record of the log says.\<close>

theorem acknowledged_writes_survive:
  assumes "(engine_step cf)\<^sup>*\<^sup>* (rs, n, s) (rs', n', (st', d'))" and "store_inv cf rs n s"
  shows "take n rs' = take n rs \<and> n \<le> n' \<and> n' \<le> length rs'
    \<and> w_collection ` set rs' \<subseteq> dom (map_of (st_collections st'))
    \<and> (\<forall>coll \<in> dom (map_of (st_collections st')). \<forall>key.
         get_raw st' coll key = Inr (read_of (map_option log_record (latest rs' (coll, key)))))"
proof (intro conjI ballI allI)
  note k = engine_log.steps_keep [OF assms]
  show "take n rs' = take n rs" "n \<le> n'" using k by simp_all
  show "n' \<le> length rs'" using k engine_log.acked_bound by blast
  have i: "store_inv cf rs' n' (st', d')" using k by simp
  then show "w_collection ` set rs' \<subseteq> dom (map_of (st_collections st'))"
    by (simp add: store_inv_def dom_map_of_conv_image_fst)
  fix coll key assume "coll \<in> dom (map_of (st_collections st'))"
  then obtain rc where rc: "map_of (st_collections st') coll = Some rc" by blast
  then have "replay_coll (rc_with_capacity (raw_initial_capacity (st_config st'))) (records_in coll rs') = Some rc"
    using i by (simp add: store_inv_def)
  from get_raw_read [OF rc] replay_lookup [OF this]
  show "get_raw st' coll key = Inr (read_of (map_option log_record (latest rs' (coll, key))))" by simp
qed

text \<open>C7. Recovery: after a crash, replaying the segment into a new store succeeds whenever the store's
  log is intact up to its synced part, and when all of it was synced the recovered collections are the
  very tables and counters of the store before the crash; collections without a record are the only
  ones missing.\<close>

theorem recovery_restores_state:
  assumes "store_inv cf rs n (st, d)" and "crash d d'" and "du_wal_path (st_durability st) = Some p"
    and "open_memory (st_config st) = Inr st0"
  shows "\<exists>k st'. n \<le> k \<and> replay_into cf no_faults p d' st0 = (Inr (add_stats empty_stats (take k rs)), st')
    \<and> (n = length rs \<longrightarrow> (\<forall>coll. map_of (st_collections st') coll =
         (if coll \<in> w_collection ` set rs then map_of (st_collections st) coll else None)))"
proof -
  have w: "wal_state_ok cf rs n (st_durability st, d)" using assms(1) by (simp add: store_inv_def)
  obtain k where k: "n \<le> k" "read_records cf (disk_files d' p) = Inr (take k rs)"
    by (rule store_crash [OF w assms(2,3)]) blast
  have "replayable (st_config st) (take k rs @ drop k rs)" using store_inv_replayable [OF assms(1)] by simp
  then have rp: "replayable (st_config st0) (take k rs)"
    using replayable_prefix open_memory_fields [OF assms(4)] by fastforce
  obtain st' where st': "replay_into cf no_faults p d' st0 = (Inr (add_stats empty_stats (take k rs)), st')"
    "replayed st0 (take k rs) st'"
    using replay_into_log [OF k(2) replayed_open [OF assms(4)] rp] by blast
  have "map_of (st_collections st') coll = (if coll \<in> w_collection ` set rs then map_of (st_collections st) coll else None)"
    if "n = length rs" for coll
  proof (cases "map_of (st_collections st') coll")
    case None
    then have "coll \<notin> w_collection ` set rs" using st'(2) k(1) that by (simp add: replayed_def map_of_eq_None_iff)
    with None show ?thesis by simp
  next
    case (Some rc)
    then have "coll \<in> fst ` set (st_collections st')" by (rule map_of_SomeD [THEN imageI [of _ _ fst], simplified])
    then have c: "coll \<in> w_collection ` set rs" using st'(2) k(1) that by (simp add: replayed_def)
    moreover have "w_collection ` set rs \<subseteq> fst ` set (st_collections st)" using assms(1) by (simp add: store_inv_def)
    ultimately obtain rc0 where rc0: "map_of (st_collections st) coll = Some rc0"
      using map_of_eq_None_iff [of "st_collections st" coll] by (cases "map_of (st_collections st) coll") auto
    then have "replay_coll (rc_with_capacity (raw_initial_capacity (st_config st))) (records_in coll rs) = Some rc0"
      using assms(1) by (simp add: store_inv_def)
    moreover have "replay_coll (rc_with_capacity (raw_initial_capacity (st_config st))) (records_in coll rs) = Some rc"
      using Some st'(2) k(1) that open_memory_fields [OF assms(4)] by (simp add: replayed_def)
    ultimately show ?thesis using Some c rc0 by simp
  qed
  with k(1) st'(1) show ?thesis by blast
qed

text \<open>C12. Liveness of the write path: with a healthy log and no input/output fault, a write whose
  collection exists, whose expected version and preflight hook pass, whose key fits the table and whose
  record fits the log format is acknowledged and can be read at once. In the logged modes its
  sequence number is above every earlier one.\<close>

theorem write_succeeds:
  assumes "store_inv cf rs n (st, d)" and "map_of (st_collections st) coll = Some rc"
    and "actual = (case rc_lookup rc key of Some r \<Rightarrow> rec_version r | None \<Rightarrow> 0)"
    and "expected_version opts \<in> {None, Some actual}"
    and "preflight (Option.bind (rc_lookup rc key) rec_value) actual = Inr plan"
    and "can_insert_or_replace hash_bytes key (rc_records rc)"
    and "loggable (record_of 1 1 coll (op_of v) key v)"
  shows "\<exists>wr st' d'. write_with_hooks cf no_faults coll key v opts preflight (st, d) = (Inr (wr, plan), (st', d'))
    \<and> get_raw st' coll key = Inr (map_option (\<lambda>x. \<lparr>rr_value = x, rr_version = actual + 1\<rparr>) v)
    \<and> (effective_durability opts (cfg_durability (st_config st)) \<in> {WalAsync, WalGroupCommit, WalSync} \<longrightarrow>
         (\<exists>l. wr_lsn wr = Some l \<and> last_lsn_of 0 rs < l))"
proof -
  obtain wr st' d' where w: "write_with_hooks cf no_faults coll key v opts preflight (st, d) = (Inr (wr, plan), (st', d'))"
      "wr_version wr = actual + 1"
      "effective_durability opts (cfg_durability (st_config st)) \<in> {WalAsync, WalGroupCommit, WalSync} \<longrightarrow>
         (\<exists>l. wr_lsn wr = Some l \<and> last_lsn_of 0 rs < l)"
    using write_accepted [where preflight = preflight and plan = plan, OF assms] by auto
  have "store_ok st" using assms(1) by (simp add: store_inv_def)
  from write_effect [OF w(1) this] obtain rc' where
    "st_collections st' = hm_insert coll rc' (st_collections st)"
    "rc_lookup rc' key = Some \<lparr>rec_value = v, rec_version = wr_version wr\<rparr>" by auto
  then have "get_raw st' coll key = Inr (map_option (\<lambda>x. \<lparr>rr_value = x, rr_version = actual + 1\<rparr>) v)"
    by (simp add: get_raw_read read_of_def w(2))
  with w show ?thesis by blast
qed

section \<open>Witnesses\<close>

definition sample_config :: mfs_store_config where
  "sample_config = \<lparr>max_collections = 2, raw_initial_capacity = 1, cfg_durability = WalSync,
     cfg_wal_path = Some ''wal'', cfg_checkpoint_dir = None\<rparr>"

text \<open>A store with one empty collection and an open segment.\<close>

definition sample_store :: mfs_store where
  "sample_store = \<lparr>st_config = sample_config,
     st_durability = \<lparr>du_wal_path = Some ''wal'', du_wal = Some new_writer, du_wal_dirty = False\<rparr>,
     st_collections = [(''c'', rc_with_capacity 1)], st_schema_indexes = [], st_next_collection_id = 2\<rparr>"

lemma sample_store_inv: "store_inv plain_crc [] 0 (sample_store, new_disk)"
  using new_segment_inv
  by (auto simp: store_inv_def store_ok_def sample_store_def sample_config_def rc_ok_new wal_state_ok_def
      wal_inv_def records_in_def new_writer_def hm_wf_def split: if_splits)

lemma sample_store_put:
  obtains wr st' d' where
    "write_with_hooks plain_crc no_faults ''c'' [1] (Some [2]) default_write_options no_preflight (sample_store, new_disk)
       = (Inr (wr, ()), (st', d'))" "wr_version wr = 1" "wr_lsn wr = Some 1"
proof -
  let ?rc = "rc_with_capacity 1"
  have rc: "map_of (st_collections sample_store) ''c'' = Some ?rc" by (simp add: sample_store_def)
  have l: "loggable (record_of 1 1 ''c'' (op_of (Some [2])) [1] (Some [2]))"
    using sample_loggable [of 1] by (simp add: op_of_def sample_record_of)
  have f: "can_insert_or_replace hash_bytes [1] (rc_records ?rc)"
    using new_table_fits [of hash_bytes "[1]" 1] by (simp add: rc_with_capacity_def)
  from write_accepted [where preflight = no_preflight and plan = "()" and opts = default_write_options, OF sample_store_inv rc refl _ _ f l]
  obtain wr s' l where w: "write_with_hooks plain_crc no_faults ''c'' [1] (Some [2]) default_write_options no_preflight (sample_store, new_disk)
      = (Inr (wr, ()), s')" "wr_version wr = 1" "wr_lsn wr = Some l" "l = seg_next_lsn new_writer"
    by (auto simp: default_write_options_def no_preflight_def new_lookup effective_durability_def sample_store_def sample_config_def)
  then show thesis by (cases s') (auto simp: new_writer_def intro: that)
qed


lemma sample_fits: "can_insert_or_replace hash_bytes [1] (rc_records (rc_with_capacity 1))"
  using new_table_fits [of hash_bytes "[1]" 1] by (simp add: rc_with_capacity_def)

theorem write_succeeds_witness:
  "\<exists>wr st' d'. write_with_hooks plain_crc no_faults ''c'' [1] (Some [2]) default_write_options no_preflight (sample_store, new_disk)
     = (Inr (wr, ()), (st', d')) \<and> get_raw st' ''c'' [1] = Inr (Some \<lparr>rr_value = [2], rr_version = 1\<rparr>)"
proof -
  have rc: "map_of (st_collections sample_store) ''c'' = Some (rc_with_capacity 1)" by (simp add: sample_store_def)
  have l: "loggable (record_of 1 1 ''c'' (op_of (Some [2])) [1] (Some [2]))"
    using sample_loggable [of 1] by (simp add: op_of_def sample_record_of)
  from write_succeeds [where preflight = no_preflight and plan = "()" and opts = default_write_options,
      OF sample_store_inv rc refl _ _ sample_fits l]
  show ?thesis by (auto simp: default_write_options_def no_preflight_def new_lookup)
qed

theorem write_all_or_nothing_witness:
  "\<exists>st' d'. get_raw st' ''c'' [1] = Inr (Some \<lparr>rr_value = [2], rr_version = 1\<rparr>)
     \<and> snd (write_with_hooks plain_crc no_faults ''c'' [1] (Some [2]) default_write_options no_preflight (sample_store, new_disk)) = (st', d')"
proof -
  have ok: "store_ok sample_store" using sample_store_inv by (simp add: store_inv_def)
  obtain wr st' d' where
    w: "write_with_hooks plain_crc no_faults ''c'' [1] (Some [2]) default_write_options no_preflight (sample_store, new_disk)
       = (Inr (wr, ()), (st', d'))" "wr_version wr = 1"
    by (rule sample_store_put)
  from write_all_or_nothing [OF w(1) ok] w show ?thesis by (intro exI [of _ st'] exI [of _ d']) auto
qed

theorem collection_count_exact_witness:
  "collection_count sample_store ''c'' = Inr (of_nat (card {k. \<exists>x. get_raw sample_store ''c'' k = Inr (Some x)}))"
proof -
  have "store_ok sample_store" using sample_store_inv by (simp add: store_inv_def)
  moreover have "map_of (st_collections sample_store) ''c'' = Some (rc_with_capacity 1)" by (simp add: sample_store_def)
  ultimately show ?thesis using collection_count_exact by blast
qed

lemma sample_engine_step:
  obtains st' d' where "engine_step plain_crc ([], 0, (sample_store, new_disk)) ([sample_record 1], 1, (st', d'))"
    "st_config st' = sample_config"
proof -
  obtain wr st' d' where
    w: "write_with_hooks plain_crc no_faults ''c'' [1] (Some [2]) default_write_options no_preflight (sample_store, new_disk)
       = (Inr (wr, ()), (st', d'))" "wr_version wr = 1" "wr_lsn wr = Some 1"
    by (rule sample_store_put)
  have m: "effective_durability default_write_options (cfg_durability (st_config sample_store)) = WalSync"
    by (simp add: effective_durability_def default_write_options_def sample_store_def sample_config_def)
  have ok: "store_ok sample_store" using sample_store_inv by (simp add: store_inv_def)
  from w(1) ok have "st_config st' = st_config sample_store"
    by (rule write_cases) (auto simp: set_collection_def dest!: on_durability_frame)
  then have c: "st_config st' = sample_config" by (simp add: sample_store_def)
  with engine_write [OF w(1) w(3), of "[]" 0] m show thesis
    by (intro that [of st' d' , OF _ c]) (simp add: w(2) op_of_def sample_record_of sample_loggable)
qed

theorem acknowledged_writes_survive_witness:
  "\<exists>st' d'. (engine_step plain_crc)\<^sup>*\<^sup>* ([], 0, (sample_store, new_disk)) ([sample_record 1], 1, (st', d'))
     \<and> get_raw st' ''c'' [1] = Inr (Some \<lparr>rr_value = [2], rr_version = 1\<rparr>)"
proof -
  obtain st' d' where s: "engine_step plain_crc ([], 0, (sample_store, new_disk)) ([sample_record 1], 1, (st', d'))"
    by (rule sample_engine_step)
  then have r: "(engine_step plain_crc)\<^sup>*\<^sup>* ([], 0, (sample_store, new_disk)) ([sample_record 1], 1, (st', d'))" by simp
  have "get_raw st' ''c'' [1] = Inr (read_of (map_option log_record (latest [sample_record 1] (''c'', [1]))))"
    using acknowledged_writes_survive [OF r sample_store_inv] by (simp add: sample_record_def)
  then show ?thesis using r
    by (auto simp: latest_def sample_record_def log_record_def read_of_def record_id_def)
qed

lemma open_sample: "open_memory sample_config = Inr \<lparr>st_config = sample_config, st_durability = new_durability sample_config,
    st_collections = [], st_schema_indexes = [], st_next_collection_id = 1\<rparr>"
  by (simp add: open_memory_def sample_config_def validate_store_config_def)

lemma crash_nothing_lost: "crash d (d\<lparr>disk_synced := \<lambda>p. length (content p d)\<rparr>)"
  unfolding crash_def
proof (intro allI conjI)
  fix p
  let ?d = "d\<lparr>disk_synced := \<lambda>p. length (content p d)\<rparr>"
  show "disk_synced ?d p = length (content p ?d)" by (simp add: content_def)
  have "\<exists>n \<ge> disk_synced d p. bs = take n bs" for bs :: bytes
    by (rule exI [of _ "max (disk_synced d p) (length bs)"]) simp
  then show "case disk_files d p of None \<Rightarrow> disk_files ?d p = None
      | Some bs \<Rightarrow> (\<exists>n \<ge> disk_synced d p. disk_files ?d p = Some (take n bs)) \<or> disk_synced d p = 0 \<and> disk_files ?d p = None"
    by (auto split: option.split)
qed

theorem recovery_restores_state_witness:
  "\<exists>st d d' p st0 st' stats. store_inv plain_crc [sample_record 1] 1 (st, d) \<and> crash d d'
     \<and> du_wal_path (st_durability st) = Some p
     \<and> open_memory (st_config st) = Inr st0 \<and> replay_into plain_crc no_faults p d' st0 = (Inr stats, st')
     \<and> map_of (st_collections st') ''c'' = map_of (st_collections st) ''c''"
proof -
  obtain st d where s: "engine_step plain_crc ([], 0, (sample_store, new_disk)) ([sample_record 1], 1, (st, d))"
      and c: "st_config st = sample_config"
    by (rule sample_engine_step)
  from engine_log.step_keeps [OF s sample_store_inv]
  have i: "store_inv plain_crc [sample_record 1] 1 (st, d)" by simp
  then obtain p where p: "du_wal_path (st_durability st) = Some p" by (auto simp: store_inv_def wal_state_ok_def)
  note o = open_sample [folded c]
  obtain st' stats where "replay_into plain_crc no_faults p (d\<lparr>disk_synced := \<lambda>p. length (content p d)\<rparr>)
      \<lparr>st_config = st_config st, st_durability = new_durability (st_config st), st_collections = [],
       st_schema_indexes = [], st_next_collection_id = 1\<rparr> = (Inr stats, st')"
    "map_of (st_collections st') ''c'' = map_of (st_collections st) ''c''"
    using recovery_restores_state [OF i crash_nothing_lost p o] by (auto simp: sample_record_def)
  with i crash_nothing_lost p o show ?thesis by blast
qed

end
