(* ===== verification/Checkpoint.thy ===== *)
theory Checkpoint
  imports Checkpoint_Codec Paths Store_Log
begin

text \<open>
  Writing, finding and loading checkpoints, and recovery from a checkpoint followed by the
  write-ahead log (\<open>store/checkpoint.rs\<close>). A directory is the list of its entries, in the order
  \<open>read_dir\<close> gives them; the process id and the clock that name the temporary file are arguments.
\<close>

section \<open>Writing\<close>

definition checkpoint_io :: "file_path \<Rightarrow> string \<Rightarrow> string \<Rightarrow> store_error" where
  "checkpoint_io p operation message = CheckpointIo operation p message"

definition ck_step :: "io_faults \<Rightarrow> file_path \<Rightarrow> string \<Rightarrow> (disk \<Rightarrow> disk) \<Rightarrow> (disk, unit) op" where
  "ck_step fl p label f d = (case fl label of
     None \<Rightarrow> (Inr (), f d)
   | Some (_, message) \<Rightarrow> (Inl (checkpoint_io p label message), d))"

definition raw_checkpoint_extension :: string where
  "raw_checkpoint_extension = ''mfschkp''"

definition raw_checkpoint_tmp_extension :: string where
  "raw_checkpoint_tmp_extension = ''mfschkp.tmp''"

definition raw_checkpoint_path :: "file_path \<Rightarrow> lsn \<Rightarrow> file_path" where
  "raw_checkpoint_path dir l =
     path_push dir (''raw-'' @ zero_padded 20 (unat l) @ ''.'' @ raw_checkpoint_extension)"

definition temp_path_for :: "nat \<Rightarrow> nat \<Rightarrow> file_path \<Rightarrow> file_path" where
  "temp_path_for pid ts p =
     with_file_name p ((case file_name p of Some n \<Rightarrow> n | None \<Rightarrow> ''raw-checkpoint'')
       @ ''.'' @ raw_checkpoint_tmp_extension @ ''.'' @ dec_string pid @ ''.'' @ dec_string ts)"

text \<open>\<open>create_new\<close> refuses an existing file; \<open>write_all\<close> may stop part way.\<close>

definition create_new :: "io_faults \<Rightarrow> file_path \<Rightarrow> (disk, unit) op" where
  "create_new fl p d =
     (if disk_files d p \<noteq> None then (Inl (checkpoint_io p ''open temporary checkpoint'' ''File exists (os error 17)''), d)
      else ck_step fl p ''open temporary checkpoint'' (file_create p) d)"

definition write_file :: "io_faults \<Rightarrow> file_path \<Rightarrow> bytes \<Rightarrow> (disk, unit) op" where
  "write_file fl p bs d = (case fl ''write temporary checkpoint'' of
     None \<Rightarrow> (Inr (), file_append p bs d)
   | Some (n, message) \<Rightarrow> (Inl (checkpoint_io p ''write temporary checkpoint'' message), file_append p (take n bs) d))"

text \<open>The parent of a bare file name is the empty path, which no directory has.\<close>

definition sync_parent_dir :: "io_faults \<Rightarrow> file_path \<Rightarrow> (disk, unit) op" where
  "sync_parent_dir fl p =
     (let parent = (case parent_path p of Some q \<Rightarrow> q | None \<Rightarrow> ''.'') in
      then_op (if parent = [] then raise (checkpoint_io parent ''open checkpoint parent'' ''No such file or directory (os error 2)'')
               else ck_step fl parent ''open checkpoint parent'' id)
        (\<lambda>_. ck_step fl parent ''sync checkpoint parent'' id))"

definition install_checkpoint :: "io_faults \<Rightarrow> file_path \<Rightarrow> file_path \<Rightarrow> bytes \<Rightarrow> (disk, unit) op" where
  "install_checkpoint fl tmp p bs =
     then_op (create_new fl tmp) (\<lambda>_.
     then_op (write_file fl tmp bs) (\<lambda>_.
     then_op (ck_step fl tmp ''sync temporary checkpoint'' (file_sync tmp)) (\<lambda>_.
     then_op (ck_step fl p ''rename checkpoint'' (file_rename tmp p)) (\<lambda>_.
       sync_parent_dir fl p))))"

definition write_raw_checkpoint ::
    "crc_functions \<Rightarrow> io_faults \<Rightarrow> nat \<Rightarrow> nat \<Rightarrow> file_path \<Rightarrow> mfs_store \<Rightarrow> lsn \<Rightarrow> (disk, raw_checkpoint_metadata) op" where
  "write_raw_checkpoint cf fl pid ts p st l =
     (let snapshot = raw_snapshot st; meta = metadata_for_snapshot (st_config st) l snapshot;
          tmp = temp_path_for pid ts p in
      case encode_checkpoint cf meta snapshot of
        Inl e \<Rightarrow> raise e
      | Inr bs \<Rightarrow> (\<lambda>d. case install_checkpoint fl tmp p bs d of
          (Inl e, d) \<Rightarrow> (Inl e, if fl ''remove temporary checkpoint'' = None then file_remove tmp d else d)
        | (Inr _, d) \<Rightarrow> (Inr meta, d)))"

definition write_raw_checkpoint_to_dir ::
    "crc_functions \<Rightarrow> io_faults \<Rightarrow> nat \<Rightarrow> nat \<Rightarrow> file_path \<Rightarrow> mfs_store \<Rightarrow> lsn \<Rightarrow> (disk, raw_checkpoint_metadata) op" where
  "write_raw_checkpoint_to_dir cf fl pid ts dir st l =
     then_op (ck_step fl dir ''create checkpoint directory'' id) (\<lambda>_.
       write_raw_checkpoint cf fl pid ts (raw_checkpoint_path dir l) st l)"

section \<open>Loading\<close>

record raw_checkpoint_source =
  src_path :: file_path
  src_metadata :: raw_checkpoint_metadata

record raw_checkpoint_load =
  load_path :: file_path
  load_metadata :: raw_checkpoint_metadata
  load_engine :: mfs_store

record raw_recovery =
  recovered_engine :: mfs_store
  recovered_checkpoint :: "raw_checkpoint_source option"
  recovered_wal :: raw_wal_replay_stats

definition is_raw_checkpoint_file :: "file_path \<Rightarrow> bool" where
  "is_raw_checkpoint_file p \<longleftrightarrow> path_extension p = Some raw_checkpoint_extension"

definition read_decoded_checkpoint :: "crc_functions \<Rightarrow> io_faults \<Rightarrow> disk \<Rightarrow> file_path \<Rightarrow> decoded_raw_checkpoint store_result" where
  "read_decoded_checkpoint cf fl d p = (case fl ''open checkpoint'' of
     Some (_, message) \<Rightarrow> Inl (checkpoint_io p ''open checkpoint'' message)
   | None \<Rightarrow>
       (case disk_files d p of
          None \<Rightarrow> Inl (checkpoint_io p ''open checkpoint'' ''No such file or directory (os error 2)'')
        | Some bs \<Rightarrow>
            (case fl ''read checkpoint'' of
               Some (_, message) \<Rightarrow> Inl (checkpoint_io p ''read checkpoint'' message)
             | None \<Rightarrow> decode_checkpoint cf p bs)))"

definition read_raw_checkpoint_metadata :: "crc_functions \<Rightarrow> io_faults \<Rightarrow> disk \<Rightarrow> file_path \<Rightarrow> raw_checkpoint_metadata store_result" where
  "read_raw_checkpoint_metadata cf fl d p = and_then (read_decoded_checkpoint cf fl d p) (\<lambda>dc. Inr (dc_metadata dc))"

type_synonym dir_listing = "(string + file_path) list option"

definition better :: "decoded_raw_checkpoint \<Rightarrow> (file_path \<times> decoded_raw_checkpoint) option \<Rightarrow> bool" where
  "better dc best = (case best of
     None \<Rightarrow> True
   | Some (_, current) \<Rightarrow> ck_lsn (dc_metadata dc) > ck_lsn (dc_metadata current))"

fun choose_checkpoint ::
    "crc_functions \<Rightarrow> io_faults \<Rightarrow> disk \<Rightarrow> file_path \<Rightarrow> (string + file_path) list \<Rightarrow>
     (file_path \<times> decoded_raw_checkpoint) option \<Rightarrow> (file_path \<times> decoded_raw_checkpoint) option store_result" where
  "choose_checkpoint cf fl d dir [] best = Inr best"
| "choose_checkpoint cf fl d dir (Inl message # es) best = Inl (checkpoint_io dir ''read checkpoint directory entry'' message)"
| "choose_checkpoint cf fl d dir (Inr p # es) best =
     (if \<not> is_raw_checkpoint_file p then choose_checkpoint cf fl d dir es best
      else case read_decoded_checkpoint cf fl d p of
        Inr dc \<Rightarrow> choose_checkpoint cf fl d dir es (if better dc best then Some (p, dc) else best)
      | Inl (CheckpointCorruption _ _) \<Rightarrow> choose_checkpoint cf fl d dir es best
      | Inl e \<Rightarrow> Inl e)"

definition load_latest_raw_checkpoint ::
    "crc_functions \<Rightarrow> io_faults \<Rightarrow> disk \<Rightarrow> file_path \<Rightarrow> dir_listing \<Rightarrow> mfs_store_config \<Rightarrow> raw_checkpoint_load option store_result" where
  "load_latest_raw_checkpoint cf fl d dir listing config = (case listing of
     None \<Rightarrow> Inr None
   | Some entries \<Rightarrow>
       (case fl ''read checkpoint directory'' of
          Some (_, message) \<Rightarrow> Inl (checkpoint_io dir ''read checkpoint directory'' message)
        | None \<Rightarrow>
            and_then (choose_checkpoint cf fl d dir entries None) (\<lambda>best. case best of
              None \<Rightarrow> Inr None
            | Some (p, dc) \<Rightarrow> and_then (from_raw_snapshot config (dc_snapshot dc)) (\<lambda>st.
                Inr (Some \<lparr>load_path = p, load_metadata = dc_metadata dc, load_engine = st\<rparr>)))))"

definition recover_raw_checkpoint_then_wal ::
    "crc_functions \<Rightarrow> io_faults \<Rightarrow> disk \<Rightarrow> file_path \<Rightarrow> dir_listing \<Rightarrow> file_path \<Rightarrow> mfs_store_config \<Rightarrow> raw_recovery store_result" where
  "recover_raw_checkpoint_then_wal cf fl d dir listing wal config =
     and_then (load_latest_raw_checkpoint cf fl d dir listing config) (\<lambda>loaded.
     and_then (case loaded of
         Some ld \<Rightarrow> Inr (load_engine ld, Some \<lparr>src_path = load_path ld, src_metadata = load_metadata ld\<rparr>, ck_lsn (load_metadata ld))
       | None \<Rightarrow> and_then (open_memory config) (\<lambda>st. Inr (st, None, 0))) (\<lambda>(st, checkpoint, after).
     case replay_after cf fl wal d after st of
       (Inl e, _) \<Rightarrow> Inl e
     | (Inr stats, st) \<Rightarrow> Inr \<lparr>recovered_engine = st, recovered_checkpoint = checkpoint, recovered_wal = stats\<rparr>))"

end
