(* ===== verification/Checkpoint_Recovery.thy ===== *)
theory Checkpoint_Recovery
  imports Checkpoint
begin

text \<open>
  What checkpoints promise: loading the snapshot of a store gives a store with the same reads,
  writing is atomic and durable, the newest readable checkpoint is chosen, and a checkpoint
  together with the write-ahead log recovers what the log says.
\<close>

section \<open>Loading a snapshot\<close>

definition snapshot_map :: "raw_snapshot_record list \<Rightarrow> raw_key \<Rightarrow> raw_record option" where
  "snapshot_map ss = map_of (map (\<lambda>s. (sn_key s, record_of_snapshot s)) ss)"

definition live_records :: "raw_snapshot_record list \<Rightarrow> raw_snapshot_record list" where
  "live_records ss = filter (\<lambda>s. sn_value s \<noteq> None) ss"

lemma snapshot_map_None: "snapshot_map ss k = None \<longleftrightarrow> k \<notin> sn_key ` set ss"
  by (simp add: snapshot_map_def map_of_eq_None_iff image_image)

lemma snapshot_map_Cons:
  assumes "sn_key s \<notin> sn_key ` set ss"
  shows "m(sn_key s \<mapsto> record_of_snapshot s) ++ snapshot_map ss = m ++ snapshot_map (s # ss)"
proof -
  have "sn_key s \<notin> dom (snapshot_map ss)" using assms by (simp add: domIff snapshot_map_None)
  moreover have "snapshot_map (s # ss) = (snapshot_map ss)(sn_key s \<mapsto> record_of_snapshot s)"
    by (simp add: snapshot_map_def)
  ultimately show ?thesis by (simp add: map_add_upd_left)
qed

lemma load_records_effect:
  assumes "load_records name ss (t, n) = res" and "insert_only hash_bytes t" and "distinct (map sn_key ss)"
  shows "case res of
      Inl e \<Rightarrow> e = CollectionCapacityFull name
    | Inr (t', n') \<Rightarrow> insert_only hash_bytes t' \<and> cm_get hash_bytes t' = cm_get hash_bytes t ++ snapshot_map ss
        \<and> n' = n + of_nat (length (live_records ss))"
  using assms
proof (induction ss arbitrary: t n)
  case Nil
  then show ?case by (auto simp: snapshot_map_def live_records_def)
next
  case (Cons s ss)
  obtain out t1 where i: "cm_insert hash_bytes (sn_key s) (record_of_snapshot s) t = (out, t1)" by fastforce
  note e = cmt.ins_pair_lookup [OF Cons.prems(2) i]
  show ?case
  proof (cases "out = Full")
    case True
    with Cons.prems(1) i show ?thesis by (auto simp: record_of_snapshot_def)
  next
    case False
    define n1 where "n1 = (if sn_value s \<noteq> None then n + 1 else n)"
    have l1: "load_records name ss (t1, n1) = res"
      using Cons.prems(1) i False by (cases out) (auto simp: record_of_snapshot_def n1_def)
    have t1: "insert_only hash_bytes t1" "distinct (map sn_key ss)"
        "cm_get hash_bytes t1 = (cm_get hash_bytes t)(sn_key s \<mapsto> record_of_snapshot s)"
      using e Cons.prems(3) False by simp_all
    have "case res of Inl e \<Rightarrow> e = CollectionCapacityFull name
      | Inr (t', n') \<Rightarrow> insert_only hash_bytes t' \<and> cm_get hash_bytes t' = (cm_get hash_bytes t)(sn_key s \<mapsto> record_of_snapshot s) ++ snapshot_map ss
        \<and> n' = n1 + of_nat (length (live_records ss))"
      using Cons.IH [OF l1 t1(1,2)] by (simp only: t1(3))
    then show ?thesis
      using Cons.prems(3) by (auto simp: snapshot_map_Cons live_records_def n1_def split: sum.splits)
  qed
qed

lemma snapshot_live_keys:
  assumes "distinct (map sn_key ss)" and "rc_lookup rc = snapshot_map ss"
  shows "card (live_keys rc) = length (live_records ss)"
proof -
  have "live_keys rc = sn_key ` set (live_records ss)"
    unfolding live_keys_def assms(2) snapshot_map_def live_records_def
    using assms(1) by (force simp: map_of_eq_Some_iff comp_def record_of_snapshot_def)
  moreover have "distinct (map sn_key (live_records ss))" using List.distinct_map_filter [OF assms(1)] by (simp only: live_records_def)
  ultimately show ?thesis by (metis distinct_card length_map list.set_map)
qed

lemma load_collection_effect:
  assumes "load_collection config c colls = res" and "distinct (map sn_key (cs_records c))"
  shows "case res of
      Inl e \<Rightarrow> e = CollectionAlreadyExists (cs_name c) \<and> map_of colls (cs_name c) \<noteq> None \<or> e = CollectionCapacityFull (cs_name c)
    | Inr colls' \<Rightarrow> \<exists>rc. map_of colls (cs_name c) = None \<and> colls' = colls @ [(cs_name c, rc)] \<and> rc_ok rc
        \<and> rc_lookup rc = snapshot_map (cs_records c)"
proof (cases "map_of colls (cs_name c) = None")
  case False
  with assms(1) show ?thesis by (auto simp: load_collection_def)
next
  case True
  define n where "n = max (max (raw_initial_capacity config) (saturating_mul (length (cs_records c)) 2)) 1"
  obtain lres where l: "load_records (cs_name c) (cs_records c) (with_capacity n, 0) = lres" by blast
  have "insert_only hash_bytes (with_capacity n :: (raw_key, raw_record) concurrent_map)"
    unfolding with_capacity_def by (rule insert_only_new)
  note e = load_records_effect [OF l this assms(2)]
  have new: "cm_get hash_bytes (with_capacity n :: (raw_key, raw_record) concurrent_map) = Map.empty"
    using new_lookup [of n] by (simp add: rc_lookup_def rc_with_capacity_def fun_eq_iff)
  show ?thesis
  proof (cases lres)
    case (Inl x)
    with e l True assms(1) n_def show ?thesis by (auto simp: load_collection_def Let_def)
  next
    case (Inr tn)
    obtain t k where tn: "tn = (t, k)" by (cases tn)
    let ?rc = "\<lparr>rc_records = t, rc_record_count = k\<rparr>"
    have m: "rc_lookup ?rc = snapshot_map (cs_records c)" using e Inr tn new by (simp add: rc_lookup_def fun_eq_iff)
    have "rc_ok ?rc" using e Inr tn snapshot_live_keys [OF assms(2) m] by (simp add: rc_ok_def)
    moreover have "res = Inr (colls @ [(cs_name c, ?rc)])"
      using assms(1) True l Inr tn n_def by (auto simp: load_collection_def Let_def hm_insert_fresh)
    ultimately show ?thesis using m True by auto
  qed
qed

text \<open>A snapshot that loads: its collections have different names, their records different keys.\<close>

definition snapshot_wf :: "raw_store_snapshot \<Rightarrow> bool" where
  "snapshot_wf cs \<longleftrightarrow> distinct (map cs_name cs) \<and> (\<forall>c \<in> set cs. distinct (map sn_key (cs_records c)))"

lemma load_collections_effect:
  assumes "try_fold (load_collection config) cs colls = res" and "\<forall>c \<in> set cs. distinct (map sn_key (cs_records c))"
    and "distinct (map fst colls @ map cs_name cs)"
  shows "case res of
      Inl e \<Rightarrow> \<exists>c \<in> set cs. e = CollectionCapacityFull (cs_name c)
    | Inr colls' \<Rightarrow> \<exists>rcs. colls' = colls @ zip (map cs_name cs) rcs \<and> length rcs = length cs \<and> list_all rc_ok rcs
        \<and> map rc_lookup rcs = map (snapshot_map \<circ> cs_records) cs"
  using assms
proof (induction cs arbitrary: colls)
  case Nil
  then show ?case by auto
next
  case (Cons c cs)
  obtain r where l: "load_collection config c colls = r" by blast
  have d: "distinct (map sn_key (cs_records c))" using Cons.prems(2) by simp
  note e = load_collection_effect [OF l d]
  have n: "map_of colls (cs_name c) = None" using Cons.prems(3) by (auto simp: map_of_eq_None_iff)
  show ?case
  proof (cases r)
    case (Inl x)
    then have "res = Inl x" using l Cons.prems(1) by simp
    moreover have "x = CollectionCapacityFull (cs_name c)" using e n Inl by simp
    ultimately show ?thesis by simp
  next
    case (Inr colls1)
    with e obtain rc where rc: "colls1 = colls @ [(cs_name c, rc)]" "rc_ok rc" "rc_lookup rc = snapshot_map (cs_records c)" by auto
    have "try_fold (load_collection config) cs colls1 = res" using Cons.prems(1) l Inr by simp
    from Cons.IH [OF this] Cons.prems(2,3) rc(1)
    have ih: "case res of Inl e \<Rightarrow> \<exists>c \<in> set cs. e = CollectionCapacityFull (cs_name c)
      | Inr colls' \<Rightarrow> \<exists>rcs. colls' = colls1 @ zip (map cs_name cs) rcs \<and> length rcs = length cs \<and> list_all rc_ok rcs
        \<and> map rc_lookup rcs = map (snapshot_map \<circ> cs_records) cs" by auto
    show ?thesis
    proof (cases res)
      case (Inl x)
      with ih show ?thesis by auto
    next
      case (Inr colls')
      with ih obtain rcs where "colls' = colls1 @ zip (map cs_name cs) rcs" "length rcs = length cs" "list_all rc_ok rcs"
        "map rc_lookup rcs = map (snapshot_map \<circ> cs_records) cs" by auto
      with rc Inr show ?thesis by (auto intro!: exI [of _ "rc # rcs"])
    qed
  qed
qed

text \<open>What can be read of a store: for each collection and key the record, deleted or not.\<close>

definition capacity_error :: "store_error \<Rightarrow> bool" where
  "capacity_error e \<longleftrightarrow> (\<exists>coll. e = CollectionCapacityFull coll) \<or> (\<exists>n. e = CollectionLimitExceeded n)"

lemma map_of_zip_map:
  "length rcs = length cs \<Longrightarrow> map f rcs = map g cs \<Longrightarrow>
     map_option f (map_of (zip (map n cs) rcs) k) = map_of (map (\<lambda>c. (n c, g c)) cs) k"
  by (induction rcs cs rule: list_induct2) auto

lemma from_raw_snapshot_effect:
  assumes "from_raw_snapshot config cs = res" and "snapshot_wf cs" and "validate_store_config config = Inr ()"
  shows "case res of
      Inl e \<Rightarrow> capacity_error e
    | Inr st \<Rightarrow> store_ok st \<and> st_config st = config \<and> st_schema_indexes st = [] \<and> st_durability st = new_durability config
        \<and> fst ` set (st_collections st) = cs_name ` set cs
        \<and> (\<forall>coll. map_option rc_lookup (map_of (st_collections st) coll) = map_of (map (\<lambda>c. (cs_name c, snapshot_map (cs_records c))) cs) coll)"
proof (cases "length cs > max_collections config")
  case True
  with assms show ?thesis by (auto simp: from_raw_snapshot_def capacity_error_def)
next
  case False
  obtain r where r: "try_fold (load_collection config) cs [] = r" by blast
  have "distinct (map fst [] @ map cs_name cs)" "\<forall>c \<in> set cs. distinct (map sn_key (cs_records c))"
    using assms(2) by (auto simp: snapshot_wf_def)
  note e = load_collections_effect [OF r this(2,1)]
  show ?thesis
  proof (cases r)
    case (Inl x)
    then have "res = Inl x" using assms(1,3) False r by (simp add: from_raw_snapshot_def)
    then show ?thesis using e Inl by (auto simp: capacity_error_def)
  next
    case (Inr colls)
    with e obtain rcs where rcs: "colls = zip (map cs_name cs) rcs" "length rcs = length cs" "list_all rc_ok rcs"
      "map rc_lookup rcs = map (snapshot_map \<circ> cs_records) cs" by auto
    define st where "st = \<lparr>st_config = config, st_durability = new_durability config, st_collections = colls,
            st_schema_indexes = [], st_next_collection_id = of_nat (length colls) + 1\<rparr>"
    have res: "res = Inr st" using assms(1,3) False r Inr by (simp add: from_raw_snapshot_def st_def)
    have f: "map fst colls = map cs_name cs" using rcs(1,2) by simp
    have "rc_ok rc" if "map_of colls coll = Some rc" for coll rc
      using map_of_SomeD [OF that] rcs(1,3) by (auto simp: list_all_iff dest: set_zip_rightD)
    then have "store_ok st" using False rcs(1,2) f assms(2) by (simp add: store_ok_def st_def hm_wf_def snapshot_wf_def)
    moreover have "fst ` set colls = cs_name ` set cs" using f by (metis list.set_map)
    moreover have "map_option rc_lookup (map_of colls coll) = map_of (map (\<lambda>c. (cs_name c, snapshot_map (cs_records c))) cs) coll" for coll
      using map_of_zip_map [OF rcs(2,4)] rcs(1) by (simp add: comp_def)
    ultimately show ?thesis unfolding res by (simp add: st_def)
  qed
qed

lemma raw_snapshot_wf:
  assumes "store_ok st"
  shows "snapshot_wf (raw_snapshot st)"
    and "map_of (map (\<lambda>c. (cs_name c, snapshot_map (cs_records c))) (raw_snapshot st)) coll
      = map_option rc_lookup (map_of (st_collections st) coll)"
    and "cs_name ` set (raw_snapshot st) = fst ` set (st_collections st)"
proof -
  let ?f = "\<lambda>(name, rc). \<lparr>cs_name = name, cs_records = rc_snapshot_records rc\<rparr>"
  have wf: "distinct (map fst (st_collections st))" using assms by (simp add: store_ok_def hm_wf_def)
  have ok: "rc_ok rc" if "(name, rc) \<in> set (st_collections st)" for name rc
    using that wf assms by (simp add: store_ok_def hm_wf_def)
  have s: "set (raw_snapshot st) = ?f ` set (st_collections st)" by (simp add: raw_snapshot_def)
  have "mset (map cs_name (raw_snapshot st)) = mset (map fst (st_collections st))"
    by (simp add: raw_snapshot_def image_mset.compositionality comp_def case_prod_beta)
  then have d: "distinct (map cs_name (raw_snapshot st))" using wf by (metis mset_eq_imp_distinct_iff)
  show "snapshot_wf (raw_snapshot st)"
    unfolding snapshot_wf_def s using d ok snapshot_contents by (auto simp: strict_sorted_iff)
  show n: "cs_name ` set (raw_snapshot st) = fst ` set (st_collections st)"
    unfolding s by (force simp: image_image)
  let ?g = "\<lambda>c. (cs_name c, snapshot_map (cs_records c))"
  have "map_of (map ?g (raw_snapshot st)) coll = Some m \<longleftrightarrow> map_option rc_lookup (map_of (st_collections st) coll) = Some m" for m
  proof -
    have "map_of (map ?g (raw_snapshot st)) coll = Some m \<longleftrightarrow> (coll, m) \<in> ?g ` set (raw_snapshot st)"
      using d by (simp add: map_of_eq_Some_iff comp_def)
    also have "\<dots> \<longleftrightarrow> (\<exists>rc. (coll, rc) \<in> set (st_collections st) \<and> m = snapshot_map (rc_snapshot_records rc))"
      unfolding s by force
    also have "\<dots> \<longleftrightarrow> (\<exists>rc. (coll, rc) \<in> set (st_collections st) \<and> m = rc_lookup rc)"
      using ok snapshot_contents by (metis snapshot_map_def)
    also have "\<dots> \<longleftrightarrow> map_option rc_lookup (map_of (st_collections st) coll) = Some m"
      unfolding map_of_eq_Some_iff [OF wf, symmetric] by (cases "map_of (st_collections st) coll") auto
    finally show ?thesis .
  qed
  then show "map_of (map ?g (raw_snapshot st)) coll = map_option rc_lookup (map_of (st_collections st) coll)"
    by (rule option_eqI)
qed

section \<open>Replaying after a checkpoint\<close>

lemma ensure_collection_effect:
  assumes "ensure_raw_collection coll st = (res, st')" and "store_ok st"
  shows "case res of
      Inl e \<Rightarrow> capacity_error e
    | Inr _ \<Rightarrow> store_ok st' \<and> st_config st' = st_config st \<and> st_schema_indexes st' = st_schema_indexes st
        \<and> st_durability st' = st_durability st
        \<and> fst ` set (st_collections st') = insert coll (fst ` set (st_collections st)) \<and> map_of (st_collections st') coll \<noteq> None
        \<and> store_lookup st' = store_lookup st"
proof -
  obtain r st1 where c: "create_raw_collection coll st = (r, st1)" by fastforce
  note e = create_effect [OF c assms(2)]
  show ?thesis
  proof (cases r)
    case (Inr i)
    with c assms(1) have r: "res = Inr ()" "st' = st1" by (auto simp: ensure_raw_collection_def)
    from e Inr have n: "map_of (st_collections st) coll = None"
      "st_collections st1 = st_collections st @ [(coll, rc_with_capacity (raw_initial_capacity (st_config st)))]" by auto
    have "store_lookup st1 = store_lookup st"
      using n by (auto simp: fun_eq_iff store_lookup_def map_add_def new_lookup split: option.splits)
    with r e n show ?thesis by auto
  next
    case (Inl x)
    then have st1: "st1 = st" using e by simp
    show ?thesis
    proof (cases "map_of (st_collections st) coll")
      case None
      then have "x = CollectionLimitExceeded (max_collections (st_config st))" using e Inl by simp
      then have "res = Inl x" using c assms(1) Inl None st1
        by (auto simp: ensure_raw_collection_def get_raw_def raw_collection_of_def)
      then show ?thesis using \<open>x = _\<close> by (simp add: capacity_error_def)
    next
      case (Some rc)
      then have "res = Inr ()" "st' = st" using e Inl c assms(1) st1 by (auto simp: ensure_raw_collection_def)
      moreover have "coll \<in> fst ` set (st_collections st)" using Some by (metis map_of_eq_None_iff option.distinct(1))
      ultimately show ?thesis using assms(2) Some by (simp add: insert_absorb)
    qed
  qed
qed

lemma apply_record_effect:
  assumes "apply_raw_record r st = (res, st')" and "store_ok st" and "st_schema_indexes st = []" and "fields_fit r"
  shows "case res of
      Inl e \<Rightarrow> capacity_error e
    | Inr _ \<Rightarrow> store_ok st' \<and> st_schema_indexes st' = [] \<and> st_config st' = st_config st \<and> st_durability st' = st_durability st
        \<and> fst ` set (st_collections st') = insert (w_collection r) (fst ` set (st_collections st))
        \<and> (\<forall>coll key. store_lookup st' coll key =
             (if (coll, key) = record_id r then Some (log_record r) else store_lookup st coll key))"
proof -
  let ?c = "w_collection r"
  obtain er st1 where en: "ensure_raw_collection ?c st = (er, st1)" by fastforce
  note e = ensure_collection_effect [OF en assms(2)]
  have ap: "apply_raw_record r st = (case er of Inl e \<Rightarrow> (Inl e, st1)
      | Inr _ \<Rightarrow> apply_raw_replay_record ?c (w_key r) (w_value r) (w_version r) st1)"
    using assms(4) en
    by (cases "w_op r"; cases "w_value r") (auto simp: apply_raw_record_def fields_fit_def then_op_def split: sum.splits)
  show ?thesis
  proof (cases er)
    case (Inl x)
    then show ?thesis using ap e assms(1) by auto
  next
    case (Inr u)
    with e assms(3) obtain rc where rc: "map_of (st_collections st1) ?c = Some rc" and ok1: "store_ok st1"
      and x1: "st_schema_indexes st1 = []" by auto
    then have ok: "rc_ok rc" by (simp add: store_ok_def)
    obtain out rc' where i: "rc_insert (w_key r) (log_record r) (Option.bind (rc_lookup rc (w_key r)) rec_value) rc = (out, rc')"
      by fastforce
    note ie = rc_insert_effect [OF ok i]
    have a: "(res, st') = (if out = Full then (Inl (CollectionCapacityFull ?c), st1) else (Inr (), set_collection ?c rc' st1))"
      using assms(1) ap Inr rc x1 replay_insert [OF ok, of ?c "w_key r" "w_value r" "w_version r"] i
      by (cases out) (simp_all add: apply_raw_replay_record_def raw_collection_of_def schema_indexes_for_collection_def log_record_def)
    show ?thesis
    proof (cases "out = Full")
      case True
      with a show ?thesis by (simp add: capacity_error_def)
    next
      case False
      with a have r: "res = Inr ()" "st' = set_collection ?c rc' st1" by simp_all
      have "store_ok st'" unfolding r using ie ok1 rc False by (intro store_ok_set_collection) auto
      moreover have "store_lookup st' coll key = (if (coll, key) = record_id r then Some (log_record r) else store_lookup st coll key)"
        for coll key
      proof -
        have "store_lookup st' coll key = (if (coll, key) = record_id r then Some (log_record r) else store_lookup st1 coll key)"
          using ie False rc by (auto simp: store_lookup_def r set_collection_def record_id_def)
        then show ?thesis using e Inr by simp
      qed
      ultimately show ?thesis using r e Inr assms(3) by (auto simp: set_collection_def)
    qed
  qed
qed

lemma latest_append: "latest (rs @ rs') k = (case latest rs' k of Some r \<Rightarrow> Some r | None \<Rightarrow> latest rs k)"
  by (induction rs' rule: rev_induct) (simp_all add: latest_snoc flip: append_assoc, simp add: latest_def)

lemma replay_after_run:
  assumes "run_records (replay_record after) rs (st, stats) = (res, (st', stats'))" and "store_ok st"
    and "st_schema_indexes st = []" and "list_all fields_fit rs"
  shows "case res of
      Inl e \<Rightarrow> capacity_error e
    | Inr _ \<Rightarrow> store_ok st' \<and> st_schema_indexes st' = [] \<and> st_config st' = st_config st \<and> st_durability st' = st_durability st
        \<and> fst ` set (st_collections st') = fst ` set (st_collections st) \<union> w_collection ` set (filter (\<lambda>r. after < w_lsn r) rs)
        \<and> (\<forall>coll key. store_lookup st' coll key = (case latest (filter (\<lambda>r. after < w_lsn r) rs) (coll, key) of
             Some r \<Rightarrow> Some (log_record r) | None \<Rightarrow> store_lookup st coll key))"
  using assms(1,4)
proof (induction rs arbitrary: res st' stats' rule: rev_induct)
  case Nil
  then show ?case using assms(2,3) by (auto simp: latest_def)
next
  case (snoc r rs)
  obtain res1 st1 stats1 where r1: "run_records (replay_record after) rs (st, stats) = (res1, (st1, stats1))"
    by (metis surj_pair)
  have f: "list_all fields_fit rs" "fields_fit r" using snoc.prems(2) by simp_all
  note ih = snoc.IH [OF r1 f(1)]
  show ?case
  proof (cases res1)
    case (Inl e)
    with r1 snoc.prems(1) ih show ?thesis by (auto simp: run_records_append)
  next
    case (Inr u)
    then have r2: "run_records (replay_record after) [r] (st1, stats1) = (res, (st', stats'))"
      using snoc.prems(1) r1 by (simp add: run_records_append)
    show ?thesis
    proof (cases "after < w_lsn r")
      case False
      with r2 have "res = Inr ()" "st' = st1" by (auto simp: replay_record_def)
      then show ?thesis using ih Inr False by simp
    next
      case True
      obtain ar st2 where a: "apply_raw_record r st1 = (ar, st2)" by fastforce
      have ok1: "store_ok st1" "st_schema_indexes st1 = []" using ih Inr by simp_all
      note e = apply_record_effect [OF a ok1 f(2)]
      show ?thesis
      proof (cases ar)
        case (Inl x)
        with r2 a True e show ?thesis by (auto simp: replay_record_def)
      next
        case (Inr v)
        with r2 a True have r: "res = Inr ()" "st' = st2" by (auto simp: replay_record_def)
        have "store_lookup st2 coll key = (case latest (filter (\<lambda>r. after < w_lsn r) rs @ [r]) (coll, key) of
             Some r \<Rightarrow> Some (log_record r) | None \<Rightarrow> store_lookup st coll key)" for coll key
          using e Inr ih \<open>res1 = Inr u\<close> by (auto simp: latest_snoc)
        then show ?thesis using r e Inr ih \<open>res1 = Inr u\<close> True by auto
      qed
    qed
  qed
qed

lemma replay_after_effect:
  assumes "replay_after cf no_faults p d after st = (res, st')" and "read_records cf (disk_files d p) = Inr rs"
    and "store_ok st" and "st_schema_indexes st = []"
  shows "case res of
      Inl e \<Rightarrow> capacity_error e
    | Inr _ \<Rightarrow> store_ok st'
        \<and> fst ` set (st_collections st') = fst ` set (st_collections st) \<union> w_collection ` set (filter (\<lambda>r. after < w_lsn r) rs)
        \<and> (\<forall>coll key. store_lookup st' coll key = (case latest (filter (\<lambda>r. after < w_lsn r) rs) (coll, key) of
             Some r \<Rightarrow> Some (log_record r) | None \<Rightarrow> store_lookup st coll key))"
proof (cases "disk_files d p")
  case None
  then have "rs = []" using assms(2) by simp
  moreover have "res = Inr empty_stats" "st' = st"
    using None assms(1) by (simp_all add: replay_after_def scan_path_def scan_records_with_offsets_def)
  ultimately show ?thesis using assms(3) by (simp add: latest_def)
next
  case (Some bs)
  obtain tail where t: "bs = log_bytes cf rs @ tail" "valid_log 0 rs" "torn cf tail"
    using assms(2) Some by (auto elim: read_records_parts)
  have f: "list_all fields_fit rs" using t(2) by (auto simp: valid_log_def list_all_iff loggable_def readable_def)
  obtain r st1 stats1 where r: "run_records (replay_record after) rs (st, empty_stats) = (r, (st1, stats1))" by (metis surj_pair)
  note e = replay_after_run [OF r assms(3,4) f]
  have "scan_path cf no_faults p d (replay_record after) (st, empty_stats) = (case r of
      Inl e \<Rightarrow> (Inl e, (st1, stats1)) | Inr _ \<Rightarrow> (Inr (add_stats empty_stats rs, length (log_bytes cf rs)), (st1, stats1)))"
    using Some t r by (simp add: scan_path_def io_step_def no_faults_def and_then_def scan_records_log split: sum.split)
  then show ?thesis using assms(1) e by (auto simp: replay_after_def split: sum.splits)
qed

lemma ascending_above: "ascending l rs \<Longrightarrow> r \<in> set rs \<Longrightarrow> l < w_lsn r"
  by (induction rs arbitrary: l) (auto dest: less_trans)

lemma filter_after_drop: "ascending l rs \<Longrightarrow> \<exists>j. filter (\<lambda>r. a < w_lsn r) rs = drop j rs"
proof (induction rs arbitrary: l)
  case (Cons r rs)
  show ?case
  proof (cases "a < w_lsn r")
    case True
    then have "\<forall>x \<in> set rs. a < w_lsn x" using Cons.prems ascending_above [of "w_lsn r" rs] by (auto dest: less_trans)
    then show ?thesis using True by (intro exI [of _ 0]) simp
  next
    case False
    from Cons obtain j where "filter (\<lambda>r. a < w_lsn r) rs = drop j rs" by auto
    with False show ?thesis by (intro exI [of _ "Suc j"]) simp
  qed
qed simp

lemma replayed_suffix:
  assumes "ascending 0 (rs0 @ rs1)" and "a \<le> last_lsn_of 0 rs0"
  shows "\<exists>j. filter (\<lambda>r. a < w_lsn r) (rs0 @ rs1) = drop j rs0 @ rs1"
proof -
  obtain j where "filter (\<lambda>r. a < w_lsn r) rs0 = drop j rs0"
    using filter_after_drop assms(1) by (metis ascending_append)
  moreover have "filter (\<lambda>r. a < w_lsn r) rs1 = rs1"
    using ascending_above [of "last_lsn_of 0 rs0" rs1] assms by (auto simp: ascending_append filter_id_conv dest: le_less_trans)
  ultimately show ?thesis by auto
qed

lemma latest_suffix:
  "(case latest (drop j rs0 @ rs1) k of Some r \<Rightarrow> Some r | None \<Rightarrow> latest rs0 k) = latest (rs0 @ rs1) k"
proof -
  have "latest rs0 k = (case latest (drop j rs0) k of Some r \<Rightarrow> Some r | None \<Rightarrow> latest (take j rs0) k)"
    by (metis append_take_drop_id latest_append)
  then show ?thesis by (auto simp: latest_append split: option.splits)
qed

lemma store_inv_lookup:
  assumes "store_inv cf rs n (st, d)"
  shows "store_lookup st coll key = map_option log_record (latest rs (coll, key))"
proof (cases "map_of (st_collections st) coll")
  case None
  then have "coll \<notin> w_collection ` set rs" using assms by (auto simp: store_inv_def map_of_eq_None_iff)
  then have "latest rs (coll, key) = None" by (force simp: latest_def find_None_iff record_id_def)
  then show ?thesis using None by (simp add: store_lookup_def)
next
  case (Some rc)
  then have "replay_coll (rc_with_capacity (raw_initial_capacity (st_config st))) (records_in coll rs) = Some rc"
    using assms by (simp add: store_inv_def)
  from replay_lookup [OF this] Some show ?thesis by (simp add: store_lookup_def)
qed

section \<open>Installing a checkpoint\<close>

lemma strip_tail_name: "n \<noteq> [] \<Longrightarrow> last n \<noteq> CHR ''/'' \<Longrightarrow> last n \<noteq> CHR ''.'' \<Longrightarrow> strip_tail (rev n @ r) = rev n @ r"
  by (cases n rule: rev_cases; cases r) (auto, (metis strip_tail.simps(2,3) list.exhaust append_Nil append_Cons)+)?

lemma last_component_push:
  assumes "n \<noteq> []" and "CHR ''/'' \<notin> set n" and "last n \<noteq> CHR ''.''"
  shows "last_component (path_push q n) = n"
proof -
  have l: "last n \<noteq> CHR ''/''" using assms by (metis last_in_set)
  have t: "takeWhile (\<lambda>c. c \<noteq> CHR ''/'') (rev n @ r) = rev n @ takeWhile (\<lambda>c. c \<noteq> CHR ''/'') r" for r
    by (rule takeWhile_append2) (use assms(2) in auto)
  note s = strip_tail_name [OF assms(1) l assms(3)]
  define r where "r = (if q = [] \<or> last q = CHR ''/'' then rev q else CHR ''/'' # rev q)"
  have "rev (path_push q n) = rev n @ r" by (simp add: r_def path_push_def)
  moreover have "takeWhile (\<lambda>c. c \<noteq> CHR ''/'') r = []" by (cases q rule: rev_cases) (simp_all add: r_def)
  ultimately show ?thesis by (simp only: last_component_def s t append_Nil2 rev_rev_ident)
qed

lemma digits: "c \<in> set (dec_string n) \<Longrightarrow> c \<noteq> CHR ''/'' \<and> c \<noteq> CHR ''.''"
proof -
  assume "c \<in> set (dec_string n)"
  then obtain k where "k < (10 :: nat)" "c = char_of (48 + k)" using decimal_no_dot by blast
  then have "of_char c = (48 + k :: nat)" by simp
  then show ?thesis by auto
qed

lemma decimal_not_Nil: "dec_string n \<noteq> []"
  by (subst dec_string.simps) simp

definition temp_name :: "nat \<Rightarrow> nat \<Rightarrow> file_path \<Rightarrow> string" where
  "temp_name pid ts p = (case file_name p of Some n \<Rightarrow> n | None \<Rightarrow> ''raw-checkpoint'')
       @ ''.'' @ raw_checkpoint_tmp_extension @ ''.'' @ dec_string pid @ ''.'' @ dec_string ts"

lemma last_component_no_slash: "CHR ''/'' \<notin> set (last_component p)"
  by (auto simp: last_component_def dest: set_takeWhileD)

lemma temp_path_differs: "temp_path_for pid ts p \<noteq> p"
proof
  let ?n = "temp_name pid ts p"
  assume e: "temp_path_for pid ts p = p"
  have "CHR ''/'' \<notin> set (case file_name p of Some n \<Rightarrow> n | None \<Rightarrow> ''raw-checkpoint'')"
    using last_component_no_slash [of p] by (auto simp: file_name_def Let_def)
  then have "CHR ''/'' \<notin> set ?n" using digits by (auto simp: temp_name_def raw_checkpoint_tmp_extension_def)
  moreover have "last ?n \<noteq> CHR ''.''"
    using digits [of "last (dec_string ts)" ts] decimal_not_Nil [of ts] by (simp add: temp_name_def)
  moreover have "?n \<noteq> []" by (simp add: temp_name_def)
  moreover have "temp_path_for pid ts p = with_file_name p ?n" by (simp add: temp_path_for_def temp_name_def)
  then obtain q where "temp_path_for pid ts p = path_push q ?n" by (cases "file_name p") (auto simp: with_file_name_def)
  ultimately have "last_component p = ?n" using last_component_push e by metis
  then have "length (last_component p) = length ?n" by simp
  moreover have "length (last_component p) < length ?n \<or> last_component p = [] \<or> last_component p = ''.'' \<or> last_component p = ''..''"
    by (auto simp: temp_name_def file_name_def Let_def)
  ultimately show False by (auto simp: temp_name_def raw_checkpoint_tmp_extension_def)
qed

lemma ck_step_cases:
  assumes "ck_step fl p label f d = (res, d')"
  obtains "res = Inr ()" "d' = f d" | message where "res = Inl (checkpoint_io p label message)" "d' = d"
  using assms by (auto simp: ck_step_def split: option.splits)

lemma sync_parent_frame: "sync_parent_dir fl p d = (res, d') \<Longrightarrow> d' = d"
  by (auto simp: sync_parent_dir_def Let_def ck_step_def then_op_def raise_def split: if_splits option.splits prod.splits sum.splits)

text \<open>The temporary file aside, an installation replaces the target as a whole or not at all.\<close>

lemma install_effect:
  assumes "install_checkpoint fl tmp p bs d = (res, d')" and "tmp \<noteq> p" and "disk_synced d tmp = 0"
  shows "(\<forall>q. q \<noteq> p \<and> q \<noteq> tmp \<longrightarrow> disk_files d' q = disk_files d q)
    \<and> (disk_files d' p = disk_files d p \<and> disk_synced d' p = disk_synced d p \<and> res \<noteq> Inr ()
       \<or> disk_files d' p = Some bs \<and> disk_synced d' p = length bs)"
proof -
  have frame: "(\<forall>q. q \<noteq> p \<and> q \<noteq> tmp \<longrightarrow> disk_files d' q = disk_files d q)
    \<and> (disk_files d' p = disk_files d p \<and> disk_synced d' p = disk_synced d p \<and> res \<noteq> Inr ()
       \<or> disk_files d' p = Some bs \<and> disk_synced d' p = length bs)"
    if "res = Inl e" "disk_files d' = (disk_files d)(tmp := x)" "disk_synced d' = (disk_synced d)(tmp := y)" for e x y
    using that assms(2) by auto
  from assms(1) show ?thesis unfolding install_checkpoint_def
  proof (cases rule: then_op_cases)
    case (fails e)
    then show ?thesis by (auto simp: create_new_def split: if_splits elim!: ck_step_cases)
  next
    case (continues u d1)
    then have n: "disk_files d tmp = None" and d1: "d1 = file_create tmp d"
      by (auto simp: create_new_def split: if_splits elim!: ck_step_cases)
    have c1: "content tmp d1 = []" "disk_synced d1 = disk_synced d" by (simp_all add: d1 file_create_def content_def n)
    from continues(2) show ?thesis
    proof (cases rule: then_op_cases)
      case (fails e)
      then show ?thesis using c1 d1 assms(2,3)
        by (auto simp: write_file_def file_append_def file_create_def split: option.splits)
    next
      case (continues v d2)
      then have d2: "d2 = file_append tmp bs d1" by (auto simp: write_file_def split: option.splits)
      from continues(2) show ?thesis
      proof (cases rule: then_op_cases)
        case (fails e)
        then show ?thesis using d2 d1 c1 assms(2)
          by (auto simp: file_append_def file_create_def elim!: ck_step_cases)
      next
        case (continues w d3)
        then have d3: "d3 = file_sync tmp d2" by (auto elim!: ck_step_cases)
        from continues(2) show ?thesis
        proof (cases rule: then_op_cases)
          case (fails e)
          then show ?thesis using d3 d2 d1 c1 assms(2)
            by (auto simp: file_sync_def file_append_def file_create_def elim!: ck_step_cases)
        next
          case (continues x d4)
          then have d4: "d4 = file_rename tmp p d3" by (auto elim!: ck_step_cases)
          have "d' = d4" using continues(2) sync_parent_frame by blast
          then show ?thesis using d4 d3 d2 d1 c1 assms(2)
            by (auto simp: file_rename_def file_sync_def file_append_def file_create_def content_def)
        qed
      qed
    qed
  qed
qed

lemma crash_synced:
  assumes "crash d d'" and "disk_files d p = Some bs" and "disk_synced d p = length bs" and "bs \<noteq> []"
  shows "disk_files d' p = Some bs"
proof -
  have "(case disk_files d p of None \<Rightarrow> disk_files d' p = None
      | Some bs \<Rightarrow> (\<exists>n \<ge> disk_synced d p. disk_files d' p = Some (take n bs)) \<or> disk_synced d p = 0 \<and> disk_files d' p = None)"
    using assms(1) unfolding crash_def by blast
  then show ?thesis using assms(2-4) by auto
qed

lemma encoded_not_empty: "encode_checkpoint cf meta cs = Inr bs \<Longrightarrow> bs \<noteq> []"
  by (auto simp: encode_checkpoint_iff ck_head_def dest: arg_cong [of _ _ length])

definition collection_named :: "raw_collection_snapshot \<Rightarrow> bool" where
  "collection_named c \<longleftrightarrow> cs_name c \<noteq> [] \<and> rust_string (cs_name c) \<and> (\<forall>r \<in> set (cs_records c). sn_version r \<noteq> 0)"

lemma named_fits_ok:
  "list_all collection_fits cs \<Longrightarrow> \<forall>c \<in> set cs. collection_named c \<Longrightarrow> list_all collection_ok cs"
  by (auto simp: list_all_iff collection_ok_def collection_named_def collection_fits_def record_ok_def)

lemma write_checkpoint_effect:
  assumes "write_raw_checkpoint cf fl pid ts p st l d = (res, d')" and "disk_synced d (temp_path_for pid ts p) = 0"
    and "tmp = temp_path_for pid ts p" and "meta = metadata_for_snapshot (st_config st) l (raw_snapshot st)"
  shows "(\<forall>q. q \<noteq> p \<and> q \<noteq> tmp \<longrightarrow> disk_files d' q = disk_files d q)
    \<and> (case encode_checkpoint cf meta (raw_snapshot st) of
        Inl e \<Rightarrow> res = Inl e \<and> d' = d
      | Inr bs \<Rightarrow> (disk_files d' p = disk_files d p \<and> disk_synced d' p = disk_synced d p \<and> (\<exists>e. res = Inl e)
          \<or> disk_files d' p = Some bs \<and> disk_synced d' p = length bs \<and> (\<forall>m. res = Inr m \<longrightarrow> m = meta)))"
proof (cases "encode_checkpoint cf meta (raw_snapshot st)")
  case (Inl e)
  with assms show ?thesis by (auto simp: write_raw_checkpoint_def Let_def raise_def)
next
  case (Inr bs)
  obtain r d1 where i: "install_checkpoint fl tmp p bs d = (r, d1)" by fastforce
  have n: "tmp \<noteq> p" using temp_path_differs assms(3) by simp
  note e = install_effect [OF i n assms(2) [folded assms(3)]]
  have w: "(res, d') = (case r of
      Inl e \<Rightarrow> (Inl e, if fl ''remove temporary checkpoint'' = None then file_remove tmp d1 else d1) | Inr _ \<Rightarrow> (Inr meta, d1))"
    using assms(1) Inr i unfolding assms(3,4)
    by (auto simp: write_raw_checkpoint_def Let_def split: sum.splits if_splits)
  show ?thesis
  proof (cases r)
    case (Inl x)
    with w e n Inr show ?thesis by (auto simp: file_remove_def split: if_splits)
  next
    case (Inr u)
    with w e \<open>encode_checkpoint cf meta (raw_snapshot st) = Inr bs\<close> show ?thesis by auto
  qed
qed

section \<open>Choosing a checkpoint\<close>

definition at_most :: "(file_path \<times> decoded_raw_checkpoint) option \<Rightarrow> (file_path \<times> decoded_raw_checkpoint) option \<Rightarrow> bool" where
  "at_most best best' \<longleftrightarrow> (case best of None \<Rightarrow> True
     | Some (_, dc) \<Rightarrow> (case best' of None \<Rightarrow> False | Some (_, dc') \<Rightarrow> ck_lsn (dc_metadata dc) \<le> ck_lsn (dc_metadata dc')))"

lemma at_most_refl [simp]: "at_most x x"
  by (auto simp: at_most_def split: option.split)

lemma at_most_trans: "at_most x y \<Longrightarrow> at_most y z \<Longrightarrow> at_most x z"
  by (auto simp: at_most_def split: option.splits)

lemma at_most_better: "at_most best (if better dc best then Some (p, dc) else best)"
    "at_most (Some (p, dc)) (if better dc best then Some (p, dc) else best)"
  by (auto simp: at_most_def better_def split: option.splits)

lemma choose_effect:
  "choose_checkpoint cf fl d dir es best = Inr best' \<Longrightarrow>
     at_most best best'
     \<and> (best' = best \<or> (\<exists>p dc. best' = Some (p, dc) \<and> Inr p \<in> set es \<and> is_raw_checkpoint_file p \<and> read_decoded_checkpoint cf fl d p = Inr dc))
     \<and> (\<forall>q. Inr q \<in> set es \<and> is_raw_checkpoint_file q \<longrightarrow> (case read_decoded_checkpoint cf fl d q of
          Inl e \<Rightarrow> (\<exists>a k. e = CheckpointCorruption a k) | Inr dc \<Rightarrow> at_most (Some (q, dc)) best'))"
proof (induction es arbitrary: best)
  case (Cons x es)
  then obtain p where x: "x = Inr p" by (cases x) auto
  show ?case
  proof (cases "is_raw_checkpoint_file p")
    case False
    with Cons x show ?thesis by auto
  next
    case True
    show ?thesis
    proof (cases "read_decoded_checkpoint cf fl d p")
      case (Inl e)
      then obtain a k where "e = CheckpointCorruption a k" using Cons.prems x True by (cases e) auto
      then show ?thesis using Cons Inl x True by auto
    next
      case (Inr dc)
      let ?b = "if better dc best then Some (p, dc) else best"
      have "choose_checkpoint cf fl d dir es ?b = Inr best'" using Cons.prems x True Inr by simp
      note ih = Cons.IH [OF this]
      have "at_most (Some (p, dc)) best'" "at_most best best'"
        using ih at_most_better at_most_trans by blast+
      then show ?thesis using ih Inr x True by (auto split: if_splits)
    qed
  qed
qed simp

section \<open>Properties\<close>

text \<open>C14. Writing a checkpoint is atomic and durable. Whatever fails, the target file holds what it held
  before or the complete new checkpoint, and no other file changes but the temporary one. When it
  succeeds, the checkpoint reads back after any crash as the snapshot of the store, with its
  sequence number, provided the collections are named and no version is zero.\<close>

theorem checkpoint_write_atomic:
  assumes "write_raw_checkpoint cf fl pid ts p st l d = (res, d')" and "disk_synced d (temp_path_for pid ts p) = 0"
    and "\<forall>c \<in> set (raw_snapshot st). collection_named c" and "crash d' d2"
  shows "(\<forall>q. q \<noteq> p \<and> q \<noteq> temp_path_for pid ts p \<longrightarrow> disk_files d' q = disk_files d q)
    \<and> (disk_files d' p = disk_files d p \<and> disk_synced d' p = disk_synced d p \<and> (\<exists>e. res = Inl e)
       \<or> read_decoded_checkpoint cf no_faults d2 p =
           Inr \<lparr>dc_metadata = metadata_for_snapshot (st_config st) l (raw_snapshot st), dc_snapshot = raw_snapshot st\<rparr>
         \<and> (\<forall>m. res = Inr m \<longrightarrow> m = metadata_for_snapshot (st_config st) l (raw_snapshot st)))"
proof -
  let ?cs = "raw_snapshot st" and ?m = "metadata_for_snapshot (st_config st) l (raw_snapshot st)"
  note e = write_checkpoint_effect [OF assms(1,2) refl refl]
  have "read_decoded_checkpoint cf no_faults d2 p = Inr \<lparr>dc_metadata = ?m, dc_snapshot = ?cs\<rparr>"
    if en: "encode_checkpoint cf ?m ?cs = Inr bs" and d': "disk_files d' p = Some bs" "disk_synced d' p = length bs" for bs
  proof -
    have "list_all collection_ok ?cs" using en assms(3) by (intro named_fits_ok) (simp_all add: encode_checkpoint_iff)
    from decode_encoded [OF en this] crash_synced [OF assms(4) d' encoded_not_empty [OF en]] show ?thesis
      by (simp add: read_decoded_checkpoint_def no_faults_def)
  qed
  then show ?thesis using e by (cases "encode_checkpoint cf ?m ?cs") auto
qed

text \<open>C35. The newest checkpoint wins: among the files of the directory with the checkpoint extension,
  corrupt ones are passed over, and the one chosen has the largest sequence number of those that
  decode. None is chosen only when every one of them is corrupt.\<close>

theorem newest_checkpoint_chosen:
  assumes "choose_checkpoint cf fl d dir entries None = Inr best"
  shows "case best of
      None \<Rightarrow> (\<forall>p. Inr p \<in> set entries \<and> is_raw_checkpoint_file p \<longrightarrow>
        (\<exists>q k. read_decoded_checkpoint cf fl d p = Inl (CheckpointCorruption q k)))
    | Some (p, dc) \<Rightarrow> Inr p \<in> set entries \<and> is_raw_checkpoint_file p \<and> read_decoded_checkpoint cf fl d p = Inr dc
        \<and> (\<forall>q dc'. Inr q \<in> set entries \<and> is_raw_checkpoint_file q \<and> read_decoded_checkpoint cf fl d q = Inr dc' \<longrightarrow>
             ck_lsn (dc_metadata dc') \<le> ck_lsn (dc_metadata dc))"
proof (cases best)
  case None
  have "\<exists>q k. read_decoded_checkpoint cf fl d p = Inl (CheckpointCorruption q k)"
    if "Inr p \<in> set entries" "is_raw_checkpoint_file p" for p
    using choose_effect [OF assms] None that
    by (cases "read_decoded_checkpoint cf fl d p") (auto simp: at_most_def split: sum.splits)
  with None show ?thesis by simp
next
  case (Some pd)
  with choose_effect [OF assms] show ?thesis by (cases pd) (fastforce simp: at_most_def)
qed

text \<open>C2. Recovery composes: a store whose log is \<open>rs0\<close> is checkpointed with a sequence number that is
  not past that log, the log goes on with \<open>rs1\<close>, and the checkpoint is the one chosen. Then loading it
  and replaying the log after its sequence number either reports that a table or the store is too
  small, or gives a store that reads, for every key, as the last record of the whole log says.\<close>

theorem checkpoint_then_wal_recovers:
  assumes "store_inv cf rs0 n (st, d0)" and "choose_checkpoint cf no_faults d dir entries None = Inr (Some (p, dc))"
    and "dc_snapshot dc = raw_snapshot st" and "ck_lsn (dc_metadata dc) \<le> last_lsn_of 0 rs0"
    and "read_records cf (disk_files d wal) = Inr (rs0 @ rs1)" and "validate_store_config config = Inr ()"
  shows "case recover_raw_checkpoint_then_wal cf no_faults d dir (Some entries) wal config of
      Inl e \<Rightarrow> capacity_error e
    | Inr rec \<Rightarrow> store_ok (recovered_engine rec)
        \<and> recovered_checkpoint rec = Some \<lparr>src_path = p, src_metadata = dc_metadata dc\<rparr>
        \<and> (\<forall>coll \<in> fst ` set (st_collections st) \<union> w_collection ` set rs1. \<forall>key.
             get_raw (recovered_engine rec) coll key = Inr (read_of (map_option log_record (latest (rs0 @ rs1) (coll, key)))))"
proof -
  have ok: "store_ok st" using assms(1) by (simp add: store_inv_def)
  note sn = raw_snapshot_wf [OF ok]
  obtain fr where fr: "from_raw_snapshot config (raw_snapshot st) = fr" by blast
  note fe = from_raw_snapshot_effect [OF fr sn(1) assms(6)]
  show ?thesis
  proof (cases fr)
    case (Inl e)
    with fr fe assms(2,3) show ?thesis
      by (simp add: recover_raw_checkpoint_then_wal_def load_latest_raw_checkpoint_def no_faults_def)
  next
    case (Inr st1)
    let ?a = "ck_lsn (dc_metadata dc)"
    obtain res st2 where r: "replay_after cf no_faults wal d ?a st1 = (res, st2)" by fastforce
    have "store_ok st1" "st_schema_indexes st1 = []" using fe Inr by simp_all
    note re = replay_after_effect [OF r assms(5) this]
    have rec: "recover_raw_checkpoint_then_wal cf no_faults d dir (Some entries) wal config = (case res of
        Inl e \<Rightarrow> Inl e
      | Inr stats \<Rightarrow> Inr \<lparr>recovered_engine = st2, recovered_checkpoint = Some \<lparr>src_path = p, src_metadata = dc_metadata dc\<rparr>,
            recovered_wal = stats\<rparr>)"
      using fr Inr assms(2,3) r
      by (simp add: recover_raw_checkpoint_then_wal_def load_latest_raw_checkpoint_def no_faults_def split: sum.split)
    show ?thesis
    proof (cases res)
      case (Inl e)
      with rec re show ?thesis by simp
    next
      case (Inr stats)
      note re = re [unfolded Inr sum.case]
      have asc: "ascending 0 (rs0 @ rs1)"
        using assms(5) by (cases "disk_files d wal") (auto elim!: read_records_parts simp: valid_log_def)
      obtain j where j: "filter (\<lambda>r. ?a < w_lsn r) (rs0 @ rs1) = drop j rs0 @ rs1"
        using replayed_suffix [OF asc assms(4)] by blast
      have l1: "store_lookup st1 coll key = map_option log_record (latest rs0 (coll, key))" for coll key
      proof -
        have "map_option rc_lookup (map_of (st_collections st1) coll) = map_option rc_lookup (map_of (st_collections st) coll)"
          using fe \<open>fr = Inr st1\<close> sn(2) by simp
        then have "store_lookup st1 coll key = store_lookup st coll key"
          by (cases "map_of (st_collections st1) coll"; cases "map_of (st_collections st) coll") (auto simp: store_lookup_def)
        then show ?thesis using store_inv_lookup [OF assms(1)] by simp
      qed
      have l2: "store_lookup st2 coll key = map_option log_record (latest (rs0 @ rs1) (coll, key))" for coll key
        using re l1 latest_suffix [where j = j and ?rs0.0 = rs0 and ?rs1.0 = rs1 and k = "(coll, key)"] unfolding j by (auto split: option.splits)
      have "get_raw st2 coll key = Inr (read_of (map_option log_record (latest (rs0 @ rs1) (coll, key))))"
        if "coll \<in> fst ` set (st_collections st) \<union> w_collection ` set rs1" for coll key
      proof -
        have "coll \<in> fst ` set (st_collections st2)" using that re fe \<open>fr = Inr st1\<close> sn(3) unfolding j by auto
        then obtain rc where rc: "map_of (st_collections st2) coll = Some rc" by (metis map_of_eq_None_iff not_Some_eq)
        from get_raw_read [OF rc] l2 [of coll key] rc show ?thesis by (simp add: store_lookup_def)
      qed
      then show ?thesis unfolding rec Inr using re by simp
    qed
  qed
qed

text \<open>C36. A checkpoint with a bare file name, whose parent is the empty path, is never acknowledged: the
  call fails on every disk and fault, although without faults the file is in place afterwards.\<close>

theorem bare_checkpoint_name_fails:
  assumes "parent_path p = Some []" and "encode_checkpoint cf (metadata_for_snapshot (st_config st) l (raw_snapshot st)) (raw_snapshot st) = Inr bs"
    and "disk_files d (temp_path_for pid ts p) = None"
  shows "(\<exists>e. fst (write_raw_checkpoint cf fl pid ts p st l d) = Inl e)
    \<and> disk_files (snd (write_raw_checkpoint cf no_faults pid ts p st l d)) p = Some bs"
proof
  let ?tmp = "temp_path_for pid ts p"
  have sy: "sync_parent_dir fl p d1 = (Inl (checkpoint_io [] ''open checkpoint parent'' ''No such file or directory (os error 2)''), d1)" for fl d1
    using assms(1) by (simp add: sync_parent_dir_def raise_def then_op_def)
  obtain r d1 where i: "install_checkpoint fl ?tmp p bs d = (r, d1)" by fastforce
  have "\<exists>e. r = Inl e"
    using i unfolding install_checkpoint_def sy by (auto elim!: then_op_cases simp: sy)
  then show "\<exists>e. fst (write_raw_checkpoint cf fl pid ts p st l d) = Inl e"
    using assms(2) i by (auto simp: write_raw_checkpoint_def Let_def)
  have "install_checkpoint no_faults ?tmp p bs d =
      (Inl (checkpoint_io [] ''open checkpoint parent'' ''No such file or directory (os error 2)''),
       file_rename ?tmp p (file_sync ?tmp (file_append ?tmp bs (file_create ?tmp d))))"
    using assms(3) sy by (simp add: install_checkpoint_def create_new_def write_file_def ck_step_def no_faults_def then_op_def)
  then show "disk_files (snd (write_raw_checkpoint cf no_faults pid ts p st l d)) p = Some bs"
    using assms(2,3) temp_path_differs [of pid ts p]
    by (simp add: write_raw_checkpoint_def Let_def no_faults_def file_remove_def file_rename_def file_sync_def file_append_def
        file_create_def content_def)
qed

section \<open>Witnesses\<close>

definition sample_snapshot :: raw_store_snapshot where
  "sample_snapshot = [\<lparr>cs_name = ''c'', cs_records = []\<rparr>]"

lemma sample_raw_snapshot: "raw_snapshot sample_store = sample_snapshot"
proof -
  have "length (cm_visited (rc_records (rc_with_capacity 1))) = 0"
    using rc_ok_new [of 1] cmt.size_elems [of hash_bytes "rc_records (rc_with_capacity 1)"]
    by (simp add: rc_ok_def) (simp add: rc_with_capacity_def with_capacity_def with_capacity_and_batch_def Let_def)
  then show ?thesis by (simp add: raw_snapshot_def sample_store_def sample_snapshot_def rc_snapshot_records_def)
qed

abbreviation sample_meta :: "raw_checkpoint_metadata" where
  "sample_meta \<equiv> metadata_for_snapshot sample_config 0 sample_snapshot"

definition sample_checkpoint :: bytes where
  "sample_checkpoint = ck_head (ck_payload sample_meta sample_snapshot)
     @ le_bytes 4 (crc32c plain_crc (ck_head (ck_payload sample_meta sample_snapshot)))"

lemma sample_encodes: "encode_checkpoint plain_crc sample_meta sample_snapshot = Inr sample_checkpoint"
  by (simp add: encode_checkpoint_iff sample_checkpoint_def metadata_fields)
    (simp add: sample_snapshot_def sample_config_def collection_fits_def ck_payload_size collection_bytes_def
      max_checkpoint_payload_bytes_def max_checkpoint_field_bytes_def u32_max_def u64_max_def)

lemma sample_named: "\<forall>c \<in> set sample_snapshot. collection_named c"
  using sample_loggable [of 1] by (simp add: sample_snapshot_def collection_named_def loggable_def readable_def sample_record_def)

lemma sample_decodes:
  "decode_checkpoint plain_crc path sample_checkpoint = Inr \<lparr>dc_metadata = sample_meta, dc_snapshot = sample_snapshot\<rparr>"
proof (rule decode_encoded [OF sample_encodes])
  show "list_all collection_ok sample_snapshot"
    using sample_encodes sample_named by (intro named_fits_ok) (simp_all add: encode_checkpoint_iff)
qed

lemma sample_store_config: "st_config sample_store = sample_config"
  by (simp add: sample_store_def)

definition no_files :: disk where
  "no_files = \<lparr>disk_files = (\<lambda>_. None), disk_synced = (\<lambda>_. 0)\<rparr>"

theorem checkpoint_write_atomic_witness:
  "\<exists>d'. write_raw_checkpoint plain_crc no_faults 1 2 ''d/x.mfschkp'' sample_store 0 no_files = (Inr sample_meta, d')
     \<and> read_decoded_checkpoint plain_crc no_faults d' ''d/x.mfschkp'' = Inr \<lparr>dc_metadata = sample_meta, dc_snapshot = sample_snapshot\<rparr>"
proof -
  let ?p = "''d/x.mfschkp''" and ?tmp = "temp_path_for 1 2 ''d/x.mfschkp''"
  define d' where "d' = file_rename ?tmp ?p (file_sync ?tmp (file_append ?tmp sample_checkpoint (file_create ?tmp no_files)))"
  have "install_checkpoint no_faults ?tmp ?p sample_checkpoint no_files = (Inr (), d')"
    by (simp add: install_checkpoint_def create_new_def write_file_def ck_step_def no_faults_def then_op_def d'_def
        sync_parent_dir_def parent_path_def Let_def no_files_def)
  then have w: "write_raw_checkpoint plain_crc no_faults 1 2 ?p sample_store 0 no_files = (Inr sample_meta, d')"
    using sample_encodes by (simp add: write_raw_checkpoint_def sample_raw_snapshot sample_store_config Let_def)
  have "?tmp \<noteq> ?p" by (rule temp_path_differs)
  then have "disk_files d' = [?p \<mapsto> sample_checkpoint]" "disk_synced d' = (\<lambda>_. 0)(?p := length sample_checkpoint)"
    by (auto simp: d'_def no_files_def file_rename_def file_sync_def file_append_def file_create_def content_def fun_eq_iff)
  then have c: "crash d' d'" by (auto simp: crash_def content_def split: option.split intro!: exI [of _ "length sample_checkpoint"])
  have "disk_synced no_files ?tmp = 0" by (simp add: no_files_def)
  from checkpoint_write_atomic [OF w this _ c] w sample_named show ?thesis
    by (simp add: sample_raw_snapshot sample_store_config)
qed

definition checkpoint_disk :: disk where
  "checkpoint_disk = \<lparr>disk_files = [''d/x.mfschkp'' \<mapsto> sample_checkpoint, ''wal'' \<mapsto> log_bytes plain_crc [sample_record 1]],
     disk_synced = (\<lambda>_. 0)\<rparr>"

lemma sample_choice:
  "choose_checkpoint plain_crc no_faults checkpoint_disk ''d'' [Inr ''d/x.mfschkp''] None
     = Inr (Some (''d/x.mfschkp'', \<lparr>dc_metadata = sample_meta, dc_snapshot = sample_snapshot\<rparr>))"
  using sample_decodes
  by (simp add: is_raw_checkpoint_file_def path_extension_def file_name_def last_component_def raw_checkpoint_extension_def
      read_decoded_checkpoint_def no_faults_def checkpoint_disk_def better_def Let_def)

theorem newest_checkpoint_chosen_witness:
  "\<exists>p dc. choose_checkpoint plain_crc no_faults checkpoint_disk ''d'' [Inr ''d/x.mfschkp''] None = Inr (Some (p, dc))
     \<and> read_decoded_checkpoint plain_crc no_faults checkpoint_disk p = Inr dc"
  using newest_checkpoint_chosen [OF sample_choice] sample_choice by auto

theorem checkpoint_then_wal_recovers_witness:
  "case recover_raw_checkpoint_then_wal plain_crc no_faults checkpoint_disk ''d'' (Some [Inr ''d/x.mfschkp'']) ''wal'' sample_config of
      Inl e \<Rightarrow> capacity_error e
    | Inr rec \<Rightarrow> get_raw (recovered_engine rec) ''c'' [1] = Inr (Some \<lparr>rr_value = [2], rr_version = 1\<rparr>)"
proof -
  have r: "read_records plain_crc (disk_files checkpoint_disk ''wal'') = Inr ([] @ [sample_record 1])"
    using sample_loggable read_records_log [of "[sample_record 1]" plain_crc "[]"] by (simp add: checkpoint_disk_def valid_log_def sample_record_def)
  have v: "validate_store_config sample_config = Inr ()" by (simp add: validate_store_config_def sample_config_def)
  from checkpoint_then_wal_recovers [OF sample_store_inv sample_choice _ _ r v] show ?thesis
    by (simp add: sample_raw_snapshot metadata_fields split: sum.splits)
      (auto simp: sample_record_def latest_def log_record_def read_of_def record_id_def)
qed

theorem bare_checkpoint_name_fails_witness:
  "(\<exists>e. fst (write_raw_checkpoint plain_crc no_faults 1 2 ''x.mfschkp'' sample_store 0 no_files) = Inl e)
     \<and> disk_files (snd (write_raw_checkpoint plain_crc no_faults 1 2 ''x.mfschkp'' sample_store 0 no_files)) ''x.mfschkp'' = Some sample_checkpoint"
proof -
  have "parent_path ''x.mfschkp'' = Some []" by (simp add: parent_path_def Let_def)
  moreover have "encode_checkpoint plain_crc (metadata_for_snapshot (st_config sample_store) 0 (raw_snapshot sample_store))
      (raw_snapshot sample_store) = Inr sample_checkpoint"
    using sample_encodes by (simp add: sample_raw_snapshot sample_store_config)
  moreover have "disk_files no_files (temp_path_for 1 2 ''x.mfschkp'') = None" by (simp add: no_files_def)
  ultimately show ?thesis by (rule bare_checkpoint_name_fails)
qed

end
