(* ===== verification/Schema_Mode.thy ===== *)
theory Schema_Mode
  imports Raw_Store
begin

text \<open>
  Documents of a schema collection (\<open>store/schema_mode.rs\<close>), lookups and rebuilds of its indexes
  (\<open>store/index.rs\<close>) and reads along references (\<open>store/reference.rs\<close>). Every operation first makes
  sure that the indexes of the schema are registered, so reads may change the state too. The lock of
  the indexes makes each operation one step; only \<open>update_schema\<close> is a read and a write with the
  lock released in between, and takes what other threads do there as an argument.
\<close>

record schema_read_result =
  sr_document :: schema_value
  sr_version :: document_version

record schema_lookup_result =
  lr_primary_key :: raw_key
  lr_document :: schema_value
  lr_version :: document_version

record schema_forward_reference_include =
  fi_document :: schema_read_result
  fi_reference_key :: "raw_key option"
  fi_referenced :: "schema_read_result option"

record schema_reverse_reference_include =
  vi_primary_key :: raw_key
  vi_document :: schema_read_result

section \<open>Collections and documents\<close>

definition create_schema_collection :: "schema \<Rightarrow> (mfs_store, collection_id) op" where
  "create_schema_collection s st =
     (case and_then (validate_schema s) (\<lambda>_. new_indexes s) of
        Inl e \<Rightarrow> (Inl e, st)
      | Inr ix \<Rightarrow>
          then_op (create_raw_collection (s_name s)) (\<lambda>cid.
          then_op (install_schema_indexes s ix) (\<lambda>_. ret cid)) st)"

text \<open>
  What \<open>encode_schema_value\<close> writes for a document. Its panic cannot be reached from here: every
  document it is given has passed \<open>validate_document\<close>.
\<close>

definition encoded :: "schema_value \<Rightarrow> raw_value" where
  "encoded doc = encode_schema_value_unchecked doc"

definition old_document :: "schema \<Rightarrow> raw_value option \<Rightarrow> schema_value option store_result" where
  "old_document s old_raw = (case old_raw of
     Some raw \<Rightarrow> and_then (decode_schema_raw_value s raw) (\<lambda>doc. Inr (Some doc))
   | None \<Rightarrow> Inr None)"

text \<open>The write that both operations share: the plan is applied once the record is stored.\<close>

definition planned_write ::
    "crc_functions \<Rightarrow> io_faults \<Rightarrow> schema \<Rightarrow> schema_collection_indexes \<Rightarrow> raw_key \<Rightarrow> raw_value option \<Rightarrow> write_options \<Rightarrow>
     (schema_value option \<Rightarrow> schema_index_write_plan store_result) \<Rightarrow> (engine, write_result) op" where
  "planned_write cf fl s ix key v opts prepare =
     then_op (write_with_hooks cf fl (s_name s) key v opts (\<lambda>old_raw _. and_then (old_document s old_raw) prepare))
       (\<lambda>(r, plan) (st, d). (Inr r, (set_schema_indexes (s_name s) (apply_write key plan ix) st, d)))"

definition put_schema ::
    "crc_functions \<Rightarrow> io_faults \<Rightarrow> schema \<Rightarrow> schema_value \<Rightarrow> write_options \<Rightarrow> (engine, write_result) op" where
  "put_schema cf fl s doc opts = (\<lambda>(st, d).
     case and_then (schema_document_raw_key s doc) (\<lambda>key.
         and_then (map_err (schema_document_error s) (validate_document s doc)) (\<lambda>_. Inr key)) of
       Inl e \<Rightarrow> (Inl e, (st, d))
     | Inr key \<Rightarrow>
         (case ensure_schema_indexes s st of
            (Inl e, st) \<Rightarrow> (Inl e, (st, d))
          | (Inr ix, st) \<Rightarrow>
              planned_write cf fl s ix key (Some (encoded doc)) opts
                (\<lambda>old. prepare_put st ix key old doc) (st, d)))"

definition delete_schema ::
    "crc_functions \<Rightarrow> io_faults \<Rightarrow> schema \<Rightarrow> schema_value \<Rightarrow> write_options \<Rightarrow> (engine, write_result) op" where
  "delete_schema cf fl s pk opts = (\<lambda>(st, d).
     case schema_primary_key_raw_key s pk of
       Inl e \<Rightarrow> (Inl e, (st, d))
     | Inr key \<Rightarrow>
         (case ensure_schema_indexes s st of
            (Inl e, st) \<Rightarrow> (Inl e, (st, d))
          | (Inr ix, st) \<Rightarrow>
              planned_write cf fl s ix key None opts (\<lambda>old. prepare_delete st ix old) (st, d)))"

definition get_schema_by_raw_key :: "mfs_store \<Rightarrow> schema \<Rightarrow> raw_key \<Rightarrow> schema_read_result option store_result" where
  "get_schema_by_raw_key st s key =
     and_then (get_raw st (s_name s) key) (\<lambda>found. case found of
       None \<Rightarrow> Inr None
     | Some raw \<Rightarrow>
         and_then (decode_schema_raw_value s (rr_value raw)) (\<lambda>doc.
           Inr (Some \<lparr>sr_document = doc, sr_version = rr_version raw\<rparr>)))"

definition get_schema :: "schema \<Rightarrow> schema_value \<Rightarrow> (mfs_store, schema_read_result option) op" where
  "get_schema s pk st = (case schema_primary_key_raw_key s pk of
     Inl e \<Rightarrow> (Inl e, st)
   | Inr key \<Rightarrow>
       (case ensure_schema_indexes s st of
          (Inl e, st) \<Rightarrow> (Inl e, st)
        | (Inr _, st) \<Rightarrow> (get_schema_by_raw_key st s key, st)))"

fun multi_get_from :: "schema \<Rightarrow> raw_key list \<Rightarrow> schema_value list \<Rightarrow> (mfs_store, schema_read_result list) op" where
  "multi_get_from s seen [] = ret []"
| "multi_get_from s seen (k # ks) = (case schema_primary_key_raw_key s k of
     Inl e \<Rightarrow> raise e
   | Inr key \<Rightarrow>
       if key \<in> set seen then multi_get_from s seen ks
       else then_op (get_schema s k) (\<lambda>found.
         then_op (multi_get_from s (key # seen) ks) (\<lambda>rest.
           ret (case found of Some doc \<Rightarrow> doc # rest | None \<Rightarrow> rest))))"

definition multi_get_schema :: "schema \<Rightarrow> schema_value list \<Rightarrow> (mfs_store, schema_read_result list) op" where
  "multi_get_schema s ks = multi_get_from s [] ks"

definition count_schema :: "mfs_store \<Rightarrow> schema \<Rightarrow> u64 store_result" where
  "count_schema st s = collection_count st (s_name s)"

section \<open>Partial updates\<close>

fun kind_text :: "schema_value_kind \<Rightarrow> string" where
  "kind_text K_Null = ''null''"
| "kind_text K_String = ''string''"
| "kind_text K_Int32 = ''int32''"
| "kind_text K_Int64 = ''int64''"
| "kind_text K_Float = ''float''"
| "kind_text K_Bool = ''bool''"
| "kind_text K_Object = ''object''"
| "kind_text K_Array = ''array''"
| "kind_text K_Json = ''json''"
| "kind_text K_Bytes = ''bytes''"

text \<open>
  The messages of the errors an increment can report; the others, which it cannot, have no text here.
\<close>

fun increment_error_text :: "schema_value_error \<Rightarrow> string" where
  "increment_error_text (RootMustBeObject actual) = ''schema document root must be object, got '' @ kind_text actual"
| "increment_error_text (FieldPathNotObject path segment actual) =
     ''field path `'' @ path @ ''`: segment `'' @ segment @ ''` is '' @ kind_text actual @ '', not an object''"
| "increment_error_text (NotIncrementable path actual) =
     ''field `'' @ path @ ''` is '' @ kind_text actual @ '' which is not incrementable''"
| "increment_error_text (SV_NumericOverflow path) = ''numeric overflow on field `'' @ path @ ''`''"
| "increment_error_text _ = []"

definition map_increment_error :: "string \<Rightarrow> schema_value_error \<Rightarrow> store_error" where
  "map_increment_error fld err =
     (let msg = increment_error_text err in
      if contains_str ''overflow'' msg \<or> contains_str ''NumericOverflow'' msg then NumericOverflow fld
      else if contains_str ''incrementable'' msg \<or> contains_str ''NotIncrementable'' msg then
        (case err of
           NotIncrementable _ actual \<Rightarrow> UpdateTypeMismatch fld ''numeric'' actual
         | _ \<Rightarrow> UpdateTypeMismatch fld ''numeric'' K_Null)
      else InvalidUpdatePath fld ''invalid for increment'')"

fun apply_update :: "string \<Rightarrow> field_update \<Rightarrow> schema_value \<Rightarrow> schema_value store_result" where
  "apply_update primary (FU_Set fld v) doc =
     (if fld = primary then Inl PrimaryKeyUpdateForbidden
      else case set_field fld v doc of
        (Inl _, _) \<Rightarrow> Inl (InvalidUpdatePath fld ''path traverses non-object or is otherwise invalid'')
      | (Inr _, doc) \<Rightarrow> Inr doc)"
| "apply_update primary (FU_Unset fld) doc =
     (if fld = primary then Inl PrimaryKeyUpdateForbidden else Inr (snd (unset_field fld doc)))"
| "apply_update primary (FU_Increment fld delta) doc =
     (if fld = primary then Inl PrimaryKeyUpdateForbidden
      else case apply_increment fld delta doc of
        (Inl e, _) \<Rightarrow> Inl (map_increment_error fld e)
      | (Inr _, doc) \<Rightarrow> Inr doc)"

definition mutate_document :: "schema \<Rightarrow> field_update list \<Rightarrow> schema_value \<Rightarrow> schema_value store_result" where
  "mutate_document s updates doc =
     and_then (map_err (SchemaDecode (s_name s)) (decode_schema_value (encoded doc))) (\<lambda>mutated.
     and_then (primary_field s) (\<lambda>primary.
     and_then (try_fold (apply_update (f_name primary)) updates mutated) (\<lambda>mutated.
     and_then (map_err (SchemaDocument (s_name s)) (validate_document s mutated)) (\<lambda>_. Inr mutated))))"

definition max_retries :: nat where
  "max_retries = 3"

text \<open>\<open>others n\<close> is what other threads do between the read and the write of attempt \<open>n\<close>.\<close>

function update_loop ::
    "crc_functions \<Rightarrow> io_faults \<Rightarrow> schema \<Rightarrow> schema_value \<Rightarrow> field_update list \<Rightarrow> write_options \<Rightarrow> (nat \<Rightarrow> engine \<Rightarrow> engine) \<Rightarrow>
     nat \<Rightarrow> (engine, write_result) op" where
  "update_loop cf fl s pk updates opts others retries (st, d) = (case get_schema s pk st of
     (Inl e, st) \<Rightarrow> (Inl e, (st, d))
   | (Inr None, st) \<Rightarrow> (Inl (DocumentNotFound (s_name s)), (st, d))
   | (Inr (Some current), st) \<Rightarrow>
       (case mutate_document s updates (sr_document current) of
          Inl e \<Rightarrow> (Inl e, (st, d))
        | Inr mutated \<Rightarrow>
            (case put_schema cf fl s mutated (opts\<lparr>expected_version := Some (sr_version current)\<rparr>) (others retries (st, d)) of
               (Inr r, e) \<Rightarrow> (Inr r, e)
             | (Inl (Conflict _ _ _ _), e) \<Rightarrow>
                 if retries + 1 \<ge> max_retries then
                   (and_then (schema_primary_key_raw_key s pk) (\<lambda>key.
                      Inl (Conflict (s_name s) key (sr_version current) 0)), e)
                 else update_loop cf fl s pk updates opts others (retries + 1) e
             | (Inl err, e) \<Rightarrow> (Inl err, e))))"
  by pat_completeness auto
termination
  by (relation "measure (\<lambda>(_, _, _, _, _, _, _, retries, _). max_retries - retries)") auto

declare update_loop.simps [simp del]

definition update_schema ::
    "crc_functions \<Rightarrow> io_faults \<Rightarrow> schema \<Rightarrow> schema_value \<Rightarrow> field_update list \<Rightarrow> write_options \<Rightarrow> (nat \<Rightarrow> engine \<Rightarrow> engine) \<Rightarrow>
     (engine, write_result) op" where
  "update_schema cf fl s pk updates opts others = update_loop cf fl s pk updates opts others 0"

section \<open>Lookups and rebuilds\<close>

fun lookup_from ::
    "mfs_store \<Rightarrow> schema \<Rightarrow> schema_collection_indexes \<Rightarrow> indexed_field \<Rightarrow> schema_exact_index_key \<Rightarrow> raw_key list \<Rightarrow>
     schema_lookup_result list store_result" where
  "lookup_from st s ix f query [] = Inr []"
| "lookup_from st s ix f query (key # keys) =
     and_then (get_schema_by_raw_key st s key) (\<lambda>found. case found of
       None \<Rightarrow> lookup_from st s ix f query keys
     | Some r \<Rightarrow>
         and_then (and_then (document_matches_index ix f query (sr_document r)) (\<lambda>matches.
             if matches then and_then (schema_document_raw_key s (sr_document r)) (\<lambda>k. Inr (k = key))
             else Inr False)) (\<lambda>matches.
         and_then (lookup_from st s ix f query keys) (\<lambda>rest.
           Inr (if matches
             then \<lparr>lr_primary_key = key, lr_document = sr_document r, lr_version = sr_version r\<rparr> # rest
             else rest))))"

definition lookup_schema :: "schema \<Rightarrow> string \<Rightarrow> schema_value \<Rightarrow> (mfs_store, schema_lookup_result list) op" where
  "lookup_schema s fld v st = (case ensure_schema_indexes s st of
     (Inl e, st) \<Rightarrow> (Inl e, st)
   | (Inr ix, st) \<Rightarrow>
       (and_then (lookup_keys ix fld v) (\<lambda>(i, query, keys).
          and_then (lookup_from st s ix (sci_indexed_fields ix ! i) query keys) (\<lambda>out.
            Inr (sort_key lr_primary_key out))), st))"

fun live_documents :: "schema \<Rightarrow> raw_snapshot_record list \<Rightarrow> (raw_key \<times> schema_value) list store_result" where
  "live_documents s [] = Inr []"
| "live_documents s (r # rs) = (case sn_value r of
     None \<Rightarrow> live_documents s rs
   | Some v \<Rightarrow>
       and_then (decode_schema_raw_value s v) (\<lambda>doc.
       and_then (schema_document_raw_key s doc) (\<lambda>key.
       and_then (live_documents s rs) (\<lambda>docs.
         Inr (if key = sn_key r then (key, doc) # docs else docs)))))"

text \<open>
  The snapshot is read and the new maps are built before the lock of the indexes is taken; \<open>others\<close> is
  what other threads do in between. The maps then replace whatever the indexes hold.
\<close>

definition rebuild_schema_indexes :: "schema \<Rightarrow> (engine \<Rightarrow> engine) \<Rightarrow> (engine, nat) op" where
  "rebuild_schema_indexes s others = (\<lambda>(st, d). case ensure_schema_indexes s st of
     (Inl e, st) \<Rightarrow> (Inl e, (st, d))
   | (Inr ix, st) \<Rightarrow>
       (case and_then (ok_or (CollectionNotFound (s_name s))
           (find (\<lambda>c. cs_name c = s_name s) (raw_snapshot st))) (\<lambda>c.
         and_then (live_documents s (cs_records c)) (\<lambda>docs.
         and_then (rebuild_from_documents st ix docs) (\<lambda>ix. Inr (length docs, ix)))) of
          Inl e \<Rightarrow> (Inl e, (st, d))
        | Inr (n, ix) \<Rightarrow>
            (case others (st, d) of (st, d) \<Rightarrow> (Inr n, (set_schema_indexes (s_name s) ix st, d)))))"

section \<open>References\<close>

definition include_schema_reference ::
    "schema \<Rightarrow> schema_value \<Rightarrow> string \<Rightarrow> (mfs_store, schema_forward_reference_include option) op" where
  "include_schema_reference s pk fld =
     then_op (ensure_schema_indexes s) (\<lambda>ix st.
       case and_then (schema_primary_key_raw_key s pk) (get_schema_by_raw_key st s) of
         Inl e \<Rightarrow> (Inl e, st)
       | Inr None \<Rightarrow> (Inr None, st)
       | Inr (Some document) \<Rightarrow>
           (case reference_key_from_document st ix fld (sr_document document) of
              Inl e \<Rightarrow> (Inl e, st)
            | Inr None \<Rightarrow> (Inr (Some \<lparr>fi_document = document, fi_reference_key = None, fi_referenced = None\<rparr>), st)
            | Inr (Some target_key) \<Rightarrow>
                (case reference_target_schema st ix fld of
                   Inl e \<Rightarrow> (Inl e, st)
                 | Inr target \<Rightarrow>
                     then_op (if s_name target = s_name s then ret () else then_op (ensure_schema_indexes target) (\<lambda>_. ret ()))
                       (\<lambda>_ st. (and_then (get_schema_by_raw_key st target target_key) (\<lambda>referenced.
                          Inr (Some \<lparr>fi_document = document, fi_reference_key = Some target_key, fi_referenced = referenced\<rparr>)), st)) st)))"

fun reverse_from ::
    "mfs_store \<Rightarrow> schema \<Rightarrow> schema_collection_indexes \<Rightarrow> string \<Rightarrow> raw_key \<Rightarrow> raw_key list \<Rightarrow>
     schema_reverse_reference_include list store_result" where
  "reverse_from st source ix fld target_key [] = Inr []"
| "reverse_from st source ix fld target_key (key # keys) =
     and_then (get_schema_by_raw_key st source key) (\<lambda>found. case found of
       None \<Rightarrow> reverse_from st source ix fld target_key keys
     | Some r \<Rightarrow>
         and_then (reference_key_from_document st ix fld (sr_document r)) (\<lambda>referenced.
         and_then (reverse_from st source ix fld target_key keys) (\<lambda>rest.
           Inr (if referenced = Some target_key then \<lparr>vi_primary_key = key, vi_document = r\<rparr> # rest else rest))))"

definition include_schema_reverse ::
    "schema \<Rightarrow> schema_value \<Rightarrow> schema \<Rightarrow> string \<Rightarrow> (mfs_store, schema_reverse_reference_include list) op" where
  "include_schema_reverse target pk source fld =
     then_op (ensure_schema_indexes target) (\<lambda>target_ix.
       if sci_schema target_ix \<noteq> target then raise (SchemaDeclarationMismatch (s_name target))
       else then_op (ensure_schema_indexes source) (\<lambda>ix st.
         (and_then (ensure_reference_targets ix fld target) (\<lambda>_.
          and_then (schema_primary_key_raw_key target pk) (\<lambda>target_key.
          and_then (reverse_reference_keys ix fld target_key) (\<lambda>keys.
          and_then (reverse_from st source ix fld target_key keys) (\<lambda>out.
            Inr (sort_key vi_primary_key out))))), st)))"

end
