(* ===== verification/Posting_Lists.thy ===== *)
theory Posting_Lists
  imports Schema_Mode
begin

text \<open>
  Posting lists: for every field a map from a term to the keys of the documents that have it. The
  exact indexes of a collection and its reverse references are both of this form. The lemmas show
  that dropping the terms of the old document of a key and adding those of the new one keeps the
  lists equal to what a scan of the documents gives.
\<close>

definition keys_in :: "('k, raw_key list) hmap \<Rightarrow> 'k \<Rightarrow> raw_key list" where
  "keys_in m k = (case map_of m k of None \<Rightarrow> [] | Some keys \<Rightarrow> keys)"

definition keys_at :: "('k, raw_key list) hmap list \<Rightarrow> nat \<Rightarrow> 'k \<Rightarrow> raw_key list" where
  "keys_at ms i k = keys_in (ms ! i) k"

definition drop_at :: "raw_key \<Rightarrow> nat \<times> 'k \<Rightarrow> ('k, raw_key list) hmap list \<Rightarrow> ('k, raw_key list) hmap list" where
  "drop_at pk e ms = ms[fst e := drop_key (snd e) pk (ms ! fst e)]"

definition add_at :: "raw_key \<Rightarrow> nat \<times> 'k \<Rightarrow> ('k, raw_key list) hmap list \<Rightarrow> ('k, raw_key list) hmap list" where
  "add_at pk e ms = ms[fst e := add_key (snd e) pk (ms ! fst e)]"

text \<open>The terms of a document, by field, and the posting lists of a collection of documents.\<close>

definition holders :: "(nat \<Rightarrow> 'd \<Rightarrow> 'k option) \<Rightarrow> (raw_key \<rightharpoonup> 'd) \<Rightarrow> nat \<Rightarrow> 'k \<Rightarrow> raw_key set" where
  "holders terms docs i k = {pk. \<exists>doc. docs pk = Some doc \<and> terms i doc = Some k}"

definition postings_ok :: "nat \<Rightarrow> (nat \<Rightarrow> 'd \<Rightarrow> 'k option) \<Rightarrow> (raw_key \<rightharpoonup> 'd) \<Rightarrow> ('k, raw_key list) hmap list \<Rightarrow> bool" where
  "postings_ok n terms docs ms \<longleftrightarrow> length ms = n
     \<and> (\<forall>i < n. \<forall>k. distinct (keys_at ms i k) \<and> set (keys_at ms i k) = holders terms docs i k)"

definition entries_of :: "nat \<Rightarrow> (nat \<Rightarrow> 'd \<Rightarrow> 'k option) \<Rightarrow> 'd option \<Rightarrow> (nat \<times> 'k) set" where
  "entries_of n terms doc = {(i, k). i < n \<and> Option.bind doc (terms i) = Some k}"

lemma keys_in_drop_key: "keys_in (drop_key k' pk m) k = (if k = k' then filter (\<lambda>x. x \<noteq> pk) (keys_in m k) else keys_in m k)"
  by (auto simp: keys_in_def drop_key_def Let_def split: option.splits)

lemma keys_in_add_key:
  "keys_in (add_key k' pk m) k = (if k = k' \<and> pk \<notin> set (keys_in m k) then keys_in m k @ [pk] else keys_in m k)"
  by (auto simp: keys_in_def add_key_def Let_def split: option.splits)

lemma keys_at_drop:
  assumes "i < length ms"
  shows "keys_at (drop_at pk e ms) i k = (if e = (i, k) then filter (\<lambda>x. x \<noteq> pk) (keys_at ms i k) else keys_at ms i k)"
  using assms by (cases e; cases "fst e = i") (auto simp: drop_at_def keys_at_def keys_in_drop_key)

lemma keys_at_add:
  assumes "i < length ms"
  shows "keys_at (add_at pk e ms) i k =
    (if e = (i, k) \<and> pk \<notin> set (keys_at ms i k) then keys_at ms i k @ [pk] else keys_at ms i k)"
  using assms by (cases e; cases "fst e = i") (auto simp: add_at_def keys_at_def keys_in_add_key)

lemma length_posting_updates [simp]:
  "length (drop_at pk e ms) = length ms" "length (add_at pk e ms) = length ms"
  by (simp_all add: drop_at_def add_at_def)

lemma length_posting_folds [simp]:
  "length (fold (drop_at pk) es ms) = length ms" "length (fold (add_at pk) es ms) = length ms"
  by (induction es arbitrary: ms) simp_all

lemma keys_at_drops:
  "i < length ms \<Longrightarrow> keys_at (fold (drop_at pk) es ms) i k =
     (if (i, k) \<in> set es then filter (\<lambda>x. x \<noteq> pk) (keys_at ms i k) else keys_at ms i k)"
  by (induction es arbitrary: ms) (auto simp: keys_at_drop)

lemma keys_at_adds:
  "i < length ms \<Longrightarrow> keys_at (fold (add_at pk) es ms) i k =
     (if (i, k) \<in> set es \<and> pk \<notin> set (keys_at ms i k) then keys_at ms i k @ [pk] else keys_at ms i k)"
  by (induction es arbitrary: ms) (auto simp: keys_at_add)

theorem postings_write:
  assumes "postings_ok n terms docs ms"
    and "set olds = entries_of n terms (docs pk)" and "set news = entries_of n terms new"
  shows "postings_ok n terms (docs(pk := new)) (fold (add_at pk) news (fold (drop_at pk) olds ms))"
proof -
  let ?ds = "fold (drop_at pk) olds ms"
  have len: "length ms = n" using assms(1) by (simp add: postings_ok_def)
  have "distinct (keys_at (fold (add_at pk) news ?ds) i k)
      \<and> set (keys_at (fold (add_at pk) news ?ds) i k) = holders terms (docs(pk := new)) i k" if i: "i < n" for i k
  proof -
    have ms: "distinct (keys_at ms i k)" "set (keys_at ms i k) = holders terms docs i k"
      using assms(1) i by (simp_all add: postings_ok_def)
    have out: "pk \<in> holders terms docs i k \<longleftrightarrow> (i, k) \<in> set olds"
      using i by (auto simp: assms(2) entries_of_def holders_def bind_eq_Some_conv)
    have ds: "distinct (keys_at ?ds i k)" "set (keys_at ?ds i k) = holders terms docs i k - {pk}"
      using ms out i len by (auto simp: keys_at_drops)
    have "holders terms (docs(pk := new)) i k = (holders terms docs i k - {pk}) \<union> (if (i, k) \<in> set news then {pk} else {})"
      using i by (auto simp: assms(3) entries_of_def holders_def bind_eq_Some_conv)
    with ds i len show ?thesis by (auto simp: keys_at_adds)
  qed
  then show ?thesis by (simp add: postings_ok_def len)
qed

lemma postings_none: "postings_ok n terms Map.empty (replicate n [])"
  by (simp add: postings_ok_def holders_def keys_at_def keys_in_def)

text \<open>A write that changes no document, seen through equal terms, changes nothing.\<close>

lemma postings_cong:
  assumes "postings_ok n terms docs ms"
    and "\<And>pk doc i. docs pk = Some doc \<Longrightarrow> i < n \<Longrightarrow> terms' i doc = terms i doc"
  shows "postings_ok n terms' docs ms"
proof -
  have "holders terms' docs i k = holders terms docs i k" if "i < n" for i k
    using assms(2) that by (auto simp: holders_def)
  then show ?thesis using assms(1) by (simp add: postings_ok_def)
qed

text \<open>Forward maps: from the key of a document to its one term of the field.\<close>

definition forward_ok :: "nat \<Rightarrow> (nat \<Rightarrow> 'd \<Rightarrow> 'k option) \<Rightarrow> (raw_key \<rightharpoonup> 'd) \<Rightarrow> (raw_key, 'k) hmap list \<Rightarrow> bool" where
  "forward_ok n terms docs fs \<longleftrightarrow> length fs = n \<and> (\<forall>i < n. \<forall>pk. map_of (fs ! i) pk = Option.bind (docs pk) (terms i))"

definition remove_at :: "raw_key \<Rightarrow> nat \<times> 'k \<Rightarrow> (raw_key, 'k) hmap list \<Rightarrow> (raw_key, 'k) hmap list" where
  "remove_at pk e fs = fs[fst e := hm_remove pk (fs ! fst e)]"

definition insert_at :: "raw_key \<Rightarrow> nat \<times> 'k \<Rightarrow> (raw_key, 'k) hmap list \<Rightarrow> (raw_key, 'k) hmap list" where
  "insert_at pk e fs = fs[fst e := hm_insert pk (snd e) (fs ! fst e)]"

lemma length_forward_folds [simp]:
  "length (fold (remove_at pk) es fs) = length fs" "length (fold (insert_at pk) es fs) = length fs"
  by (induction es arbitrary: fs) (simp_all add: remove_at_def insert_at_def)

lemma map_of_removes:
  "i < length fs \<Longrightarrow> map_of (fold (remove_at pk) es fs ! i) q =
     (if q = pk \<and> i \<in> fst ` set es then None else map_of (fs ! i) q)"
  by (induction es arbitrary: fs) (auto simp: remove_at_def nth_update_if)

lemma map_of_inserts:
  "i < length fs \<Longrightarrow> map_of (fold (insert_at pk) es fs ! i) q =
     (if q = pk \<and> map_of (rev es) i \<noteq> None then map_of (rev es) i else map_of (fs ! i) q)"
proof (induction es arbitrary: fs)
  case (Cons e es)
  then show ?case
    using Cons.IH [of "insert_at pk e fs"] by (cases e) (auto simp: insert_at_def nth_update_if map_add_def split: option.splits)
qed simp

theorem forward_write:
  assumes "forward_ok n terms docs fs"
    and "set olds = entries_of n terms (docs pk)" and "set news = entries_of n terms new"
  shows "forward_ok n terms (docs(pk := new)) (fold (insert_at pk) news (fold (remove_at pk) olds fs))"
proof -
  let ?ds = "fold (remove_at pk) olds fs"
  have len: "length fs = n" using assms(1) by (simp add: forward_ok_def)
  have "map_of (fold (insert_at pk) news ?ds ! i) q = Option.bind ((docs(pk := new)) q) (terms i)" if i: "i < n" for i q
  proof -
    have fs: "map_of (fs ! i) q = Option.bind (docs q) (terms i)" using assms(1) i by (simp add: forward_ok_def)
    have olds: "i \<in> fst ` set olds \<longleftrightarrow> Option.bind (docs pk) (terms i) \<noteq> None"
      using i by (force simp: assms(2) entries_of_def)
    then have ds: "map_of (?ds ! i) q = (if q = pk then None else Option.bind (docs q) (terms i))"
      using fs i len by (auto simp: map_of_removes)
    show ?thesis
    proof (cases "Option.bind new (terms i)")
      case None
      then have "map_of (rev news) i = None" by (auto simp: assms(3) entries_of_def map_of_eq_None_iff)
      with ds None i len show ?thesis by (simp add: map_of_inserts)
    next
      case (Some k)
      then have "(i, k) \<in> set news" using i by (simp add: assms(3) entries_of_def)
      then obtain k' where k': "map_of (rev news) i = Some k'"
        by (cases "map_of (rev news) i") (auto simp: map_of_eq_None_iff intro: rev_image_eqI)
      then have "(i, k') \<in> set news" using map_of_SomeD by fastforce
      then have "k' = k" using Some by (simp add: assms(3) entries_of_def)
      with ds Some k' i len show ?thesis by (simp add: map_of_inserts)
    qed
  qed
  then show ?thesis by (simp add: forward_ok_def len)
qed

lemma forward_none: "forward_ok n terms Map.empty (replicate n [])"
  by (simp add: forward_ok_def)

lemma forward_cong:
  assumes "forward_ok n terms docs fs"
    and "\<And>pk doc i. docs pk = Some doc \<Longrightarrow> i < n \<Longrightarrow> terms' i doc = terms i doc"
  shows "forward_ok n terms' docs fs"
proof -
  have "Option.bind (docs pk) (terms' i) = Option.bind (docs pk) (terms i)" if "i < n" for i pk
    using assms(2) that by (cases "docs pk") simp_all
  then show ?thesis using assms(1) by (simp add: forward_ok_def)
qed

end
