(* ===== verification/Schema_Store.thy ===== *)
theory Schema_Store
  imports Posting_Lists Schema_Document Store_Log
begin

text \<open>
  What schema collections promise: documents that pass validation have keys, the indexes and the
  reference maps of a collection agree with its documents across all operations, a lookup is a
  scan, and partial updates do not lose writes.
\<close>

section \<open>Keys of valid documents\<close>

lemma validate_schema_iff [simp]: "validate_schema s = Inr () \<longleftrightarrow> wf_schema s"
  by (simp add: validate_schema_def validate_accepts_iff map_err_Inr_iff)

lemma validate_schema_wf [simp]: "wf_schema s \<Longrightarrow> validate_schema s = Inr ()"
  by simp

lemma primary_value_total:
  assumes "conforms (f_type p) v" and "is_reference_compatible (f_type p)"
  shows "\<exists>k. primary_value_raw_key s p v = Inr k"
  using assms
  by (cases "f_type p"; cases v) (auto simp: primary_value_raw_key_def i32_try_from_def)

lemma index_key_total:
  assumes "conforms ty v" and "is_exact_index_type ty"
  shows "\<exists>k. index_key_from_value coll fld ty v = Inr k"
  using assms
  by (cases ty; cases v) (auto simp: index_key_from_value_def is_exact_index_type_def i32_try_from_def)

lemma valid_document_field:
  assumes "validate_document s doc = Inr ()" and "f \<in> set (s_fields s)" and "field doc (f_name f) = Some v" and "v \<noteq> SV_Null"
  shows "conforms (f_type f) v"
proof -
  from assms obtain obj where "doc = SV_Object obj" "conforms_field f obj" by (auto simp: validate_document_accepts)
  with assms(3,4) show ?thesis by (cases f) (auto simp: field_def)
qed

lemma valid_document_wf: "validate_document s doc = Inr () \<Longrightarrow> wf_schema s"
  by (simp add: validate_document_accepts)

lemma valid_document_key:
  assumes "validate_document s doc = Inr ()"
  shows "\<exists>key. schema_document_raw_key s doc = Inr key"
proof -
  from assms obtain obj where obj: "doc = SV_Object obj" "wf_schema s" "\<forall>f \<in> set (s_fields s). conforms_field f obj"
    by (auto simp: validate_document_accepts)
  from obj(2) obtain p where p: "primary_field_of s = Some p" "p \<in> set (s_fields s)" "wf_primary p"
    by (rule wf_schema_primary)
  from obj(3) p(2) have c: "conforms_field p obj" by blast
  from c p(3) obtain v where v: "resolve_path obj (f_name p) = Some v" "v \<noteq> SV_Null"
    by (cases p) (auto simp: wf_primary_def split: option.splits if_splits)
  from c v have "conforms (f_type p) v" by (cases p) auto
  then obtain k where "primary_value_raw_key s p v = Inr k"
    using primary_value_total [of p v s] p(3) by (auto simp: wf_primary_def)
  then show ?thesis using obj v p(1)
    by (simp add: schema_document_raw_key_def ensure_document_root_def primary_field_def field_def)
qed

lemma index_entries_total:
  assumes "\<And>f v. f \<in> set fs \<Longrightarrow> field doc (ix_name f) = Some v \<Longrightarrow> v \<noteq> SV_Null \<Longrightarrow>
    \<exists>k. index_key_from_value coll (ix_name f) (ix_type f) v = Inr k"
  shows "\<exists>es. index_entries_from coll doc i fs = Inr es"
  using assms
proof (induction fs arbitrary: i)
  case (Cons f fs)
  then obtain es where es: "index_entries_from coll doc (Suc i) fs = Inr es" by (metis list.set_intros(2))
  show ?case
  proof (cases "field doc (ix_name f)")
    case None
    with es show ?thesis by simp
  next
    case (Some v)
    show ?thesis
    proof (cases "v = SV_Null")
      case True
      with Some es show ?thesis by simp
    next
      case False
      from Cons.prems [OF _ Some False] obtain k where "index_key_from_value coll (ix_name f) (ix_type f) v = Inr k" by auto
      with Some False es show ?thesis by simp
    qed
  qed
qed simp

lemma valid_document_entries:
  assumes "validate_document s doc = Inr ()" and "new_indexes s = Inr ix"
  shows "\<exists>es. document_index_entries ix doc = Inr es"
proof -
  let ?fs = "filter (\<lambda>f. f_indexed f \<or> f_unique f) (s_fields s)"
  from assms(2) have ix: "sci_schema ix = s"
    "sci_indexed_fields ix = map (\<lambda>f. \<lparr>ix_name = f_name f, ix_type = f_type f, ix_unique = f_unique f\<rparr>) ?fs"
    "\<forall>f \<in> set ?fs. is_exact_index_type (f_type f)"
    by (auto simp: new_indexes_def and_then_Inr_iff Let_def find_None_iff split: option.splits)
  have "\<exists>k. index_key_from_value (s_name s) (ix_name g) (ix_type g) v = Inr k"
    if g: "g \<in> set (sci_indexed_fields ix)" and v: "field doc (ix_name g) = Some v" "v \<noteq> SV_Null" for g v
  proof -
    from g ix(2) obtain f where f: "f \<in> set ?fs" "g = \<lparr>ix_name = f_name f, ix_type = f_type f, ix_unique = f_unique f\<rparr>" by auto
    have "conforms (f_type f) v" using v f by (intro valid_document_field [OF assms(1)]) auto
    then show ?thesis using index_key_total ix(3) f by auto
  qed
  then show ?thesis unfolding document_index_entries_def ix(1) by (rule index_entries_total)
qed

section \<open>Terms\<close>

definition field_term :: "string \<Rightarrow> indexed_field \<Rightarrow> schema_value \<Rightarrow> schema_exact_index_key option" where
  "field_term coll f doc = (case field doc (ix_name f) of
     None \<Rightarrow> None
   | Some v \<Rightarrow> if v = SV_Null then None
       else (case index_key_from_value coll (ix_name f) (ix_type f) v of Inr k \<Rightarrow> Some k | Inl _ \<Rightarrow> None))"

definition index_term :: "schema_collection_indexes \<Rightarrow> nat \<Rightarrow> schema_value \<Rightarrow> schema_exact_index_key option" where
  "index_term ix i = field_term (s_name (sci_schema ix)) (sci_indexed_fields ix ! i)"

definition target_term :: "mfs_store \<Rightarrow> schema \<Rightarrow> reference_field \<Rightarrow> schema_value \<Rightarrow> raw_key option" where
  "target_term st s f doc = (case field doc (rf_name f) of
     None \<Rightarrow> None
   | Some v \<Rightarrow> if v = SV_Null then None
       else (case target_key_from_value st s f v of Inr k \<Rightarrow> Some k | Inl _ \<Rightarrow> None))"

definition reference_term :: "mfs_store \<Rightarrow> schema_collection_indexes \<Rightarrow> nat \<Rightarrow> schema_value \<Rightarrow> raw_key option" where
  "reference_term st ix i = target_term st (sci_schema ix) (refs_fields (sci_references ix) ! i)"

definition index_entry :: "prepared_index_entry \<Rightarrow> nat \<times> schema_exact_index_key" where
  "index_entry e = (pe_field_idx e, pe_key e)"

definition reference_entry :: "prepared_reference_entry \<Rightarrow> nat \<times> raw_key" where
  "reference_entry e = (pr_field_idx e, pr_target_key e)"

lemma entry_simps [simp]:
  "index_entry \<lparr>pe_field_idx = i, pe_key = k\<rparr> = (i, k)"
  "reference_entry \<lparr>pr_field_idx = i, pr_target_key = t\<rparr> = (i, t)"
  by (simp_all add: index_entry_def reference_entry_def)

lemma shifted_entries:
  "{(i + j, k) | j k. j < length (f # fs) \<and> t ((f # fs) ! j) = Some k} =
     {(i, k) | k. t f = Some k} \<union> {(Suc i + j, k) | j k. j < length fs \<and> t (fs ! j) = Some k}"
  by (auto simp: less_Suc_eq_0_disj)

lemma index_entries_terms:
  "index_entries_from coll doc i fs = Inr es \<Longrightarrow>
     index_entry ` set es = {(i + j, k) | j k. j < length fs \<and> field_term coll (fs ! j) doc = Some k}"
proof (induction fs arbitrary: i es)
  case (Cons f fs)
  have "field_term coll f doc = None \<and> index_entries_from coll doc (Suc i) fs = Inr es
      \<or> (\<exists>k es'. field_term coll f doc = Some k \<and> index_entries_from coll doc (Suc i) fs = Inr es' \<and> es = \<lparr>pe_field_idx = i, pe_key = k\<rparr> # es')"
    using Cons.prems by (auto simp: field_term_def and_then_Inr_iff split: option.splits if_splits)
  then show ?case unfolding shifted_entries [where t = "\<lambda>f. field_term coll f doc"]
    by (elim disjE exE conjE) (auto simp add: Cons.IH [of "Suc i"])
qed simp

lemma reference_entries_terms:
  "reference_entries_from st s doc i fs = Inr es \<Longrightarrow>
     reference_entry ` set es = {(i + j, k) | j k. j < length fs \<and> target_term st s (fs ! j) doc = Some k}"
proof (induction fs arbitrary: i es)
  case (Cons f fs)
  have "target_term st s f doc = None \<and> reference_entries_from st s doc (Suc i) fs = Inr es
      \<or> (\<exists>k es'. target_term st s f doc = Some k \<and> reference_entries_from st s doc (Suc i) fs = Inr es' \<and> es = \<lparr>pr_field_idx = i, pr_target_key = k\<rparr> # es')"
    using Cons.prems by (auto simp: target_term_def and_then_Inr_iff split: option.splits if_splits)
  then show ?case unfolding shifted_entries [where t = "\<lambda>f. target_term st s f doc"]
    by (elim disjE exE conjE) (auto simp add: Cons.IH [of "Suc i"])
qed simp

lemma document_index_entries_terms:
  "document_index_entries ix doc = Inr es \<Longrightarrow>
     index_entry ` set es = entries_of (length (sci_indexed_fields ix)) (index_term ix) (Some doc)"
  unfolding document_index_entries_def entries_of_def index_term_def by (drule index_entries_terms) auto

lemma document_entries_terms:
  "document_entries st (sci_schema ix) (sci_references ix) doc = Inr es \<Longrightarrow>
     reference_entry ` set es = entries_of (length (refs_fields (sci_references ix))) (reference_term st ix) (Some doc)"
  unfolding document_entries_def entries_of_def reference_term_def by (drule reference_entries_terms) auto

lemma old_index_entries_terms:
  "entries_of_old (document_index_entries ix) old = Inr es \<Longrightarrow>
     index_entry ` set es = entries_of (length (sci_indexed_fields ix)) (index_term ix) old"
  by (cases old) (auto simp: entries_of_old_def document_index_entries_terms entries_of_def)

lemma old_reference_entries_terms:
  "entries_of_old (document_entries st (sci_schema ix) (sci_references ix)) old = Inr es \<Longrightarrow>
     reference_entry ` set es = entries_of (length (refs_fields (sci_references ix))) (reference_term st ix) old"
  by (cases old) (auto simp: entries_of_old_def document_entries_terms entries_of_def)

section \<open>Plans\<close>

lemma index_entry_folds:
  "fold (add_index_entry pk) es ms = fold (add_at pk) (map index_entry es) ms"
  "fold (remove_index_entry pk) es ms = fold (drop_at pk) (map index_entry es) ms"
  by (induction es arbitrary: ms)
    (simp_all add: add_index_entry_def remove_index_entry_def add_at_def drop_at_def index_entry_def)

lemma reference_entry_folds:
  "fold (add_reference src) es refs = refs\<lparr>
     refs_forward := fold (insert_at src) (map reference_entry es) (refs_forward refs),
     refs_reverse := fold (add_at src) (map reference_entry es) (refs_reverse refs)\<rparr>"
  "fold (remove_reference src) es refs = refs\<lparr>
     refs_forward := fold (remove_at src) (map reference_entry es) (refs_forward refs),
     refs_reverse := fold (drop_at src) (map reference_entry es) (refs_reverse refs)\<rparr>"
  by (induction es arbitrary: refs)
    (simp_all add: add_reference_def remove_reference_def add_at_def drop_at_def insert_at_def remove_at_def
      reference_entry_def Let_def)

text \<open>The indexes and reference maps agree with the documents of the collection.\<close>

definition maps_ok :: "mfs_store \<Rightarrow> schema_collection_indexes \<Rightarrow> (raw_key \<rightharpoonup> schema_value) \<Rightarrow> bool" where
  "maps_ok st ix docs \<longleftrightarrow>
     postings_ok (length (sci_indexed_fields ix)) (index_term ix) docs (sci_indexes ix)
   \<and> forward_ok (length (refs_fields (sci_references ix))) (reference_term st ix) docs (refs_forward (sci_references ix))
   \<and> postings_ok (length (refs_fields (sci_references ix))) (reference_term st ix) docs (refs_reverse (sci_references ix))"

lemma apply_write_sel [simp]:
  "sci_schema (apply_write key plan ix) = sci_schema ix"
  "sci_indexed_fields (apply_write key plan ix) = sci_indexed_fields ix"
  "refs_fields (sci_references (apply_write key plan ix)) = refs_fields (sci_references ix)"
  by (simp_all add: apply_write_def references_apply_write_def reference_entry_folds)

lemma apply_write_terms [simp]:
  "index_term (apply_write key plan ix) = index_term ix"
  "reference_term st (apply_write key plan ix) = reference_term st ix"
  by (auto simp: index_term_def reference_term_def)

text \<open>What a plan has to contain for its application to keep the maps in step.\<close>

definition plan_for :: "mfs_store \<Rightarrow> schema_collection_indexes \<Rightarrow> schema_value option \<Rightarrow> schema_value option \<Rightarrow> schema_index_write_plan \<Rightarrow> bool" where
  "plan_for st ix old new plan \<longleftrightarrow>
     index_entry ` set (ip_old_entries plan) = entries_of (length (sci_indexed_fields ix)) (index_term ix) old
   \<and> index_entry ` set (ip_new_entries plan) = entries_of (length (sci_indexed_fields ix)) (index_term ix) new
   \<and> reference_entry ` set (rp_old_entries (ip_reference_plan plan))
       = entries_of (length (refs_fields (sci_references ix))) (reference_term st ix) old
   \<and> reference_entry ` set (rp_new_entries (ip_reference_plan plan))
       = entries_of (length (refs_fields (sci_references ix))) (reference_term st ix) new"

lemma entries_of_None [simp]: "entries_of n terms None = {}"
  by (simp add: entries_of_def)

lemmas entry_terms = old_index_entries_terms document_index_entries_terms old_reference_entries_terms document_entries_terms

lemma prepare_put_plan: "prepare_put st ix key old new = Inr plan \<Longrightarrow> plan_for st ix old (Some new) plan"
  by (clarsimp simp: prepare_put_def references_prepare_put_def and_then_Inr_iff plan_for_def) (drule entry_terms | simp)+

lemma prepare_delete_plan: "prepare_delete st ix old = Inr plan \<Longrightarrow> plan_for st ix old None plan"
  by (clarsimp simp: prepare_delete_def references_prepare_delete_def and_then_Inr_iff plan_for_def) (drule entry_terms | simp)+

lemma apply_write_maps:
  assumes "maps_ok st ix docs" and "plan_for st ix (docs key) new plan"
  shows "maps_ok st (apply_write key plan ix) (docs(key := new))"
proof -
  let ?ix = "apply_write key plan ix" and ?rp = "ip_reference_plan plan"
  have e: "sci_indexes ?ix = fold (add_at key) (map index_entry (ip_new_entries plan))
      (fold (drop_at key) (map index_entry (ip_old_entries plan)) (sci_indexes ix))"
    "refs_forward (sci_references ?ix) = fold (insert_at key) (map reference_entry (rp_new_entries ?rp))
      (fold (remove_at key) (map reference_entry (rp_old_entries ?rp)) (refs_forward (sci_references ix)))"
    "refs_reverse (sci_references ?ix) = fold (add_at key) (map reference_entry (rp_new_entries ?rp))
      (fold (drop_at key) (map reference_entry (rp_old_entries ?rp)) (refs_reverse (sci_references ix)))"
    by (simp_all add: apply_write_def references_apply_write_def index_entry_folds reference_entry_folds)
  note m = assms(1) [unfolded maps_ok_def] and p = assms(2) [unfolded plan_for_def]
  show ?thesis unfolding maps_ok_def apply_write_sel apply_write_terms e
    using m p by (intro conjI postings_write forward_write) simp_all
qed

section \<open>Registered schemas\<close>

definition registry_le :: "mfs_store \<Rightarrow> mfs_store \<Rightarrow> bool" where
  "registry_le st st' \<longleftrightarrow> (\<forall>name ix. schema_indexes_for_collection st name = Some ix \<longrightarrow>
     (\<exists>ix'. schema_indexes_for_collection st' name = Some ix' \<and> sci_schema ix' = sci_schema ix))"

lemma registry_le_refl [simp]: "registry_le st st"
  by (simp add: registry_le_def)

lemma target_key_mono:
  assumes "registry_le st st'" and "target_key_from_value st s f v = Inr k"
  shows "target_key_from_value st' s f v = Inr k"
proof -
  let ?c = "ref_collection (rf_reference f)"
  from assms(2) obtain ix where ix: "schema_indexes_for_collection st ?c = Some ix"
    by (auto simp: target_key_from_value_def referenced_schema_def and_then_Inr_iff)
  then obtain ix' where "schema_indexes_for_collection st' ?c = Some ix'" "sci_schema ix' = sci_schema ix"
    using assms(1) unfolding registry_le_def by blast
  with ix assms(2) show ?thesis
    by (auto simp: target_key_from_value_def referenced_schema_def and_then_Inr_iff split: if_splits)
qed

lemma reference_entries_mono:
  assumes "registry_le st st'"
  shows "reference_entries_from st s doc i fs = Inr es \<Longrightarrow> reference_entries_from st' s doc i fs = Inr es
    \<and> (\<forall>f \<in> set fs. target_term st' s f doc = target_term st s f doc)"
proof (induction fs arbitrary: i es)
  case (Cons f fs)
  consider (none) "field doc (rf_name f) = None \<or> field doc (rf_name f) = Some SV_Null"
      "reference_entries_from st s doc (i + 1) fs = Inr es"
    | (some) v k es' where "field doc (rf_name f) = Some v" "v \<noteq> SV_Null" "target_key_from_value st s f v = Inr k"
      "reference_entries_from st s doc (i + 1) fs = Inr es'" "es = \<lparr>pr_field_idx = i, pr_target_key = k\<rparr> # es'"
    using Cons.prems by (auto simp: and_then_Inr_iff split: option.splits if_splits)
  then show ?case
  proof cases
    case none
    then show ?thesis using Cons.IH [OF none(2)] by (auto simp: target_term_def)
  next
    case some
    then show ?thesis using Cons.IH [OF some(4)] target_key_mono [OF assms some(3)] by (auto simp: target_term_def)
  qed
qed simp

section \<open>The invariant of schema collections\<close>

definition stored_document :: "mfs_store \<Rightarrow> schema \<Rightarrow> raw_key \<rightharpoonup> schema_value" where
  "stored_document st s key = (case get_raw st (s_name s) key of
     Inr (Some r) \<Rightarrow> (case decode_schema_raw_value s (rr_value r) of Inr doc \<Rightarrow> Some doc | Inl _ \<Rightarrow> None)
   | _ \<Rightarrow> None)"

definition shape_ok :: "schema_collection_indexes \<Rightarrow> bool" where
  "shape_ok ix \<longleftrightarrow> (\<exists>ix0. new_indexes (sci_schema ix) = Inr ix0 \<and> sci_indexed_fields ix = sci_indexed_fields ix0
     \<and> refs_fields (sci_references ix) = refs_fields (sci_references ix0))"

definition documents_ok :: "mfs_store \<Rightarrow> schema_collection_indexes \<Rightarrow> bool" where
  "documents_ok st ix \<longleftrightarrow> (\<forall>key r. get_raw st (s_name (sci_schema ix)) key = Inr (Some r) \<longrightarrow>
     (\<exists>doc es. decode_schema_raw_value (sci_schema ix) (rr_value r) = Inr doc
        \<and> schema_document_raw_key (sci_schema ix) doc = Inr key
        \<and> document_entries st (sci_schema ix) (sci_references ix) doc = Inr es))"

definition unique_ok :: "schema_collection_indexes \<Rightarrow> bool" where
  "unique_ok ix \<longleftrightarrow> (\<forall>i < length (sci_indexed_fields ix). ix_unique (sci_indexed_fields ix ! i) \<longrightarrow>
     (\<forall>k. length (keys_at (sci_indexes ix) i k) \<le> 1))"

definition schema_ok :: "mfs_store \<Rightarrow> schema_collection_indexes \<Rightarrow> bool" where
  "schema_ok st ix \<longleftrightarrow> shape_ok ix \<and> documents_ok st ix \<and> unique_ok ix
     \<and> maps_ok st ix (stored_document st (sci_schema ix))"

definition schema_store_inv :: "mfs_store \<Rightarrow> bool" where
  "schema_store_inv st \<longleftrightarrow> store_ok st
     \<and> (\<forall>name ix. schema_indexes_for_collection st name = Some ix \<longrightarrow> s_name (sci_schema ix) = name \<and> schema_ok st ix)
     \<and> (\<forall>name key r. schema_indexes_for_collection st name = None \<longrightarrow> get_raw st name key \<noteq> Inr (Some r))"

lemma stored_documentD:
  assumes "documents_ok st ix" and "stored_document st (sci_schema ix) key = Some doc"
  shows "schema_document_raw_key (sci_schema ix) doc = Inr key"
    and "\<exists>es. document_entries st (sci_schema ix) (sci_references ix) doc = Inr es"
    and "\<exists>r. get_raw st (s_name (sci_schema ix)) key = Inr (Some r) \<and> decode_schema_raw_value (sci_schema ix) (rr_value r) = Inr doc"
  using assms unfolding documents_ok_def stored_document_def by (fastforce split: sum.splits option.splits)+

lemma schema_ok_mono:
  assumes "schema_ok st ix" and "registry_le st st'"
    and reads: "\<And>key r. get_raw st' (s_name (sci_schema ix)) key = Inr (Some r) \<longleftrightarrow> get_raw st (s_name (sci_schema ix)) key = Inr (Some r)"
  shows "schema_ok st' ix"
proof -
  let ?s = "sci_schema ix"
  have d: "documents_ok st ix" using assms(1) by (simp add: schema_ok_def)
  have docs: "stored_document st' ?s = stored_document st ?s"
  proof
    fix key
    show "stored_document st' ?s key = stored_document st ?s key"
      using reads [of key] by (cases "get_raw st' (s_name ?s) key"; cases "get_raw st (s_name ?s) key")
        (auto simp: stored_document_def split: option.splits)
  qed
  have "documents_ok st' ix"
    unfolding documents_ok_def
  proof (intro allI impI)
    fix key r assume "get_raw st' (s_name ?s) key = Inr (Some r)"
    then have "get_raw st (s_name ?s) key = Inr (Some r)" using reads by simp
    then obtain doc es where "decode_schema_raw_value ?s (rr_value r) = Inr doc" "schema_document_raw_key ?s doc = Inr key"
      "document_entries st ?s (sci_references ix) doc = Inr es"
      using d unfolding documents_ok_def by blast
    then show "\<exists>doc es. decode_schema_raw_value ?s (rr_value r) = Inr doc \<and> schema_document_raw_key ?s doc = Inr key
        \<and> document_entries st' ?s (sci_references ix) doc = Inr es"
      using reference_entries_mono [OF assms(2)] by (auto simp: document_entries_def)
  qed
  moreover have "reference_term st' ix i doc = reference_term st ix i doc"
    if doc: "stored_document st ?s key = Some doc" and i: "i < length (refs_fields (sci_references ix))" for key doc i
  proof -
    from stored_documentD(2) [OF d doc] obtain es where "document_entries st ?s (sci_references ix) doc = Inr es" by blast
    from reference_entries_mono [OF assms(2) this [unfolded document_entries_def]] i show ?thesis
      by (simp add: reference_term_def)
  qed
  ultimately show ?thesis using assms(1) unfolding schema_ok_def maps_ok_def docs
    by (auto intro: forward_cong postings_cong)
qed

section \<open>Registration\<close>

lemma registered_set [simp]:
  "schema_indexes_for_collection (set_schema_indexes n ix st) m = (if m = n then Some ix else schema_indexes_for_collection st m)"
  by (simp add: schema_indexes_for_collection_def set_schema_indexes_def)

lemma set_schema_indexes_sel [simp]:
  "get_raw (set_schema_indexes n ix st) = get_raw st"
  "st_collections (set_schema_indexes n ix st) = st_collections st"
  "st_config (set_schema_indexes n ix st) = st_config st"
  "store_ok (set_schema_indexes n ix st) = store_ok st"
  "st_durability (set_schema_indexes n ix st) = st_durability st"
  by (auto simp: fun_eq_iff get_raw_def raw_collection_of_def set_schema_indexes_def store_ok_def)

lemma registry_le_set:
  assumes "st' = set_schema_indexes n ix st" and "\<And>ix0. schema_indexes_for_collection st n = Some ix0 \<Longrightarrow> sci_schema ix0 = sci_schema ix"
  shows "registry_le st st'"
  unfolding registry_le_def assms(1) registered_set by (auto dest: assms(2))

lemma new_indexes_fields:
  assumes "new_indexes s = Inr ix"
  shows "sci_schema ix = s" and "wf_schema s" and "sci_indexes ix = replicate (length (sci_indexed_fields ix)) []"
    and "refs_forward (sci_references ix) = replicate (length (refs_fields (sci_references ix))) []"
    and "refs_reverse (sci_references ix) = replicate (length (refs_fields (sci_references ix))) []"
  using assms by (auto simp: new_indexes_def and_then_Inr_iff Let_def new_references_def split: option.splits)

lemma new_indexes_ok:
  assumes "new_indexes s = Inr ix" and "\<And>key r. get_raw st (s_name s) key \<noteq> Inr (Some r)"
  shows "schema_ok st ix"
proof -
  note f = new_indexes_fields [OF assms(1)]
  have docs: "stored_document st s = Map.empty"
    using assms(2) by (auto simp: fun_eq_iff stored_document_def split: sum.splits option.splits)
  have "unique_ok ix" using f(3) by (simp add: unique_ok_def keys_at_def keys_in_def)
  moreover have "maps_ok st ix Map.empty" unfolding maps_ok_def f(3-5) by (simp add: postings_none forward_none)
  ultimately show ?thesis using assms f(1) docs by (simp add: schema_ok_def shape_ok_def documents_ok_def)
qed

lemma register_inv:
  assumes "schema_store_inv st" and "schema_indexes_for_collection st (s_name s) = None" and "new_indexes s = Inr ix"
  shows "schema_store_inv (set_schema_indexes (s_name s) ix st)" and "registry_le st (set_schema_indexes (s_name s) ix st)"
proof -
  let ?st = "set_schema_indexes (s_name s) ix st"
  show le: "registry_le st ?st" using assms(2) by (auto simp: registry_le_def)
  have new: "schema_ok ?st ix"
    using assms(1,2) by (intro new_indexes_ok [OF assms(3)]) (simp add: schema_store_inv_def)
  have "schema_ok ?st ix'" if "schema_indexes_for_collection st name = Some ix'" for name ix'
    using assms(1) that by (intro schema_ok_mono [OF _ le]) (simp_all add: schema_store_inv_def)
  with new assms(1) new_indexes_fields(1) [OF assms(3)] show "schema_store_inv ?st"
    by (auto simp: schema_store_inv_def split: if_splits)
qed

lemma ensure_cases:
  assumes "ensure_schema_indexes s st = (res, st')"
  obtains (rejected) e where "res = Inl e" "st' = st"
    | (present) ix where "res = Inr ix" "st' = st" "schema_indexes_for_collection st (s_name s) = Some ix" "sci_schema ix = s" "wf_schema s"
    | (registered) ix where "res = Inr ix" "st' = set_schema_indexes (s_name s) ix st" "schema_indexes_for_collection st (s_name s) = None"
        "new_indexes s = Inr ix"
  using assms unfolding ensure_schema_indexes_def
  by (cases "validate_schema s"; cases "schema_indexes_for_collection st (s_name s)"; cases "new_indexes s")
    (auto split: if_splits dest: sym [of "Inl _" "new_indexes s"] sym [of "Inr _" "new_indexes s"])

lemma ensure_effect:
  assumes "ensure_schema_indexes s st = (res, st')" and "schema_store_inv st"
  shows "schema_store_inv st'" and "registry_le st st'" and "st_collections st' = st_collections st"
    and "res = Inl e \<Longrightarrow> st' = st"
    and "res = Inr ix \<Longrightarrow> schema_indexes_for_collection st' (s_name s) = Some ix \<and> sci_schema ix = s \<and> wf_schema s"
proof -
  from assms(1) have "schema_store_inv st' \<and> registry_le st st' \<and> st_collections st' = st_collections st
    \<and> (\<forall>e. res = Inl e \<longrightarrow> st' = st)
    \<and> (\<forall>ix. res = Inr ix \<longrightarrow> schema_indexes_for_collection st' (s_name s) = Some ix \<and> sci_schema ix = s \<and> wf_schema s)"
    by (cases rule: ensure_cases) (use assms(2) register_inv [OF assms(2)] new_indexes_fields in auto)
  then show "schema_store_inv st'" "registry_le st st'" "st_collections st' = st_collections st"
    "res = Inl e \<Longrightarrow> st' = st"
    "res = Inr ix \<Longrightarrow> schema_indexes_for_collection st' (s_name s) = Some ix \<and> sci_schema ix = s \<and> wf_schema s"
    by auto
qed

section \<open>Writes\<close>

text \<open>What the writes of the raw store mean for reads. A deleted record keeps its version.\<close>

definition record_version :: "mfs_store \<Rightarrow> string \<Rightarrow> raw_key \<Rightarrow> document_version" where
  "record_version st coll key = (case store_lookup st coll key of Some r \<Rightarrow> rec_version r | None \<Rightarrow> 0)"

lemma write_reads:
  assumes "write_with_hooks cf fl coll key v opts preflight (st, d) = (res, (st', d'))" and "store_ok st"
  shows "store_ok st' \<and> st_schema_indexes st' = st_schema_indexes st \<and> (case res of
      Inl e \<Rightarrow> st_collections st' = st_collections st
    | Inr (wr, plan) \<Rightarrow> \<exists>old. get_raw st coll key = Inr old
        \<and> preflight (map_option rr_value old) (record_version st coll key) = Inr plan
        \<and> expected_version opts \<in> {None, Some (record_version st coll key)}
        \<and> wr_version wr = record_version st coll key + 1
        \<and> get_raw st' coll key = Inr (map_option (\<lambda>x. \<lparr>rr_value = x, rr_version = wr_version wr\<rparr>) v)
        \<and> (\<forall>coll' key'. (coll', key') \<noteq> (coll, key) \<longrightarrow> get_raw st' coll' key' = get_raw st coll' key'))"
proof -
  note e = write_effect [OF assms]
  show ?thesis
  proof (cases res)
    case (Inl x)
    with e show ?thesis by simp
  next
    case (Inr r)
    obtain wr plan where r: "r = (wr, plan)" by fastforce
    from e Inr r obtain rc rc' actual where w: "map_of (st_collections st) coll = Some rc"
      "actual = (case rc_lookup rc key of Some r \<Rightarrow> rec_version r | None \<Rightarrow> 0)" "expected_version opts \<in> {None, Some actual}"
      "preflight (Option.bind (rc_lookup rc key) rec_value) actual = Inr plan" "wr_version wr = next_version actual"
      "st_collections st' = hm_insert coll rc' (st_collections st)"
      "\<forall>k. rc_lookup rc' k = (if k = key then Some \<lparr>rec_value = v, rec_version = wr_version wr\<rparr> else rc_lookup rc k)"
      by auto
    have old: "get_raw st coll key = Inr (read_of (rc_lookup rc key))" by (rule get_raw_read [OF w(1)])
    have new: "get_raw st' coll k = Inr (read_of (rc_lookup rc' k))" for k by (rule get_raw_read) (simp add: w(6))
    have "get_raw st' coll' key' = get_raw st coll' key'" if "(coll', key') \<noteq> (coll, key)" for coll' key'
      using that new [of key'] get_raw_read [OF w(1), of key'] w(6,7)
      by (cases "coll' = coll") (simp_all add: get_raw_def raw_collection_of_def)
    moreover have "Option.bind (rc_lookup rc key) rec_value = map_option rr_value (read_of (rc_lookup rc key))"
      by (cases "rc_lookup rc key") (simp_all add: read_of_def option.map_comp o_def option.map_ident)
    moreover have "actual = record_version st coll key" using w(1,2) by (simp add: record_version_def store_lookup_def)
    ultimately show ?thesis using e Inr r w old new [of key]
      by (auto simp: next_version_def read_of_def intro!: exI [of _ "read_of (rc_lookup rc key)"])
  qed
qed

lemma matches_stored:
  assumes "documents_ok st ix" and "i < length (sci_indexed_fields ix)"
    and "stored_document st (sci_schema ix) key = Some doc" and "index_term ix i doc = Some k"
  shows "raw_document_matches_index st ix key (sci_indexed_fields ix ! i) k = Inr True"
  using stored_documentD [OF assms(1,3)] assms(4)
  by (auto simp: raw_document_matches_index_def document_matches_index_def index_term_def field_term_def
      split: option.splits if_splits sum.splits)

lemma check_unique_holders_ok:
  "check_unique_holders st ix pk f k keys = Inr () \<Longrightarrow> q \<in> set keys \<Longrightarrow> q = pk \<or> raw_document_matches_index st ix q f k = Inr False"
  by (induction keys) (auto simp: and_then_Inr_iff split: if_splits)

lemma validate_unique_ok:
  "validate_unique_constraints st ix pk es = Inr () \<Longrightarrow> e \<in> set es \<Longrightarrow> ix_unique (sci_indexed_fields ix ! pe_field_idx e) \<Longrightarrow>
     check_unique_holders st ix pk (sci_indexed_fields ix ! pe_field_idx e) (pe_key e) (index_keys ix (pe_field_idx e) (pe_key e)) = Inr ()"
  by (induction es) (auto simp: and_then_Inr_iff Let_def split: if_splits)

lemma index_keys_at: "index_keys ix i k = keys_at (sci_indexes ix) i k"
  by (simp add: index_keys_def keys_at_def keys_in_def)

text \<open>A write that may be applied: its plan fits, and what it stores is a document of the key.\<close>

definition storable :: "mfs_store \<Rightarrow> schema_collection_indexes \<Rightarrow> raw_key \<Rightarrow> raw_value option \<Rightarrow> schema_value option \<Rightarrow> bool" where
  "storable st ix key v new \<longleftrightarrow> (case new of
     None \<Rightarrow> v = None
   | Some doc \<Rightarrow> v = Some (encoded doc) \<and> decode_schema_raw_value (sci_schema ix) (encoded doc) = Inr doc
       \<and> schema_document_raw_key (sci_schema ix) doc = Inr key
       \<and> (\<exists>es. document_entries st (sci_schema ix) (sci_references ix) doc = Inr es)
       \<and> (\<forall>i k. (i, k) \<in> entries_of (length (sci_indexed_fields ix)) (index_term ix) (Some doc)
            \<and> ix_unique (sci_indexed_fields ix ! i) \<longrightarrow> set (keys_at (sci_indexes ix) i k) \<subseteq> {key}))"

lemma prepare_put_storable:
  assumes "schema_ok st ix" and "prepare_put st ix key old doc = Inr plan"
    and "decode_schema_raw_value (sci_schema ix) (encoded doc) = Inr doc" and "schema_document_raw_key (sci_schema ix) doc = Inr key"
  shows "storable st ix key (Some (encoded doc)) (Some doc)"
proof -
  from assms(2) obtain news where news: "document_index_entries ix doc = Inr news"
    "validate_unique_constraints st ix key news = Inr ()" "\<exists>es. document_entries st (sci_schema ix) (sci_references ix) doc = Inr es"
    by (auto simp: prepare_put_def references_prepare_put_def and_then_Inr_iff)
  have "set (keys_at (sci_indexes ix) i k) \<subseteq> {key}"
    if e: "(i, k) \<in> entries_of (length (sci_indexed_fields ix)) (index_term ix) (Some doc)" and u: "ix_unique (sci_indexed_fields ix ! i)"
    for i k
  proof
    fix q assume q: "q \<in> set (keys_at (sci_indexes ix) i k)"
    from e obtain x where x: "x \<in> set news" "index_entry x = (i, k)"
      unfolding document_index_entries_terms [OF news(1), symmetric] by (metis imageE)
    then have ok: "check_unique_holders st ix key (sci_indexed_fields ix ! i) k (keys_at (sci_indexes ix) i k) = Inr ()"
      using validate_unique_ok [OF news(2) x(1)] u by (simp add: index_entry_def index_keys_at)
    have i: "i < length (sci_indexed_fields ix)" using e by (simp add: entries_of_def)
    then have "q \<in> holders (index_term ix) (stored_document st (sci_schema ix)) i k"
      using assms(1) q by (simp add: schema_ok_def maps_ok_def postings_ok_def)
    then obtain doc' where "stored_document st (sci_schema ix) q = Some doc'" "index_term ix i doc' = Some k"
      by (auto simp: holders_def)
    then have "raw_document_matches_index st ix q (sci_indexed_fields ix ! i) k = Inr True"
      using assms(1) i by (intro matches_stored) (simp_all add: schema_ok_def)
    with check_unique_holders_ok [OF ok q] show "q \<in> {key}" by simp
  qed
  with assms(3,4) news(3) show ?thesis by (simp add: storable_def)
qed

lemma unique_after:
  assumes "unique_ok ix" and "maps_ok st ix docs" and "plan_for st ix (docs key) new plan"
    and "\<And>i k. (i, k) \<in> entries_of (length (sci_indexed_fields ix)) (index_term ix) new \<Longrightarrow> ix_unique (sci_indexed_fields ix ! i) \<Longrightarrow>
      set (keys_at (sci_indexes ix) i k) \<subseteq> {key}"
  shows "unique_ok (apply_write key plan ix)"
  unfolding unique_ok_def apply_write_sel
proof (intro allI impI)
  let ?ix = "apply_write key plan ix" and ?n = "length (sci_indexed_fields ix)"
  fix i k assume i: "i < ?n" and u: "ix_unique (sci_indexed_fields ix ! i)"
  have m: "distinct (keys_at (sci_indexes ix) i k)" "set (keys_at (sci_indexes ix) i k) = holders (index_term ix) docs i k"
    using assms(2) i by (simp_all add: maps_ok_def postings_ok_def)
  have m': "distinct (keys_at (sci_indexes ?ix) i k)" "set (keys_at (sci_indexes ?ix) i k) = holders (index_term ix) (docs(key := new)) i k"
    using apply_write_maps [OF assms(2,3)] i by (simp_all add: maps_ok_def postings_ok_def)
  have "card (set (keys_at (sci_indexes ?ix) i k)) \<le> 1"
  proof (cases "(i, k) \<in> entries_of ?n (index_term ix) new")
    case True
    have "set (keys_at (sci_indexes ?ix) i k) \<subseteq> {key}"
      using assms(4) [OF True u] unfolding m' m(2) by (auto simp: holders_def split: if_splits)
    then show ?thesis using card_mono [of "{key}"] by fastforce
  next
    case False
    then have "set (keys_at (sci_indexes ?ix) i k) \<subseteq> set (keys_at (sci_indexes ix) i k)"
      unfolding m' m(2) using i by (auto simp: holders_def entries_of_def split: if_splits)
    then have "card (set (keys_at (sci_indexes ?ix) i k)) \<le> length (keys_at (sci_indexes ix) i k)"
      using card_mono [OF finite_set] card_length order_trans by blast
    also have "\<dots> \<le> 1" using assms(1) i u by (simp add: unique_ok_def)
    finally show ?thesis .
  qed
  then show "length (keys_at (sci_indexes ?ix) i k) \<le> 1" using distinct_card [OF m'(1)] by simp
qed

lemma same_registry:
  assumes "st_schema_indexes st' = st_schema_indexes st"
  shows "schema_indexes_for_collection st' = schema_indexes_for_collection st"
    and "document_entries st' = document_entries st" and "reference_term st' = reference_term st"
proof -
  show r: "schema_indexes_for_collection st' = schema_indexes_for_collection st"
    using assms by (simp add: fun_eq_iff schema_indexes_for_collection_def)
  have t: "target_key_from_value st' = target_key_from_value st"
    by (simp add: fun_eq_iff target_key_from_value_def referenced_schema_def r)
  have "reference_entries_from st' s doc i fs = reference_entries_from st s doc i fs" for s doc i fs
    by (induction fs arbitrary: i) (simp_all add: t cong: option.case_cong if_cong and_then_cong)
  then show "document_entries st' = document_entries st" by (simp add: fun_eq_iff document_entries_def)
  show "reference_term st' = reference_term st" by (simp add: fun_eq_iff reference_term_def target_term_def t cong: option.case_cong if_cong)
qed

lemma same_reads: "st_collections st' = st_collections st \<Longrightarrow> get_raw st' = get_raw st"
  by (simp add: fun_eq_iff get_raw_def raw_collection_of_def)

lemma inv_same:
  assumes "schema_store_inv st" and "store_ok st'" and "st_collections st' = st_collections st"
    and "st_schema_indexes st' = st_schema_indexes st"
  shows "schema_store_inv st'"
proof -
  have "schema_ok st' ix" if "schema_ok st ix" for ix
    using that by (rule schema_ok_mono) (simp_all add: registry_le_def same_registry [OF assms(4)] same_reads [OF assms(3)])
  with assms show ?thesis by (simp add: schema_store_inv_def same_registry [OF assms(4)] same_reads [OF assms(3)])
qed

text \<open>The record of one key is replaced and the plan is applied.\<close>

lemma applied_ok:
  assumes "schema_ok st ix" and "st_schema_indexes st2 = st_schema_indexes st"
    and "get_raw st2 (s_name (sci_schema ix)) key = Inr (map_option (\<lambda>x. \<lparr>rr_value = x, rr_version = ver\<rparr>) v)"
    and "\<And>k. k \<noteq> key \<Longrightarrow> get_raw st2 (s_name (sci_schema ix)) k = get_raw st (s_name (sci_schema ix)) k"
    and "plan_for st ix (stored_document st (sci_schema ix) key) new plan" and "storable st ix key v new"
  shows "schema_ok st2 (apply_write key plan ix)"
    and "stored_document st2 (sci_schema ix) = (stored_document st (sci_schema ix))(key := new)"
proof -
  let ?s = "sci_schema ix"
  have ok: "shape_ok ix" "documents_ok st ix" "unique_ok ix" "maps_ok st ix (stored_document st ?s)"
    using assms(1) by (simp_all add: schema_ok_def)
  show docs: "stored_document st2 ?s = (stored_document st ?s)(key := new)"
    using assms(3,4,6) by (auto simp: fun_eq_iff stored_document_def storable_def split: option.splits)
  have "\<exists>doc es. decode_schema_raw_value ?s (rr_value r) = Inr doc \<and> schema_document_raw_key ?s doc = Inr k
      \<and> document_entries st ?s (sci_references ix) doc = Inr es" if r: "get_raw st2 (s_name ?s) k = Inr (Some r)" for k r
  proof (cases "k = key")
    case True
    with r assms(3,6) show ?thesis by (auto simp: storable_def split: option.splits)
  next
    case False
    with r assms(4) have "get_raw st (s_name ?s) k = Inr (Some r)" by simp
    with ok(2) show ?thesis unfolding documents_ok_def by blast
  qed
  then have "documents_ok st2 (apply_write key plan ix)"
    by (simp add: documents_ok_def same_registry [OF assms(2)]) (simp add: document_entries_def)
  moreover have "unique_ok (apply_write key plan ix)"
    using assms(6) by (intro unique_after [OF ok(3,4) assms(5)]) (auto simp: storable_def split: option.splits)
  moreover have "maps_ok st2 (apply_write key plan ix) (stored_document st2 ?s)"
    using apply_write_maps [OF ok(4) assms(5)] unfolding docs by (simp add: maps_ok_def same_registry [OF assms(2)])
  moreover have "shape_ok (apply_write key plan ix)" using ok(1) by (simp add: shape_ok_def)
  ultimately show "schema_ok st2 (apply_write key plan ix)" by (simp add: schema_ok_def)
qed

lemma old_document_stored:
  assumes "get_raw st (s_name s) key = Inr old" and "old_document s (map_option rr_value old) = Inr doc"
  shows "stored_document st s key = doc"
  using assms by (cases old) (auto simp: old_document_def stored_document_def and_then_Inr_iff)

lemma planned_write_effect:
  assumes "schema_store_inv st" and "schema_indexes_for_collection st (s_name s) = Some ix" and "sci_schema ix = s"
    and "planned_write cf fl s ix key v opts prepare (st, d) = (res, (st', d'))"
    and prep: "\<And>old plan. prepare old = Inr plan \<Longrightarrow> plan_for st ix old new plan \<and> storable st ix key v new"
  shows "schema_store_inv st' \<and> (case res of
      Inl e \<Rightarrow> st_collections st' = st_collections st \<and> st_schema_indexes st' = st_schema_indexes st
    | Inr wr \<Rightarrow> stored_document st' s = (stored_document st s)(key := new)
        \<and> get_raw st' (s_name s) key = Inr (map_option (\<lambda>x. \<lparr>rr_value = x, rr_version = wr_version wr\<rparr>) v)
        \<and> (\<forall>coll' key'. (coll', key') \<noteq> (s_name s, key) \<longrightarrow> get_raw st' coll' key' = get_raw st coll' key')
        \<and> expected_version opts \<in> {None, Some (record_version st (s_name s) key)}
        \<and> wr_version wr = record_version st (s_name s) key + 1)"
proof -
  let ?pre = "\<lambda>old_raw _. and_then (old_document s old_raw) prepare"
  obtain r st2 d2 where w: "write_with_hooks cf fl (s_name s) key v opts ?pre (st, d) = (r, (st2, d2))"
    by (metis prod.exhaust)
  have ok: "store_ok st" "schema_ok st ix" using assms(1,2) by (simp_all add: schema_store_inv_def)
  note e = write_reads [OF w ok(1)]
  show ?thesis
  proof (cases r)
    case (Inl x)
    then have "res = Inl x" "st' = st2" using assms(4) w by (simp_all add: planned_write_def then_op_def)
    moreover have "schema_store_inv st2" using e Inl by (intro inv_same [OF assms(1)]) simp_all
    ultimately show ?thesis using e Inl by simp
  next
    case (Inr x)
    obtain wr plan where x: "x = (wr, plan)" by fastforce
    let ?ix = "apply_write key plan ix"
    have r: "res = Inr wr" "st' = set_schema_indexes (s_name s) ?ix st2"
      using assms(4) w Inr x by (simp_all add: planned_write_def then_op_def)
    from e Inr x obtain old where o: "get_raw st (s_name s) key = Inr old"
      "?pre (map_option rr_value old) (record_version st (s_name s) key) = Inr plan"
      "expected_version opts \<in> {None, Some (record_version st (s_name s) key)}" "wr_version wr = record_version st (s_name s) key + 1"
      "get_raw st2 (s_name s) key = Inr (map_option (\<lambda>x. \<lparr>rr_value = x, rr_version = wr_version wr\<rparr>) v)"
      "\<forall>coll' key'. (coll', key') \<noteq> (s_name s, key) \<longrightarrow> get_raw st2 coll' key' = get_raw st coll' key'"
      and st2: "store_ok st2" "st_schema_indexes st2 = st_schema_indexes st" by auto
    from o(2) obtain doc where doc: "old_document s (map_option rr_value old) = Inr doc" "prepare doc = Inr plan"
      by (auto simp: and_then_Inr_iff)
    have p: "plan_for st ix (stored_document st s key) new plan" "storable st ix key v new"
      using prep [OF doc(2)] old_document_stored [OF o(1) doc(1)] by simp_all
    note a = applied_ok [OF ok(2) st2(2), of key "wr_version wr" v new plan, unfolded assms(3), OF o(5) _ p]
    have reg: "schema_indexes_for_collection st2 = schema_indexes_for_collection st" by (rule same_registry(1) [OF st2(2)])
    have le: "registry_le st2 st'" "registry_le st st'"
      using assms(2,3) by (auto simp: registry_le_def r(2) reg)
    have "schema_ok st' ?ix" using a(1) o(6) by (intro schema_ok_mono [OF _ le(1)]) (simp_all add: r(2))
    moreover have "schema_ok st' ix'" if "schema_indexes_for_collection st name = Some ix'" "name \<noteq> s_name s" for name ix'
      using assms(1) that o(6) by (intro schema_ok_mono [OF _ le(2)]) (simp_all add: r(2) schema_store_inv_def)
    ultimately have "schema_store_inv st'"
      using assms(1-3) st2(1) o(6) unfolding schema_store_inv_def r(2) by (auto simp: reg split: if_splits)
    moreover have "stored_document st' s = stored_document st2 s" by (simp add: fun_eq_iff stored_document_def r(2))
    ultimately show ?thesis using a(2) o r by simp
  qed
qed

section \<open>Operations\<close>

lemma valid_encoded:
  assumes "validate_document s doc = Inr ()" and "wf_value doc"
  shows "encode_schema_value doc = Some (encoded doc)" and "decode_schema_value (encoded doc) = Inr doc"
    and "decode_schema_raw_value s (encoded doc) = Inr doc"
proof -
  have "validate_codec_safe doc = Inr ()" using assms(1) by (simp add: validate_document_accepts)
  then show e: "encode_schema_value doc = Some (encoded doc)" by (simp add: encode_schema_value_def encoded_def)
  show d: "decode_schema_value (encoded doc) = Inr doc" by (rule decode_encode_document [OF assms(2) e])
  with assms(1) show "decode_schema_raw_value s (encoded doc) = Inr doc" by (simp add: decode_schema_raw_value_def)
qed

text \<open>What a write of a document does to the documents of a store.\<close>

definition document_written :: "schema \<Rightarrow> raw_key \<Rightarrow> schema_value option \<Rightarrow> write_options \<Rightarrow> write_result \<Rightarrow> mfs_store \<Rightarrow> mfs_store \<Rightarrow> bool" where
  "document_written s key new opts wr st st' \<longleftrightarrow>
     stored_document st' s = (stored_document st s)(key := new)
   \<and> get_raw st' (s_name s) key = Inr (map_option (\<lambda>doc. \<lparr>rr_value = encoded doc, rr_version = wr_version wr\<rparr>) new)
   \<and> (\<forall>coll' key'. (coll', key') \<noteq> (s_name s, key) \<longrightarrow> get_raw st' coll' key' = get_raw st coll' key')
   \<and> expected_version opts \<in> {None, Some (record_version st (s_name s) key)}
   \<and> wr_version wr = record_version st (s_name s) key + 1"

lemma ensure_reads:
  assumes "st_collections st' = st_collections st"
  shows "get_raw st' = get_raw st" and "stored_document st' = stored_document st" and "record_version st' = record_version st"
  using same_reads [OF assms] assms by (simp_all add: fun_eq_iff stored_document_def record_version_def store_lookup_def)

lemma put_schema_effect:
  assumes "put_schema cf fl s doc opts (st, d) = (res, (st', d'))" and "schema_store_inv st" and "wf_value doc"
  shows "schema_store_inv st' \<and> (case res of
      Inl e \<Rightarrow> get_raw st' = get_raw st
    | Inr wr \<Rightarrow> validate_document s doc = Inr () \<and> (\<exists>key. schema_document_raw_key s doc = Inr key
        \<and> document_written s key (Some doc) opts wr st st'))"
proof (cases "and_then (schema_document_raw_key s doc) (\<lambda>key.
         and_then (map_err (schema_document_error s) (validate_document s doc)) (\<lambda>_. Inr key))")
  case (Inl e)
  with assms show ?thesis by (auto simp: put_schema_def)
next
  case (Inr key)
  then have key: "schema_document_raw_key s doc = Inr key" "validate_document s doc = Inr ()"
    by (auto simp: and_then_Inr_iff)
  obtain r1 st1 where en: "ensure_schema_indexes s st = (r1, st1)" by fastforce
  note e = ensure_effect [OF en assms(2)]
  note same = ensure_reads [OF e(3)]
  show ?thesis
  proof (cases r1)
    case (Inl x)
    with assms(1) Inr en e(1) same show ?thesis by (auto simp: put_schema_def)
  next
    case ix: (Inr ix)
    then have reg: "schema_indexes_for_collection st1 (s_name s) = Some ix" "sci_schema ix = s" using e(5) by simp_all
    have w: "planned_write cf fl s ix key (Some (encoded doc)) opts (\<lambda>old. prepare_put st1 ix key old doc) (st1, d) = (res, (st', d'))"
      using assms(1) Inr en ix by (simp add: put_schema_def)
    have "schema_ok st1 ix" using e(1) reg by (simp add: schema_store_inv_def)
    then have "plan_for st1 ix old (Some doc) plan \<and> storable st1 ix key (Some (encoded doc)) (Some doc)"
      if "prepare_put st1 ix key old doc = Inr plan" for old plan
      using that prepare_put_plan [OF that] valid_encoded(3) [OF key(2) assms(3)] key(1) reg(2)
      by (auto intro: prepare_put_storable)
    note pw = planned_write_effect [OF e(1) reg w this]
    show ?thesis
    proof (cases res)
      case (Inl x)
      with pw have "st_collections st' = st_collections st1" by simp
      from same_reads [OF this] pw Inl same show ?thesis by simp
    next
      case (Inr wr)
      with pw key same show ?thesis by (simp add: document_written_def)
    qed
  qed
qed

text \<open>A write keeps the schema registered.\<close>

lemma put_registers:
  assumes "put_schema cf fl s doc opts (st, d) = (Inr wr, (st', d'))" and "schema_store_inv st"
    and "schema_indexes_for_collection st (s_name s) = Some ix" and "sci_schema ix = s"
  shows "\<exists>ix'. schema_indexes_for_collection st' (s_name s) = Some ix' \<and> sci_schema ix' = s"
proof -
  obtain r st1 where en: "ensure_schema_indexes s st = (r, st1)" by fastforce
  with assms(1) obtain key ix1 where k: "r = Inr ix1" "planned_write cf fl s ix1 key (Some (encoded doc)) opts
      (\<lambda>old. prepare_put st1 ix1 key old doc) (st1, d) = (Inr wr, (st', d'))"
    by (cases r) (auto simp: put_schema_def split: sum.splits)
  have "sci_schema ix1 = s" using ensure_effect(5) [OF en assms(2)] k(1) by simp
  with k(2) show ?thesis by (auto simp: planned_write_def then_op_def split: prod.splits sum.splits)
qed

lemma delete_schema_effect:
  assumes "delete_schema cf fl s pk opts (st, d) = (res, (st', d'))" and "schema_store_inv st"
  shows "schema_store_inv st' \<and> (case res of
      Inl e \<Rightarrow> get_raw st' = get_raw st
    | Inr wr \<Rightarrow> \<exists>key. schema_primary_key_raw_key s pk = Inr key \<and> document_written s key None opts wr st st')"
proof (cases "schema_primary_key_raw_key s pk")
  case (Inl e)
  with assms show ?thesis by (auto simp: delete_schema_def)
next
  case (Inr key)
  obtain r1 st1 where en: "ensure_schema_indexes s st = (r1, st1)" by fastforce
  note e = ensure_effect [OF en assms(2)]
  note same = ensure_reads [OF e(3)]
  show ?thesis
  proof (cases r1)
    case (Inl x)
    with assms(1) Inr en e(1) same show ?thesis by (auto simp: delete_schema_def)
  next
    case ix: (Inr ix)
    then have reg: "schema_indexes_for_collection st1 (s_name s) = Some ix" "sci_schema ix = s" using e(5) by simp_all
    have w: "planned_write cf fl s ix key None opts (\<lambda>old. prepare_delete st1 ix old) (st1, d) = (res, (st', d'))"
      using assms(1) Inr en ix by (simp add: delete_schema_def)
    have "plan_for st1 ix old None plan \<and> storable st1 ix key None None" if "prepare_delete st1 ix old = Inr plan" for old plan
      using prepare_delete_plan [OF that] by (simp add: storable_def)
    note pw = planned_write_effect [OF e(1) reg w this] and key = Inr
    show ?thesis
    proof (cases res)
      case (Inl x)
      with pw have "st_collections st' = st_collections st1" by simp
      from same_reads [OF this] pw Inl same show ?thesis by simp
    next
      case (Inr wr)
      with pw key same show ?thesis by (simp add: document_written_def)
    qed
  qed
qed

lemma create_schema_inv:
  assumes "create_schema_collection s st = (res, st')" and "schema_store_inv st"
  shows "schema_store_inv st'" and "get_raw st' coll key = Inr (Some r) \<longleftrightarrow> get_raw st coll key = Inr (Some r)"
proof -
  have "schema_store_inv st' \<and> (\<forall>coll key r. get_raw st' coll key = Inr (Some r) \<longleftrightarrow> get_raw st coll key = Inr (Some r))"
  proof (cases "and_then (validate_schema s) (\<lambda>_. new_indexes s)")
    case (Inl e)
    with assms show ?thesis by (auto simp: create_schema_collection_def)
  next
    case (Inr ix)
    then have ix: "new_indexes s = Inr ix" by (auto simp: and_then_Inr_iff)
    have ok: "store_ok st" using assms(2) by (simp add: schema_store_inv_def)
    obtain r1 st1 where c: "create_raw_collection (s_name s) st = (r1, st1)" by fastforce
    note e = create_effect [OF c ok]
    show ?thesis
    proof (cases r1)
      case (Inl x)
      with e have "st1 = st" by simp
      with Inl assms Inr c show ?thesis by (auto simp: create_schema_collection_def then_op_def)
    next
      case cid: (Inr cid)
      with e have app: "map_of (st_collections st) (s_name s) = None"
        "st_collections st1 = st_collections st @ [(s_name s, rc_with_capacity (raw_initial_capacity (st_config st)))]"
        "store_ok st1" "st_schema_indexes st1 = st_schema_indexes st" by simp_all
      have reads: "get_raw st1 coll key = Inr (Some r) \<longleftrightarrow> get_raw st coll key = Inr (Some r)" for coll key r
        using app(1,2) by (cases "coll = s_name s")
          (auto simp: get_raw_def raw_collection_of_def and_then_Inr_iff rc_get_def new_lookup map_add_def split: option.splits)
      have inv1: "schema_store_inv st1"
      proof -
        have "schema_ok st1 ix'" if "schema_ok st ix'" for ix'
          using that by (rule schema_ok_mono) (simp_all add: reads registry_le_def same_registry [OF app(4)])
        with assms(2) app(3) reads show ?thesis by (simp add: schema_store_inv_def same_registry [OF app(4)])
      qed
      have "st' = st1 \<or> st' = set_schema_indexes (s_name s) ix st1 \<and> schema_indexes_for_collection st1 (s_name s) = None"
        using assms(1) Inr c cid
        by (auto simp: create_schema_collection_def then_op_def install_schema_indexes_def ret_def schema_indexes_for_collection_def
            split: option.splits if_splits)
      with inv1 register_inv(1) [OF inv1 _ ix] reads show ?thesis by auto
    qed
  qed
  then show "schema_store_inv st'" "get_raw st' coll key = Inr (Some r) \<longleftrightarrow> get_raw st coll key = Inr (Some r)" by auto
qed

section \<open>Reachable stores\<close>

text \<open>
  The operations on schema collections, in any order, on a store that starts empty. A partial update
  is a read and a conditional write with steps of others in between, so it is covered by its parts.
\<close>

inductive schema_step :: "crc_functions \<Rightarrow> engine \<Rightarrow> engine \<Rightarrow> bool" for cf where
  create: "create_schema_collection s st = (res, st') \<Longrightarrow> schema_step cf (st, d) (st', d)"
| put: "put_schema cf fl s doc opts e = (res, e') \<Longrightarrow> wf_value doc \<Longrightarrow> schema_step cf e e'"
| delete: "delete_schema cf fl s pk opts e = (res, e') \<Longrightarrow> schema_step cf e e'"
| get: "get_schema s pk st = (res, st') \<Longrightarrow> schema_step cf (st, d) (st', d)"
| lookup: "lookup_schema s fld v st = (out, st') \<Longrightarrow> schema_step cf (st, d) (st', d)"
| sync: "sync_wal cf fl e = (res', e') \<Longrightarrow> schema_step cf e e'"

inductive schema_reachable :: "crc_functions \<Rightarrow> engine \<Rightarrow> bool" for cf where
  opened: "open_memory config = Inr st \<Longrightarrow> schema_reachable cf (st, d)"
| stepped: "schema_reachable cf e \<Longrightarrow> schema_step cf e e' \<Longrightarrow> schema_reachable cf e'"

lemma open_inv: "open_memory config = Inr st \<Longrightarrow> schema_store_inv st"
  using store_ok_open [of config st]
  by (auto simp: open_memory_def and_then_Inr_iff schema_store_inv_def schema_indexes_for_collection_def
      get_raw_def raw_collection_of_def)

lemma schema_step_inv:
  assumes "schema_step cf e e'" and "schema_store_inv (fst e)"
  shows "schema_store_inv (fst e')"
  using assms
proof cases
  case (create s st res st' d)
  with assms(2) create_schema_inv(1) show ?thesis by auto
next
  case (put fl s doc opts res)
  then show ?thesis using assms(2) put_schema_effect [of cf fl s doc opts "fst e" "snd e" res "fst e'" "snd e'"] by simp
next
  case (delete fl s pk opts res)
  then show ?thesis using assms(2) delete_schema_effect [of cf fl s pk opts "fst e" "snd e" res "fst e'" "snd e'"] by simp
next
  case (get s pk st res st' d)
  then show ?thesis using assms(2)
    by (cases "ensure_schema_indexes s st") (auto simp: get_schema_def dest: ensure_effect(1) split: sum.splits)
next
  case (lookup s fld v st out st' d)
  then show ?thesis using assms(2)
    by (cases "ensure_schema_indexes s st") (auto simp: lookup_schema_def dest: ensure_effect(1) split: sum.splits)
next
  case (sync fl res)
  obtain st d st' d' where e: "e = (st, d)" "e' = (st', d')" by fastforce
  with sync obtain du where "st' = st\<lparr>st_durability := du\<rparr>" using on_durability_frame unfolding sync_wal_def by blast
  with assms(2) e show ?thesis by (intro inv_same [OF assms(2)]) (simp_all add: schema_store_inv_def)
qed

lemma reachable_inv: "schema_reachable cf e \<Longrightarrow> schema_store_inv (fst e)"
  by (induction rule: schema_reachable.induct) (auto intro: open_inv schema_step_inv)

end
