(* ===== verification/Schema_Query.thy ===== *)
theory Schema_Query
  imports Schema_Store
begin

text \<open>
  Reading through the maps of a schema collection: a lookup in an exact index and the reverse of a
  reference return what a scan of the documents returns, and a rebuild makes the maps agree with the
  documents again, whatever they held before.
\<close>

section \<open>Lookups\<close>

text \<open>The documents of a collection that satisfy a condition, as a lookup reports them.\<close>

definition scan_documents :: "mfs_store \<Rightarrow> schema \<Rightarrow> (schema_value \<Rightarrow> bool) \<Rightarrow> schema_lookup_result set" where
  "scan_documents st s P = {\<lparr>lr_primary_key = key, lr_document = doc, lr_version = rr_version r\<rparr> | key doc r.
     get_raw st (s_name s) key = Inr (Some r) \<and> decode_schema_raw_value s (rr_value r) = Inr doc \<and> P doc}"

definition field_has :: "schema \<Rightarrow> schema_field \<Rightarrow> schema_exact_index_key \<Rightarrow> schema_value \<Rightarrow> bool" where
  "field_has s f k doc \<longleftrightarrow> (\<exists>v. field doc (f_name f) = Some v \<and> v \<noteq> SV_Null
     \<and> index_key_from_value (s_name s) (f_name f) (f_type f) v = Inr k)"

lemma find_named_nth:
  "distinct (map name_of fs) \<Longrightarrow> j < length fs \<Longrightarrow> find_named name_of (name_of (fs ! j)) i fs = Some (i + j, fs ! j)"
proof (induction fs arbitrary: i j)
  case (Cons f fs)
  then show ?case using nth_mem [of "j - 1" fs] by (cases j) (auto simp: image_iff)
qed simp

lemma shape_fields:
  assumes "shape_ok ix"
  shows "wf_schema (sci_schema ix)" and "distinct (map ix_name (sci_indexed_fields ix))"
    and "f \<in> set (s_fields (sci_schema ix)) \<Longrightarrow> f_indexed f \<or> f_unique f \<Longrightarrow>
      \<lparr>ix_name = f_name f, ix_type = f_type f, ix_unique = f_unique f\<rparr> \<in> set (sci_indexed_fields ix)"
    and "refs_fields (sci_references ix) = refs_fields (new_references (sci_schema ix))"
proof -
  let ?s = "sci_schema ix"
  from assms obtain ix0 where ix0: "new_indexes ?s = Inr ix0" "sci_indexed_fields ix = sci_indexed_fields ix0"
    "refs_fields (sci_references ix) = refs_fields (sci_references ix0)"
    by (auto simp: shape_ok_def)
  then show wf: "wf_schema ?s" using new_indexes_fields(2) by blast
  have fs: "sci_indexed_fields ix = map (\<lambda>f. \<lparr>ix_name = f_name f, ix_type = f_type f, ix_unique = f_unique f\<rparr>)
      (filter (\<lambda>f. f_indexed f \<or> f_unique f) (s_fields ?s))"
    "sci_references ix0 = new_references ?s"
    using ix0(1) unfolding ix0(2) by (auto simp: new_indexes_def and_then_Inr_iff Let_def split: option.splits)
  then show "refs_fields (sci_references ix) = refs_fields (new_references ?s)" using ix0(3) by simp
  have "distinct (map f_name (s_fields ?s))" using wf by (simp add: wf_schema_def)
  then show "distinct (map ix_name (sci_indexed_fields ix))"
    unfolding fs by (simp add: comp_def List.distinct_map_filter)
  show "f \<in> set (s_fields ?s) \<Longrightarrow> f_indexed f \<or> f_unique f \<Longrightarrow>
      \<lparr>ix_name = f_name f, ix_type = f_type f, ix_unique = f_unique f\<rparr> \<in> set (sci_indexed_fields ix)"
    unfolding fs by auto
qed

text \<open>The result a key stands for; the fallback is never used on the keys of an index.\<close>

definition result_at :: "mfs_store \<Rightarrow> schema \<Rightarrow> raw_key \<Rightarrow> schema_lookup_result" where
  "result_at st s key = (case get_schema_by_raw_key st s key of
     Inr (Some r) \<Rightarrow> \<lparr>lr_primary_key = key, lr_document = sr_document r, lr_version = sr_version r\<rparr>
   | _ \<Rightarrow> \<lparr>lr_primary_key = key, lr_document = SV_Null, lr_version = 0\<rparr>)"

lemma result_at_key [simp]: "lr_primary_key (result_at st s key) = key"
  by (simp add: result_at_def split: sum.splits option.splits)

lemma get_by_key_stored:
  assumes "get_raw st (s_name s) key = Inr (Some r)" and "decode_schema_raw_value s (rr_value r) = Inr doc"
  shows "get_schema_by_raw_key st s key = Inr (Some \<lparr>sr_document = doc, sr_version = rr_version r\<rparr>)"
    and "result_at st s key = \<lparr>lr_primary_key = key, lr_document = doc, lr_version = rr_version r\<rparr>"
  using assms by (simp_all add: get_schema_by_raw_key_def result_at_def)

lemma matches_term:
  assumes "field_term (s_name (sci_schema ix)) f doc = Some k"
  shows "document_matches_index ix f k doc = Inr True"
  using assms by (auto simp: field_term_def document_matches_index_def split: option.splits if_splits sum.splits)

lemma lookup_from_holders:
  assumes "documents_ok st ix" and "sci_schema ix = s"
    and "set keys \<subseteq> holders (\<lambda>_. field_term (s_name s) f) (stored_document st s) i k"
  shows "lookup_from st s ix f k keys = Inr (map (result_at st s) keys)"
  using assms(3)
proof (induction keys)
  case (Cons key keys)
  then obtain doc where doc: "stored_document st s key = Some doc" "field_term (s_name s) f doc = Some k"
    by (auto simp: holders_def)
  from stored_documentD [OF assms(1), of key doc] doc(1) assms(2) obtain r where
    r: "get_raw st (s_name s) key = Inr (Some r)" "decode_schema_raw_value s (rr_value r) = Inr doc"
      "schema_document_raw_key s doc = Inr key" by auto
  have "document_matches_index ix f k doc = Inr True" using matches_term doc(2) assms(2) by blast
  with Cons r get_by_key_stored [OF r(1,2)] show ?case by simp
qed simp

lemma scan_holders:
  "result_at st s ` holders (\<lambda>_. t) (stored_document st s) i k = scan_documents st s (\<lambda>doc. t doc = Some k)"
proof -
  have "x \<in> scan_documents st s (\<lambda>doc. t doc = Some k)" if k: "key \<in> holders (\<lambda>_. t) (stored_document st s) i k"
    and x: "x = result_at st s key" for x key
  proof -
    from k obtain doc where doc: "stored_document st s key = Some doc" "t doc = Some k" by (auto simp: holders_def)
    then obtain r where "get_raw st (s_name s) key = Inr (Some r)" "decode_schema_raw_value s (rr_value r) = Inr doc"
      by (auto simp: stored_document_def split: sum.splits option.splits)
    with doc(2) x show ?thesis using get_by_key_stored(2) by (auto simp: scan_documents_def)
  qed
  moreover have "x \<in> result_at st s ` holders (\<lambda>_. t) (stored_document st s) i k"
    if x: "x \<in> scan_documents st s (\<lambda>doc. t doc = Some k)" for x
  proof -
    from x obtain key doc r where r: "get_raw st (s_name s) key = Inr (Some r)" "decode_schema_raw_value s (rr_value r) = Inr doc"
      "t doc = Some k" "x = \<lparr>lr_primary_key = key, lr_document = doc, lr_version = rr_version r\<rparr>"
      by (auto simp: scan_documents_def)
    then have "key \<in> holders (\<lambda>_. t) (stored_document st s) i k" by (simp add: holders_def stored_document_def)
    moreover have "x = result_at st s key" using get_by_key_stored(2) [OF r(1,2)] r(4) by simp
    ultimately show ?thesis by blast
  qed
  ultimately show ?thesis by blast
qed

lemma sorted_results:
  assumes "distinct keys" and "\<And>key. key \<in> set keys \<Longrightarrow> key_of (res key) = key"
  shows "sorted_wrt (\<lambda>a b. key_of a < key_of b) (sort_key key_of (map res keys))"
proof -
  have "map key_of (map res keys) = keys" using assms(2) by (simp add: map_idI)
  then have "distinct (map key_of (sort_key key_of (map res keys)))"
    using assms(1) by (metis distinct_sort distinct_map set_sort)
  moreover have "sorted (map key_of (sort_key key_of (map res keys)))" by simp
  ultimately have "sorted_wrt (<) (map key_of (sort_key key_of (map res keys)))" by (simp add: strict_sorted_iff)
  then show ?thesis by (simp add: sorted_wrt_map)
qed

text \<open>A lookup follows the keys of the index; when they hold the term, all of them are reported.\<close>

lemma lookup_follows_index:
  assumes "schema_indexes_for_collection st (s_name s) = Some ix" and "sci_schema ix = s"
    and "shape_ok ix" and "documents_ok st ix"
    and "f \<in> set (s_fields s)" and "f_indexed f \<or> f_unique f"
    and "index_key_from_value (s_name s) (f_name f) (f_type f) v = Inr k"
  shows "\<exists>i < length (sci_indexed_fields ix). (\<forall>doc. index_term ix i doc = Some k \<longleftrightarrow> field_has s f k doc)
    \<and> (set (keys_at (sci_indexes ix) i k) \<subseteq> holders (index_term ix) (stored_document st s) i k \<longrightarrow>
      lookup_schema s (f_name f) v st = (Inr (sort_key lr_primary_key (map (result_at st s) (keys_at (sci_indexes ix) i k))), st))"
proof -
  let ?f = "\<lparr>ix_name = f_name f, ix_type = f_type f, ix_unique = f_unique f\<rparr>"
  note sh = shape_fields [OF assms(3)]
  have "?f \<in> set (sci_indexed_fields ix)" using sh(3) assms(2,5,6) by simp
  then obtain i where i: "i < length (sci_indexed_fields ix)" "sci_indexed_fields ix ! i = ?f" by (auto simp: in_set_conv_nth)
  let ?keys = "keys_at (sci_indexes ix) i k"
  have ens: "ensure_schema_indexes s st = (Inr ix, st)"
    using assms(1,2) sh(1) by (simp add: ensure_schema_indexes_def)
  have "find_named ix_name (f_name f) 0 (sci_indexed_fields ix) = Some (i, ?f)"
    using find_named_nth [OF sh(2) i(1), of 0] i(2) by simp
  then have lk: "lookup_keys ix (f_name f) v = Inr (i, k, ?keys)"
    using assms(2,7) by (simp add: lookup_keys_def index_keys_at)
  have t: "index_term ix i = field_term (s_name s) ?f" using i(2) assms(2) by (simp add: index_term_def)
  have has: "index_term ix i doc = Some k \<longleftrightarrow> field_has s f k doc" for doc
    by (auto simp: t field_term_def field_has_def split: option.splits sum.splits)
  have "lookup_schema s (f_name f) v st = (Inr (sort_key lr_primary_key (map (result_at st s) ?keys)), st)"
    if "set ?keys \<subseteq> holders (index_term ix) (stored_document st s) i k"
  proof -
    have "set ?keys \<subseteq> holders (\<lambda>_. field_term (s_name s) ?f) (stored_document st s) i k"
      using that t by (simp add: holders_def)
    from lookup_from_holders [OF assms(4,2) this] ens lk i(2) show ?thesis by (simp add: lookup_schema_def)
  qed
  with i(1) has show ?thesis by blast
qed

lemma lookup_effect:
  assumes "schema_indexes_for_collection st (s_name s) = Some ix" and "sci_schema ix = s" and "schema_ok st ix"
    and "f \<in> set (s_fields s)" and "f_indexed f \<or> f_unique f"
    and "index_key_from_value (s_name s) (f_name f) (f_type f) v = Inr k"
  shows "\<exists>out. lookup_schema s (f_name f) v st = (Inr out, st)
    \<and> sorted_wrt (\<lambda>a b. lr_primary_key a < lr_primary_key b) out \<and> set out = scan_documents st s (field_has s f k)"
proof -
  have ok: "shape_ok ix" "documents_ok st ix" "maps_ok st ix (stored_document st s)"
    using assms(2,3) by (simp_all add: schema_ok_def)
  obtain i where i: "i < length (sci_indexed_fields ix)" and has: "\<forall>doc. index_term ix i doc = Some k \<longleftrightarrow> field_has s f k doc"
    and run: "set (keys_at (sci_indexes ix) i k) \<subseteq> holders (index_term ix) (stored_document st s) i k \<longrightarrow>
      lookup_schema s (f_name f) v st = (Inr (sort_key lr_primary_key (map (result_at st s) (keys_at (sci_indexes ix) i k))), st)"
    using lookup_follows_index [OF assms(1,2) ok(1,2) assms(4-6)] by (elim exE conjE) (rule that)
  let ?keys = "keys_at (sci_indexes ix) i k" and ?out = "sort_key lr_primary_key (map (result_at st s) (keys_at (sci_indexes ix) i k))"
  have keys: "distinct ?keys" "set ?keys = holders (index_term ix) (stored_document st s) i k"
    using ok(3) i by (simp_all add: maps_ok_def postings_ok_def)
  have "set ?out = scan_documents st s (\<lambda>doc. index_term ix i doc = Some k)"
    using scan_holders [of st s "index_term ix i" i k] keys(2) by (simp add: holders_def)
  moreover have "(\<lambda>doc. index_term ix i doc = Some k) = field_has s f k" using has by (simp add: fun_eq_iff)
  moreover have "sorted_wrt (\<lambda>a b. lr_primary_key a < lr_primary_key b) ?out" by (rule sorted_results [OF keys(1)]) simp
  ultimately show ?thesis using run keys(2) by auto
qed

section \<open>Rebuilding\<close>

definition with_maps :: "schema_collection_indexes \<Rightarrow> schema_index_map list \<Rightarrow> schema_collection_references \<Rightarrow> schema_collection_indexes" where
  "with_maps ix ixs refs = ix\<lparr>sci_indexes := ixs, sci_references := refs\<rparr>"

lemma with_maps_sel [simp]:
  "sci_schema (with_maps ix ixs refs) = sci_schema ix" "sci_indexed_fields (with_maps ix ixs refs) = sci_indexed_fields ix"
  "sci_indexes (with_maps ix ixs refs) = ixs" "sci_references (with_maps ix ixs refs) = refs"
  by (simp_all add: with_maps_def)

lemma with_maps_terms:
  "index_term (with_maps ix ixs refs) = index_term ix"
  "refs_fields refs = refs_fields (sci_references ix) \<Longrightarrow> reference_term st (with_maps ix ixs refs) = reference_term st ix"
  by (simp_all add: fun_eq_iff index_term_def reference_term_def)

lemma rebuild_entries_effect:
  assumes "rebuild_entries ix pk es ixs = Inr ixs'" and "\<forall>e \<in> set es. pe_field_idx e < length ixs"
  shows "ixs' = fold (add_index_entry pk) es ixs
    \<and> (\<forall>e \<in> set es. ix_unique (sci_indexed_fields ix ! pe_field_idx e) \<longrightarrow>
         set (keys_at ixs (pe_field_idx e) (pe_key e)) \<subseteq> {pk})"
  using assms
proof (induction es arbitrary: ixs)
  case (Cons e es)
  let ?i = "pe_field_idx e" and ?keys = "keys_at ixs (pe_field_idx e) (pe_key e)"
  have step: "(if ix_unique (sci_indexed_fields ix ! ?i) then find (\<lambda>existing. existing \<noteq> pk) ?keys else None) = None"
    "rebuild_entries ix pk es (add_index_entry pk e ixs) = Inr ixs'"
    using Cons.prems(1) by (simp_all add: Let_def keys_at_def keys_in_def split: option.splits if_splits)
  have add: "add_index_entry pk e ixs = add_at pk (index_entry e) ixs" using index_entry_folds(1) [of pk "[e]" ixs] by simp
  have "set (keys_at ixs i k) \<subseteq> set (keys_at (add_index_entry pk e ixs) i k)" if "i < length ixs" for i k
    using that by (auto simp: add keys_at_add)
  moreover have "\<forall>e' \<in> set es. pe_field_idx e' < length (add_index_entry pk e ixs)" using Cons.prems(2) by (simp add: add)
  ultimately show ?case using Cons.IH [OF step(2)] Cons.prems(2) step(1) by (fastforce simp: find_None_iff split: if_splits)
qed simp

lemma rebuild_one_effect:
  assumes "rebuild_one st ix (pk, doc) (ixs, refs) = Inr (ixs', refs')" and "m pk = None"
    and "maps_ok st (with_maps ix ixs refs) m" and "unique_ok (with_maps ix ixs refs)"
    and "refs_fields refs = refs_fields (sci_references ix)"
  shows "maps_ok st (with_maps ix ixs' refs') (m(pk \<mapsto> doc)) \<and> unique_ok (with_maps ix ixs' refs')
    \<and> refs_fields refs' = refs_fields (sci_references ix)
    \<and> (\<exists>es. document_entries st (sci_schema ix) (sci_references ix) doc = Inr es)"
proof -
  let ?cur = "with_maps ix ixs refs" and ?n = "length (sci_indexed_fields ix)"
  from assms(1) obtain es rs where es: "document_index_entries ix doc = Inr es" "rebuild_entries ix pk es ixs = Inr ixs'"
    "document_entries st (sci_schema ix) (sci_references ix) doc = Inr rs" "refs' = fold (add_reference pk) rs refs"
    by (auto simp: rebuild_one_def rebuild_document_def and_then_Inr_iff)
  have len: "length ixs = ?n" using assms(3) by (simp add: maps_ok_def postings_ok_def)
  have terms: "index_entry ` set es = entries_of ?n (index_term ix) (Some doc)" by (rule document_index_entries_terms [OF es(1)])
  then have "\<forall>e \<in> set es. pe_field_idx e < length ixs" unfolding len by (force simp: entries_of_def index_entry_def)
  note re = rebuild_entries_effect [OF es(2) this]
  define plan where "plan = \<lparr>ip_old_entries = [], ip_new_entries = es,
    ip_reference_plan = \<lparr>rp_old_entries = [], rp_new_entries = rs\<rparr>\<rparr>"
  have cur: "apply_write pk plan ?cur = with_maps ix ixs' refs'"
    using re es(4) by (simp add: apply_write_def plan_def references_apply_write_def with_maps_def)
  have plan: "plan_for st ?cur (m pk) (Some doc) plan"
    using terms document_entries_terms [OF es(3)] assms(2,5)
    by (simp add: plan_for_def plan_def with_maps_terms)
  have "set (keys_at ixs i k) \<subseteq> {pk}" if "(i, k) \<in> entries_of ?n (index_term ix) (Some doc)" "ix_unique (sci_indexed_fields ix ! i)" for i k
    using that re unfolding terms [symmetric] by (auto simp: index_entry_def)
  then have "unique_ok (apply_write pk plan ?cur)"
    by (intro unique_after [OF assms(4,3) plan]) (simp add: with_maps_terms)
  moreover have "maps_ok st (apply_write pk plan ?cur) (m(pk := Some doc))" by (rule apply_write_maps [OF assms(3) plan])
  moreover have "refs_fields refs' = refs_fields (sci_references ix)" using es(4) assms(5) by (simp add: reference_entry_folds)
  ultimately show ?thesis using es(3) unfolding cur by auto
qed

lemma rebuild_fold_effect:
  assumes "try_fold (rebuild_one st ix) docs (ixs, refs) = Inr (ixs', refs')" and "distinct (map fst docs)"
    and "\<forall>pk \<in> fst ` set docs. m pk = None" and "maps_ok st (with_maps ix ixs refs) m" and "unique_ok (with_maps ix ixs refs)"
    and "refs_fields refs = refs_fields (sci_references ix)"
  shows "maps_ok st (with_maps ix ixs' refs') (m ++ map_of docs) \<and> unique_ok (with_maps ix ixs' refs')
    \<and> refs_fields refs' = refs_fields (sci_references ix)
    \<and> (\<forall>x \<in> set docs. \<exists>es. document_entries st (sci_schema ix) (sci_references ix) (snd x) = Inr es)"
  using assms
proof (induction docs arbitrary: ixs refs m)
  case (Cons d docs)
  obtain pk doc where d: "d = (pk, doc)" by fastforce
  with Cons.prems(1) obtain ixs1 refs1 where one: "rebuild_one st ix (pk, doc) (ixs, refs) = Inr (ixs1, refs1)"
    and rest: "try_fold (rebuild_one st ix) docs (ixs1, refs1) = Inr (ixs', refs')"
    by (auto simp: and_then_Inr_iff)
  have "m pk = None" using Cons.prems(3) d by simp
  note o = rebuild_one_effect [OF one this Cons.prems(4-6)]
  have dist: "distinct (map fst docs)" and pk: "pk \<notin> fst ` set docs" using Cons.prems(2) d by simp_all
  have free: "\<forall>q \<in> fst ` set docs. (m(pk \<mapsto> doc)) q = None" using Cons.prems(3) pk d by auto
  have "m(pk \<mapsto> doc) ++ map_of docs = m ++ map_of (d # docs)"
    using d pk map_add_upd_left [of pk "map_of docs" m doc] by (simp add: dom_map_of_conv_image_fst)
  note m = this
  note mo = o [THEN conjunct1] and uo = o [THEN conjunct2, THEN conjunct1]
    and ro = o [THEN conjunct2, THEN conjunct2, THEN conjunct1] and eo = o [THEN conjunct2, THEN conjunct2, THEN conjunct2]
  note ih = Cons.IH [where m = "m(pk \<mapsto> doc)", OF rest dist free mo uo ro]
  show ?case unfolding m [symmetric] using ih eo by (auto simp only: d list.set ball_simps snd_conv)
qed simp

text \<open>The documents a rebuild reads are those of the collection, when each is stored under its own key.\<close>

lemma live_documents_effect:
  assumes "live_documents s rs = Inr docs"
    and "\<And>r v. r \<in> set rs \<Longrightarrow> sn_value r = Some v \<Longrightarrow>
      \<exists>doc. decode_schema_raw_value s v = Inr doc \<and> schema_document_raw_key s doc = Inr (sn_key r)"
  shows "map fst docs = map sn_key (filter (\<lambda>r. sn_value r \<noteq> None) rs)
    \<and> (\<forall>x \<in> set docs. \<exists>r \<in> set rs. \<exists>v. sn_key r = fst x \<and> sn_value r = Some v \<and> decode_schema_raw_value s v = Inr (snd x))"
  using assms
proof (induction rs arbitrary: docs)
  case (Cons r rs)
  show ?case
  proof (cases "sn_value r")
    case None
    with Cons.prems Cons.IH [of docs] show ?thesis by auto
  next
    case (Some v)
    then obtain doc where doc: "decode_schema_raw_value s v = Inr doc" "schema_document_raw_key s doc = Inr (sn_key r)"
      using Cons.prems(2) [of r v] by auto
    with Cons.prems(1) Some obtain rest where rest: "live_documents s rs = Inr rest" "docs = (sn_key r, doc) # rest"
      by (auto simp: and_then_Inr_iff)
    with Cons.IH [OF rest(1)] Cons.prems(2) Some doc show ?thesis by auto
  qed
qed simp

definition own_keys :: "mfs_store \<Rightarrow> schema \<Rightarrow> bool" where
  "own_keys st s \<longleftrightarrow> (\<forall>key r. get_raw st (s_name s) key = Inr (Some r) \<longrightarrow>
     (\<exists>doc. decode_schema_raw_value s (rr_value r) = Inr doc \<and> schema_document_raw_key s doc = Inr key))"

lemma snapshot_documents:
  assumes "store_ok st" and "own_keys st s" and "find (\<lambda>c. cs_name c = s_name s) (raw_snapshot st) = Some c"
    and "live_documents s (cs_records c) = Inr docs"
  shows "distinct (map fst docs)" and "map_of docs = stored_document st s"
proof -
  from assms(3) have c: "c \<in> set (raw_snapshot st)" "cs_name c = s_name s" by (auto simp: find_Some_iff in_set_conv_nth)
  then obtain rc where rc: "(s_name s, rc) \<in> set (st_collections st)" "cs_records c = rc_snapshot_records rc"
    by (auto simp: raw_snapshot_def)
  then have m: "map_of (st_collections st) (s_name s) = Some rc" "rc_ok rc"
    using assms(1) by (auto simp: store_ok_def hm_wf_def)
  note sc = snapshot_contents [OF m(2)]
  have ds: "distinct (map sn_key (rc_snapshot_records rc))" using sc strict_sorted_iff by blast
  have lookup: "rc_lookup rc (sn_key r) = Some \<lparr>rec_value = sn_value r, rec_version = sn_version r\<rparr>"
    if "r \<in> set (rc_snapshot_records rc)" for r
  proof -
    have "map_of (map (\<lambda>s. (sn_key s, record_of_snapshot s)) (rc_snapshot_records rc)) (sn_key r) = Some (record_of_snapshot r)"
      using that ds by (intro map_of_is_SomeI) (auto simp: comp_def)
    with sc show ?thesis by (simp add: record_of_snapshot_def)
  qed
  have read: "get_raw st (s_name s) (sn_key r) = Inr (Some \<lparr>rr_value = v, rr_version = sn_version r\<rparr>)"
    if "r \<in> set (rc_snapshot_records rc)" "sn_value r = Some v" for r v
    using get_raw_read [OF m(1)] lookup [OF that(1)] that(2) by (simp add: read_of_def)
  have own: "\<exists>doc. decode_schema_raw_value s v = Inr doc \<and> schema_document_raw_key s doc = Inr (sn_key r)"
    if "r \<in> set (rc_snapshot_records rc)" "sn_value r = Some v" for r v
    using read [OF that] assms(2) by (fastforce simp: own_keys_def)
  have l: "map fst docs = map sn_key (filter (\<lambda>r. sn_value r \<noteq> None) (rc_snapshot_records rc))
    \<and> (\<forall>x \<in> set docs. \<exists>r \<in> set (rc_snapshot_records rc). \<exists>v. sn_key r = fst x \<and> sn_value r = Some v
         \<and> decode_schema_raw_value s v = Inr (snd x))"
    by (rule live_documents_effect [OF assms(4), unfolded rc(2)]) (rule own)
  then show dist: "distinct (map fst docs)" using ds by (simp add: List.distinct_map_filter)
  have "map_of docs key = Some doc" if "stored_document st s key = Some doc" for key doc
  proof -
    from that obtain r0 where r0: "get_raw st (s_name s) key = Inr (Some r0)" "decode_schema_raw_value s (rr_value r0) = Inr doc"
      by (auto simp: stored_document_def split: sum.splits option.splits)
    then obtain rec where rec: "rc_lookup rc key = Some rec" "rec_value rec = Some (rr_value r0)"
      using get_raw_read [OF m(1), of key] by (auto simp: read_of_def split: option.splits)
    have "map_of (map (\<lambda>s. (sn_key s, record_of_snapshot s)) (rc_snapshot_records rc)) key = Some rec"
      using sc rec(1) by simp
    from map_of_SomeD [OF this] obtain r where r: "r \<in> set (rc_snapshot_records rc)" "sn_key r = key" by auto
    then have "sn_value r = Some (rr_value r0)" using lookup [OF r(1)] rec by auto
    with r have "key \<in> set (map sn_key (filter (\<lambda>r. sn_value r \<noteq> None) (rc_snapshot_records rc)))" by auto
    then have "key \<in> set (map fst docs)" using l by (elim conjE) (simp only:)
    then obtain doc' where d': "(key, doc') \<in> set docs" by auto
    with l obtain r' v' where r': "r' \<in> set (rc_snapshot_records rc)" "sn_key r' = key" "sn_value r' = Some v'" "decode_schema_raw_value s v' = Inr doc'"
      by fastforce
    have "v' = rr_value r0" using lookup [OF r'(1)] rec r' by simp
    with r'(4) r0(2) have "doc' = doc" by simp
    with d' dist show ?thesis by simp
  qed
  moreover have "stored_document st s key = Some doc" if "map_of docs key = Some doc" for key doc
  proof -
    from map_of_SomeD [OF that] l obtain r v where "r \<in> set (rc_snapshot_records rc)" "sn_key r = key" "sn_value r = Some v"
      "decode_schema_raw_value s v = Inr doc" by fastforce
    with read [of r v] show ?thesis by (auto simp: stored_document_def)
  qed
  ultimately show "map_of docs = stored_document st s" by (intro ext option_eqI) blast
qed

lemma stored_document_cong: "get_raw st' = get_raw st \<Longrightarrow> stored_document st' = stored_document st"
  by (simp add: fun_eq_iff stored_document_def)

text \<open>The outcome of a rebuild, before the maps are installed: they agree with the documents of the snapshot.\<close>

lemma rebuild_effect:
  assumes "rebuild_schema_indexes s others (st, d) = (Inr n, (st', d'))" and "store_ok st" and "own_keys st s"
    and "\<forall>ix. schema_indexes_for_collection st (s_name s) = Some ix \<longrightarrow> shape_ok ix"
  shows "\<exists>st1 ix'. st_collections st1 = st_collections st \<and> (st', d') = apfst (set_schema_indexes (s_name s) ix') (others (st1, d))
    \<and> sci_schema ix' = s \<and> schema_ok st1 ix' \<and> n = card (dom (stored_document st s))
    \<and> (\<forall>ix. schema_indexes_for_collection st1 (s_name s) = Some ix \<longrightarrow> sci_schema ix = s)
    \<and> (schema_indexes_for_collection st (s_name s) \<noteq> None \<longrightarrow> st1 = st)"
proof -
  obtain r st1 where en: "ensure_schema_indexes s st = (r, st1)" by fastforce
  from en assms(1) obtain ix where ix: "r = Inr ix" by (cases r) (auto simp: rebuild_schema_indexes_def)
  from en have e: "st_collections st1 = st_collections st \<and> registry_le st st1 \<and> sci_schema ix = s \<and> shape_ok ix
      \<and> store_ok st1 \<and> schema_indexes_for_collection st1 (s_name s) = Some ix
      \<and> (schema_indexes_for_collection st (s_name s) \<noteq> None \<longrightarrow> st1 = st)"
  proof (cases rule: ensure_cases)
    case (present ix0)
    with ix assms(2,4) show ?thesis by simp
  next
    case (registered ix0)
    with ix assms(2) new_indexes_fields(1) show ?thesis by (auto simp: registry_le_def shape_ok_def)
  qed (use ix in simp)
  have own: "own_keys st1 s" and docs0: "stored_document st1 s = stored_document st s"
    using assms(3) same_reads [of st1 st] e by (simp_all add: own_keys_def stored_document_def fun_eq_iff)
  from assms(1) en ix obtain c docs ix' where c: "find (\<lambda>c. cs_name c = s_name s) (raw_snapshot st1) = Some c"
    "live_documents s (cs_records c) = Inr docs" "rebuild_from_documents st1 ix docs = Inr ix'" "n = length docs"
    "(st', d') = apfst (set_schema_indexes (s_name s) ix') (others (st1, d))"
    by (auto simp: rebuild_schema_indexes_def and_then_Inr_iff split: sum.splits prod.splits)
  have "store_ok st1" using e by simp
  note docs = snapshot_documents [OF this own c(1,2)]
  from c(3) obtain ixs refs where f: "ix' = with_maps ix ixs refs"
    "try_fold (rebuild_one st1 ix) docs (replicate (length (sci_indexed_fields ix)) [], empty_maps (sci_references ix)) = Inr (ixs, refs)"
    by (auto simp: rebuild_from_documents_def and_then_Inr_iff with_maps_def)
  let ?ix0 = "with_maps ix (replicate (length (sci_indexed_fields ix)) []) (empty_maps (sci_references ix))"
  have "maps_ok st1 ?ix0 Map.empty" by (simp add: maps_ok_def empty_maps_def postings_none forward_none)
  moreover have "unique_ok ?ix0" by (simp add: unique_ok_def keys_at_def keys_in_def)
  ultimately have r: "maps_ok st1 ix' (stored_document st1 s)" "unique_ok ix'" "refs_fields refs = refs_fields (sci_references ix)"
    "\<forall>x \<in> set docs. \<exists>es. document_entries st1 (sci_schema ix) (sci_references ix) (snd x) = Inr es"
    using rebuild_fold_effect [OF f(2) docs(1), of Map.empty] docs(2) by (simp_all add: f(1) empty_maps_def)
  have "documents_ok st1 ix'"
    unfolding documents_ok_def
  proof (intro allI impI)
    fix key raw assume g: "get_raw st1 (s_name (sci_schema ix')) key = Inr (Some raw)"
    then have "get_raw st1 (s_name s) key = Inr (Some raw)" using e f(1) by simp
    then obtain doc where doc: "decode_schema_raw_value s (rr_value raw) = Inr doc" "schema_document_raw_key s doc = Inr key"
      using own unfolding own_keys_def by blast
    then have "map_of docs key = Some doc" using g e f(1) docs(2) by (simp add: stored_document_def)
    from map_of_SomeD [OF this] r(4) obtain es where "document_entries st1 s (sci_references ix) doc = Inr es" using e by fastforce
    then show "\<exists>doc es. decode_schema_raw_value (sci_schema ix') (rr_value raw) = Inr doc
        \<and> schema_document_raw_key (sci_schema ix') doc = Inr key \<and> document_entries st1 (sci_schema ix') (sci_references ix') doc = Inr es"
      using doc e f(1) r(3) by (auto simp: document_entries_def)
  qed
  moreover have "shape_ok ix'" using e f(1) r(3) by (auto simp: shape_ok_def)
  ultimately have "schema_ok st1 ix'" using r(1,2) e f(1) by (simp add: schema_ok_def)
  moreover have "n = card (dom (stored_document st s))"
  proof -
    have "dom (stored_document st s) = dom (map_of docs)" by (simp only: docs(2) docs0)
    also have "\<dots> = set (map fst docs)" by (simp add: dom_map_of_conv_image_fst)
    finally show ?thesis using distinct_card [OF docs(1)] c(4) by simp
  qed
  ultimately show ?thesis using c(5) e f(1) by (intro exI [of _ st1] exI [of _ ix']) simp
qed

end
