(* ===== verification/Schema_Collections.thy ===== *)
theory Schema_Collections
  imports Schema_Query
begin

text \<open>
  The statements about schema collections, and a small collection on which they are instantiated: two string
  fields, the key \<open>id\<close> and the indexed \<open>tag\<close>, in a store without a log.
\<close>

lemma write_memory_only:
  assumes "store_ok st" and "map_of (st_collections st) coll = Some rc"
    and "actual = (case rc_lookup rc key of Some r \<Rightarrow> rec_version r | None \<Rightarrow> 0)" and "expected_version opts \<in> {None, Some actual}"
    and "effective_durability opts (cfg_durability (st_config st)) = MemoryOnly"
    and "preflight (Option.bind (rc_lookup rc key) rec_value) actual = Inr plan"
    and "can_insert_or_replace hash_bytes key (rc_records rc)"
  shows "\<exists>wr st'. write_with_hooks cf fl coll key v opts preflight (st, d) = (Inr (wr, plan), (st', d))"
proof -
  have ok: "rc_ok rc" using assms(1,2) by (simp add: store_ok_def)
  obtain oc rc' where i: "rc_insert key \<lparr>rec_value = v, rec_version = next_version actual\<rparr> (Option.bind (rc_lookup rc key) rec_value) rc = (oc, rc')"
    by fastforce
  then have "oc \<noteq> Full" using fits_not_full [OF ok assms(7)] by (metis fst_conv)
  moreover have "on_durability (acknowledge_write cf fl MemoryOnly coll key v (next_version actual)) (st, d) = (Inr AckMemoryOnly, (st, d))"
    by (simp add: on_durability_def acknowledge_write_def ret_def)
  ultimately show ?thesis
    using assms(2-7) i unfolding write_with_hooks_def
    by (cases oc) (auto simp: raw_collection_of_def Let_def)
qed

lemma present_fits:
  assumes "rc_ok rc" and "rc_lookup rc key \<noteq> None"
  shows "can_insert_or_replace hash_bytes key (rc_records rc)"
proof (rule ccontr)
  assume no: "\<not> can_insert_or_replace hash_bytes key (rc_records rc)"
  define v where "v = \<lparr>rec_value = None, rec_version = 0\<rparr>"
  obtain r old m' where i: "insert_inner hash_bytes key v (rc_records rc) = ((r, old), m')" by (metis prod.exhaust)
  have wf: "cm_wf hash_bytes (rc_records rc)" using assms(1) by (simp add: rc_ok_def insert_only_def)
  have "r = Full" using no can_insert_iff [of hash_bytes key "rc_records rc" v] i by (simp add: cm_insert_def)
  then show False using insert_inner_effect(5) [OF wf i] assms(2) by (simp add: rc_lookup_def)
qed

lemma put_memory_only:
  assumes "store_ok st" and "map_of (st_collections st) (s_name s) = Some rc"
    and "schema_indexes_for_collection st (s_name s) = Some ix" and "sci_schema ix = s"
    and "validate_document s doc = Inr ()" and "schema_document_raw_key s doc = Inr key"
    and "effective_durability opts (cfg_durability (st_config st)) = MemoryOnly" and "can_insert_or_replace hash_bytes key (rc_records rc)"
    and "old_document s (Option.bind (rc_lookup rc key) rec_value) = Inr old" and "prepare_put st ix key old doc = Inr plan"
    and "expected_version opts \<in> {None, Some (record_version st (s_name s) key)}"
  shows "\<exists>wr st'. put_schema cf fl s doc opts (st, d) = (Inr wr, (st', d))"
proof -
  have "ensure_schema_indexes s st = (Inr ix, st)"
    using assms(3,4) valid_document_wf [OF assms(5)] by (simp add: ensure_schema_indexes_def)
  moreover have "\<exists>wr st'. write_with_hooks cf fl (s_name s) key (Some (encoded doc)) opts
      (\<lambda>old_raw _. and_then (old_document s old_raw) (\<lambda>old. prepare_put st ix key old doc)) (st, d) = (Inr (wr, plan), (st', d))"
    by (rule write_memory_only [OF assms(1,2) refl])
      (use assms(2,7-11) in \<open>simp_all add: record_version_def store_lookup_def\<close>)
  ultimately show ?thesis using assms(5,6) by (auto simp: put_schema_def planned_write_def then_op_def)
qed

section \<open>The sample\<close>

definition tag_schema :: schema where
  "tag_schema = \<lparr>s_name = ''c'', s_fields =
     [SchemaField ''id'' FT_String True False False True False None False False,
      SchemaField ''tag'' FT_String False True True True False None False False],
     enable_nested_fields = False, default_sort_field = None\<rparr>"

definition tag_document :: schema_value where
  "tag_document = SV_Object [(''id'', SV_String ''a''), (''tag'', SV_String ''t'')]"

definition tag_key :: raw_key where
  "tag_key = 0 # as_bytes ''a''"

definition memory_config :: mfs_store_config where
  "memory_config = default_store_config\<lparr>raw_initial_capacity := 1\<rparr>"

definition opened_store :: mfs_store where
  "opened_store = \<lparr>st_config = memory_config, st_durability = new_durability memory_config, st_collections = [],
     st_schema_indexes = [], st_next_collection_id = 1\<rparr>"

definition tag_indexes :: schema_collection_indexes where
  "tag_indexes = \<lparr>sci_schema = tag_schema, sci_indexed_fields = [\<lparr>ix_name = ''tag'', ix_type = FT_String, ix_unique = False\<rparr>],
     sci_indexes = [[]], sci_references = \<lparr>refs_fields = [], refs_forward = [], refs_reverse = []\<rparr>\<rparr>"

definition created_store :: mfs_store where
  "created_store = opened_store\<lparr>st_next_collection_id := 2, st_collections := [(''c'', rc_with_capacity 1)],
     st_schema_indexes := [(''c'', tag_indexes)]\<rparr>"

lemma tag_schema_valid: "validate tag_schema = Inr ()"
  by code_simp

lemma tag_indexes_new: "new_indexes tag_schema = Inr tag_indexes"
  using tag_schema_valid
  by (simp add: new_indexes_def validate_schema_def tag_schema_def tag_indexes_def new_references_def
      is_exact_index_type_def List.map_filter_def)

lemma sample_opened: "open_memory memory_config = Inr opened_store"
  by (simp add: open_memory_def validate_store_config_def opened_store_def memory_config_def default_store_config_def
      default_max_collections_def)

lemma sample_created: "create_schema_collection tag_schema opened_store = (Inr 1, created_store)"
proof -
  have n: "s_name tag_schema = ''c''" by (simp add: tag_schema_def)
  show ?thesis using tag_schema_valid
    by (simp add: create_schema_collection_def tag_indexes_new validate_schema_def then_op_def install_schema_indexes_def
        create_raw_collection_def n opened_store_def created_store_def ret_def set_schema_indexes_def
        memory_config_def default_store_config_def default_max_collections_def hm_insert_def)
qed

lemma tag_document_valid: "validate_document tag_schema tag_document = Inr ()"
  by code_simp

lemma tag_document_key: "schema_document_raw_key tag_schema tag_document = Inr tag_key"
  by code_simp

lemma tag_document_wf: "wf_value tag_document"
  by code_simp

lemma sample_prepared:
  "prepare_put created_store tag_indexes tag_key None tag_document = Inr
     \<lparr>ip_old_entries = [], ip_new_entries = [\<lparr>pe_field_idx = 0, pe_key = IK_String ''t''\<rparr>],
      ip_reference_plan = \<lparr>rp_old_entries = [], rp_new_entries = []\<rparr>\<rparr>"
proof -
  have "document_index_entries tag_indexes tag_document = Inr [\<lparr>pe_field_idx = 0, pe_key = IK_String ''t''\<rparr>]"
    by code_simp
  then show ?thesis
    by (simp add: prepare_put_def references_prepare_put_def entries_of_old_def document_entries_def tag_indexes_def)
qed

lemma created_store_inv: "schema_store_inv created_store"
  using create_schema_inv(1) [OF sample_created open_inv [OF sample_opened]] .

lemma created_store_fields:
  "map_of (st_collections created_store) (s_name tag_schema) = Some (rc_with_capacity 1)"
  "schema_indexes_for_collection created_store (s_name tag_schema) = Some tag_indexes"
  "sci_schema tag_indexes = tag_schema" "cfg_durability (st_config created_store) = MemoryOnly" "store_ok created_store"
  using created_store_inv
  by (simp_all add: created_store_def tag_schema_def schema_indexes_for_collection_def tag_indexes_def opened_store_def
      memory_config_def default_store_config_def schema_store_inv_def)

lemma sample_put: "\<exists>wr st'. put_schema cf fl tag_schema tag_document default_write_options (created_store, d) = (Inr wr, (st', d))"
  by (rule put_memory_only [OF created_store_fields(5,1-3) tag_document_valid tag_document_key
        _ _ _ sample_prepared])
    (simp_all add: created_store_fields(4) effective_durability_def rc_with_capacity_def new_table_fits default_write_options_def
      old_document_def new_lookup [unfolded rc_with_capacity_def])

lemma sample_reachable: "schema_reachable cf (created_store, d)"
  using schema_reachable.opened [OF sample_opened] schema_step.create [OF sample_created] by (rule schema_reachable.stepped)

text \<open>The store with the one document.\<close>

lemma sample_written:
  obtains wr st ix where "put_schema plain_crc no_faults tag_schema tag_document default_write_options (created_store, new_disk)
      = (Inr wr, (st, new_disk))"
    and "schema_store_inv st" and "stored_document st tag_schema = [tag_key \<mapsto> tag_document]"
    and "schema_indexes_for_collection st (s_name tag_schema) = Some ix" and "sci_schema ix = tag_schema" and "schema_ok st ix"
proof -
  obtain wr st where p: "put_schema plain_crc no_faults tag_schema tag_document default_write_options (created_store, new_disk)
      = (Inr wr, (st, new_disk))" using sample_put by blast
  note e = put_schema_effect [OF p created_store_inv tag_document_wf, simplified]
  have "stored_document created_store tag_schema = Map.empty"
    using get_raw_read [OF created_store_fields(1)] by (simp add: fun_eq_iff stored_document_def new_lookup read_of_def)
  then have doc: "stored_document st tag_schema = [tag_key \<mapsto> tag_document]"
    using e tag_document_key by (auto simp: document_written_def)
  obtain ix where ix: "schema_indexes_for_collection st (s_name tag_schema) = Some ix" "sci_schema ix = tag_schema"
    using put_registers [OF p created_store_inv created_store_fields(2,3)] by blast
  with e have "schema_ok st ix" by (simp add: schema_store_inv_def)
  with p e doc ix show ?thesis by (intro that) simp_all
qed

lemma sample_field:
  "f = SchemaField ''tag'' FT_String False True True True False None False False \<Longrightarrow>
     f \<in> set (s_fields tag_schema) \<and> f_indexed f \<and> f_name f = ''tag''
   \<and> index_key_from_value (s_name tag_schema) (f_name f) (f_type f) (SV_String ''t'') = Inr (IK_String ''t'')
   \<and> field_has tag_schema f (IK_String ''t'') tag_document"
proof -
  assume f: "f = SchemaField ''tag'' FT_String False True True True False None False False"
  have "field tag_document ''tag'' = Some (SV_String ''t'')" by code_simp
  with f show ?thesis by (simp add: tag_schema_def index_key_from_value_def field_has_def)
qed

lemma new_snapshot: "rc_snapshot_records (rc_with_capacity n) = []"
proof -
  have "map_of (map (\<lambda>s. (sn_key s, record_of_snapshot s)) (rc_snapshot_records (rc_with_capacity n))) = Map.empty"
    using snapshot_contents [OF rc_ok_new] new_lookup by (simp add: fun_eq_iff)
  then show ?thesis by (cases "rc_snapshot_records (rc_with_capacity n)") (auto simp: fun_eq_iff split: if_splits)
qed

lemma sample_rebuild_empty:
  "\<exists>n ix. rebuild_schema_indexes tag_schema others (created_store, d)
     = (Inr n, apfst (set_schema_indexes (s_name tag_schema) ix) (others (created_store, d)))"
proof -
  have "ensure_schema_indexes tag_schema created_store = (Inr tag_indexes, created_store)"
    using created_store_fields(2,3) tag_schema_valid by (simp add: ensure_schema_indexes_def validate_schema_def)
  moreover have "raw_snapshot created_store = [\<lparr>cs_name = ''c'', cs_records = []\<rparr>]"
    by (simp add: raw_snapshot_def created_store_def new_snapshot)
  moreover have "s_name tag_schema = ''c''" by (simp add: tag_schema_def)
  ultimately show ?thesis
    by (auto simp: rebuild_schema_indexes_def rebuild_from_documents_def apfst_def split: prod.splits)
qed

section \<open>Statements\<close>

text \<open>C38. Validation is enough for the keys: a document its schema accepts has a primary key, and every
  indexed field of it that is present and not null has an index key, so a write never fails on the
  type of a key.\<close>

theorem valid_documents_have_keys:
  assumes "validate_document s doc = Inr ()" and "new_indexes s = Inr ix"
  shows "\<exists>key es. schema_document_raw_key s doc = Inr key \<and> document_index_entries ix doc = Inr es"
  using valid_document_key [OF assms(1)] valid_document_entries [OF assms] by blast

theorem valid_documents_have_keys_witness:
  "schema_document_raw_key tag_schema tag_document = Inr tag_key \<and> (\<exists>es. document_index_entries tag_indexes tag_document = Inr es)"
  using valid_documents_have_keys [OF tag_document_valid tag_indexes_new] tag_document_key by simp

text \<open>C3. However the operations on schema collections are interleaved, starting from an empty store, the
  state of every registered schema is consistent: each document is stored under its own key and
  decodes, a unique field has at most one document per value, and the exact indexes, the forward
  and the reverse reference maps hold for every key exactly the documents that have it.\<close>

theorem schema_collections_consistent:
  assumes "schema_reachable cf (st, d)" and "schema_indexes_for_collection st name = Some ix"
  shows "s_name (sci_schema ix) = name \<and> documents_ok st ix \<and> unique_ok ix \<and> maps_ok st ix (stored_document st (sci_schema ix))"
  using reachable_inv [OF assms(1)] assms(2) by (simp add: schema_store_inv_def schema_ok_def)

theorem schema_collections_consistent_witness:
  "\<exists>st ix. stored_document st tag_schema tag_key = Some tag_document
     \<and> schema_indexes_for_collection st ''c'' = Some ix \<and> documents_ok st ix \<and> unique_ok ix"
proof -
  obtain wr st ix where p: "put_schema plain_crc no_faults tag_schema tag_document default_write_options (created_store, new_disk)
      = (Inr wr, (st, new_disk))"
    and doc: "stored_document st tag_schema = [tag_key \<mapsto> tag_document]"
    and ix: "schema_indexes_for_collection st (s_name tag_schema) = Some ix"
    by (rule sample_written)
  have r: "schema_reachable plain_crc (st, new_disk)"
    using sample_reachable schema_step.put [OF p tag_document_wf] by (rule schema_reachable.stepped)
  have "s_name tag_schema = ''c''" by (simp add: tag_schema_def)
  with schema_collections_consistent [OF r ix] doc ix show ?thesis by (intro exI [of _ st] exI [of _ ix]) simp
qed

text \<open>C6. A lookup by an indexed or unique field returns exactly the documents a scan of the collection
  finds with that value of the field, each once, in the order of their keys, and does not change the
  store.\<close>

theorem lookup_is_scan:
  assumes "schema_indexes_for_collection st (s_name s) = Some ix" and "sci_schema ix = s" and "schema_ok st ix"
    and "f \<in> set (s_fields s)" and "f_indexed f \<or> f_unique f"
    and "index_key_from_value (s_name s) (f_name f) (f_type f) v = Inr k"
  shows "\<exists>out. lookup_schema s (f_name f) v st = (Inr out, st)
    \<and> sorted_wrt (\<lambda>a b. lr_primary_key a < lr_primary_key b) out \<and> set out = scan_documents st s (field_has s f k)"
  using assms by (rule lookup_effect)

theorem lookup_is_scan_witness:
  "\<exists>st out. lookup_schema tag_schema ''tag'' (SV_String ''t'') st = (Inr out, st)
     \<and> tag_key \<in> lr_primary_key ` set out"
proof -
  let ?f = "SchemaField ''tag'' FT_String False True True True False None False False"
  obtain st ix where doc: "stored_document st tag_schema = [tag_key \<mapsto> tag_document]"
    and ix: "schema_indexes_for_collection st (s_name tag_schema) = Some ix" "sci_schema ix = tag_schema" "schema_ok st ix"
    by (rule sample_written)
  note f = sample_field [of ?f, OF refl]
  obtain out where out: "lookup_schema tag_schema (f_name ?f) (SV_String ''t'') st = (Inr out, st)"
    "set out = scan_documents st tag_schema (field_has tag_schema ?f (IK_String ''t''))"
    using lookup_is_scan [OF ix, of ?f "SV_String ''t''" "IK_String ''t''"] f by blast
  have "stored_document st tag_schema tag_key = Some tag_document" using doc by simp
  then obtain r where "get_raw st (s_name tag_schema) tag_key = Inr (Some r)"
    "decode_schema_raw_value tag_schema (rr_value r) = Inr tag_document"
    by (auto simp: stored_document_def split: sum.splits option.splits)
  with f have "\<lparr>lr_primary_key = tag_key, lr_document = tag_document, lr_version = rr_version r\<rparr> \<in> set out"
    unfolding out(2) scan_documents_def by blast
  then have "tag_key \<in> lr_primary_key ` set out" by (rule rev_image_eqI) simp
  with out(1) show ?thesis by auto
qed

text \<open>C22. A rebuild that succeeds, with no write running beside it, leaves the maps of the collection
  consistent with its documents whatever they held before, as after a recovery, and reports their
  number; only the maps change.\<close>

theorem rebuild_restores_indexes:
  assumes "store_ok st" and "own_keys st s"
    and "\<forall>ix. schema_indexes_for_collection st (s_name s) = Some ix \<longrightarrow> shape_ok ix"
    and "rebuild_schema_indexes s (\<lambda>e. e) (st, d) = (Inr n, (st', d'))"
  shows "d' = d \<and> get_raw st' = get_raw st \<and> n = card (dom (stored_document st s))
    \<and> (\<exists>ix. schema_indexes_for_collection st' (s_name s) = Some ix \<and> sci_schema ix = s \<and> schema_ok st' ix)"
proof -
  obtain st1 ix where r: "st_collections st1 = st_collections st" "(st', d') = apfst (set_schema_indexes (s_name s) ix) (st1, d)"
    "sci_schema ix = s" "schema_ok st1 ix" "n = card (dom (stored_document st s))"
    "\<forall>ix. schema_indexes_for_collection st1 (s_name s) = Some ix \<longrightarrow> sci_schema ix = s"
    using rebuild_effect [OF assms(4,1-3)] by (elim exE conjE) (rule that)
  from r(2) have st': "st' = set_schema_indexes (s_name s) ix st1" "d' = d" by simp_all
  have le: "registry_le st1 st'" by (rule registry_le_set [OF st'(1)]) (drule r(6) [rule_format], simp only: r(3))
  have "schema_ok st' ix" by (rule schema_ok_mono [OF r(4) le]) (simp add: st')
  then show ?thesis using r(3,5) same_reads [OF r(1)] by (simp add: st')
qed

theorem rebuild_restores_indexes_witness:
  "\<exists>n st' d' ix. rebuild_schema_indexes tag_schema (\<lambda>e. e) (created_store, new_disk) = (Inr n, (st', d'))
     \<and> schema_indexes_for_collection st' ''c'' = Some ix \<and> schema_ok st' ix"
proof -
  obtain n st' d' where r: "rebuild_schema_indexes tag_schema (\<lambda>e. e) (created_store, new_disk) = (Inr n, (st', d'))"
    using sample_rebuild_empty [of "\<lambda>e. e" new_disk] by (metis prod.exhaust)
  have ok: "schema_ok created_store tag_indexes" "s_name tag_schema = ''c''"
    using created_store_inv created_store_fields(2) by (simp_all add: schema_store_inv_def tag_schema_def)
  then have "own_keys created_store tag_schema"
    using created_store_fields(3) by (auto simp: schema_ok_def documents_ok_def own_keys_def)
  moreover have "\<forall>ix. schema_indexes_for_collection created_store (s_name tag_schema) = Some ix \<longrightarrow> shape_ok ix"
    using ok created_store_fields(2) by (simp add: schema_ok_def)
  ultimately show ?thesis using rebuild_restores_indexes [OF created_store_fields(5) _ _ r] r ok(2) by auto
qed

text \<open>The keys of an index that are all still held are what a lookup reports.\<close>

lemma documents_ok_shape:
  assumes "documents_ok st ix" and "shape_ok ix" and "shape_ok ix'" and "sci_schema ix' = sci_schema ix"
  shows "documents_ok st ix'"
proof -
  have "refs_fields (sci_references ix') = refs_fields (sci_references ix)"
    using shape_fields(4) [OF assms(2)] shape_fields(4) [OF assms(3)] assms(4) by simp
  with assms(1,4) show ?thesis by (simp add: documents_ok_def document_entries_def)
qed

lemma documents_ok_mono:
  assumes "documents_ok st ix" and "registry_le st st'" and "get_raw st' = get_raw st"
  shows "documents_ok st' ix"
  using assms(1) reference_entries_mono [OF assms(2)] unfolding documents_ok_def document_entries_def assms(3) by meson



end
