(* ===== verification/Schema_Update.thy ===== *)
theory Schema_Update
  imports Schema_Collections
begin

text \<open>
  Partial updates: what the field updates keep of a document, and what the retry loop of
  \<open>update_schema\<close> guarantees when other threads write between its read and its write.
\<close>

section \<open>Documents under updates\<close>

text \<open>What the Rust types guarantee of an update: segments of a path are strings, the value is a value.\<close>

fun update_wf :: "field_update \<Rightarrow> bool" where
  "update_wf (FU_Set fld v) = ((\<forall>seg \<in> set (split_on (CHR ''.'') fld). rust_string seg) \<and> wf_value v)"
| "update_wf (FU_Unset fld) = True"
| "update_wf (FU_Increment fld delta) = (\<forall>seg \<in> set (split_on (CHR ''.'') fld). rust_string seg)"

lemma path_parts:
  assumes "\<forall>seg \<in> set (split_on (CHR ''.'') fld). rust_string seg"
  shows "\<forall>seg \<in> set (butlast (split_on (CHR ''.'') fld)). rust_string seg" and "rust_string (last (split_on (CHR ''.'') fld))"
  using assms by (auto dest: in_set_butlastD)

lemma increment_last_wf:
  assumes "wf_value (SV_Object ob)" and "rust_string l"
  shows "wf_value (SV_Object (snd (increment_last path l delta ob)))"
proof -
  have "wf_value (SV_Object (bt_insert l x ob))" if "wf_value x" for x using wf_object_insert [OF assms that] .
  then show ?thesis using assms(1) unfolding increment_last_def
    by (auto simp del: wf_value.simps(2) split: option.splits schema_value.splits)
qed

lemma unset_field_wf:
  assumes "wf_value doc"
  shows "wf_value (snd (unset_field fld doc))"
proof (cases "as_object doc")
  case None
  with assms show ?thesis by (simp add: unset_field_def)
next
  case (Some obj)
  then have doc: "doc = SV_Object obj" by simp
  obtain b obj' where w: "unset_walk (butlast (split_on (CHR ''.'') fld)) (last (split_on (CHR ''.'') fld)) obj = (b, obj')" by fastforce
  with unset_walk_effect [OF assms [unfolded doc] w] show ?thesis by (simp add: unset_field_def doc Let_def)
qed

lemma apply_update_wf:
  assumes "apply_update primary u doc = Inr doc'" and "wf_value doc" and "update_wf u"
  shows "wf_value doc'"
proof (cases u)
  case (FU_Set fld v)
  from assms(1) FU_Set obtain r where "set_field fld v doc = (r, doc')"
    by (auto split: if_splits prod.splits sum.splits)
  then show ?thesis
  proof (cases rule: set_field_cases)
    case (object obj obj')
    have "wf_value (SV_Object obj')"
      by (rule descend_create_wf [OF _ _ object(3)])
        (use assms(2,3) object FU_Set path_parts [of fld] wf_object_insert in \<open>simp_all del: wf_value.simps(2)\<close>)
    with object show ?thesis by simp
  qed (use assms(2) in simp)
next
  case (FU_Unset fld)
  then show ?thesis using assms(1) unset_field_wf [OF assms(2)] by (auto split: if_splits)
next
  case (FU_Increment fld delta)
  from assms(1) FU_Increment obtain r where "apply_increment fld delta doc = (r, doc')"
    by (auto split: if_splits prod.splits sum.splits)
  then show ?thesis
  proof (cases rule: apply_increment_cases)
    case (object obj obj')
    have "wf_value (SV_Object obj')"
      by (rule descend_create_wf [OF _ _ object(3)])
        (use assms(2,3) object FU_Increment path_parts [of fld] increment_last_wf in \<open>simp_all del: wf_value.simps(2)\<close>)
    with object show ?thesis by simp
  qed (use assms(2) in simp)
qed

section \<open>The primary key under updates\<close>

lemma split_on_single: "split_on d s = [w] \<Longrightarrow> w = s"
proof (induction s arbitrary: w)
  case (Cons c s)
  then show ?case by (cases "split_on d s") (auto split: if_splits)
qed simp

lemma descend_create_scalar:
  assumes "map_of obj p = Some pv" and "as_object pv = None"
  shows "\<exists>e obj'. descend_create path (p # ps) act obj = (Inl e, obj')"
  using assms by (cases pv) auto

lemma path_cases:
  assumes "fld \<noteq> p" and "CHR ''.'' \<notin> set p"
  obtains (apart) "\<not> prefix (split_on (CHR ''.'') p) (split_on (CHR ''.'') fld)"
      "\<not> prefix (split_on (CHR ''.'') fld) (split_on (CHR ''.'') p)"
    | (below) ps where "butlast (split_on (CHR ''.'') fld) = p # ps"
proof -
  obtain q qs where q: "split_on (CHR ''.'') fld = q # qs" using split_on_nonempty by (cases "split_on (CHR ''.'') fld") auto
  show ?thesis
  proof (cases "q = p")
    case True
    then have "qs \<noteq> []" using q split_on_single [of "CHR ''.''" fld q] assms(1) by auto
    with True q show ?thesis by (intro below) auto
  next
    case False
    with q split_on_no_sep [OF assms(2)] show ?thesis by (intro apart) auto
  qed
qed

lemma apply_update_keeps:
  assumes "apply_update p u doc = Inr doc'" and "wf_value doc" and "CHR ''.'' \<notin> set p"
    and "field doc p = Some pv" and "as_object pv = None"
  shows "field doc' p = Some pv"
proof -
  from assms(4) obtain obj where doc: "doc = SV_Object obj" by (cases "as_object doc") (auto simp: field_def)
  have pv: "map_of obj p = Some pv"
    using assms(4) split_on_no_sep [OF assms(3)] by (auto simp: doc field_object resolve_segments_Cons split: option.splits if_splits)
  show ?thesis
  proof (cases u)
    case (FU_Set fld v)
    with assms(1) obtain x where s: "set_field fld v doc = (Inr x, doc')" "fld \<noteq> p" by (auto split: if_splits prod.splits sum.splits)
    from s(2) assms(3) show ?thesis
    proof (cases rule: path_cases)
      case apart
      with set_field_frame [OF assms(2) s(1)] assms(4) show ?thesis by simp
    next
      case (below ps)
      from s(1) show ?thesis
      proof (cases rule: set_field_cases)
        case (object o1 o2)
        with below doc descend_create_scalar [OF pv assms(5), of fld ps "\<lambda>c. (Inr (), bt_insert (last (split_on (CHR ''.'') fld)) v c)"]
        show ?thesis by auto
      qed simp
    qed
  next
    case (FU_Unset fld)
    with assms(1) have s: "doc' = snd (unset_field fld doc)" "fld \<noteq> p" by (auto split: if_splits)
    from s(2) assms(3) show ?thesis
    proof (cases rule: path_cases)
      case apart
      obtain b obj' where w: "unset_walk (butlast (split_on (CHR ''.'') fld)) (last (split_on (CHR ''.'') fld)) obj = (b, obj')" by fastforce
      with unset_walk_frame [OF assms(2) [unfolded doc] w, of "split_on (CHR ''.'') p"] apart assms(4) s(1) show ?thesis
        by (simp add: unset_field_def doc field_object Let_def)
    next
      case (below ps)
      with pv assms(4,5) s(1) show ?thesis by (cases pv) (auto simp: unset_field_def doc Let_def)
    qed
  next
    case (FU_Increment fld delta)
    with assms(1) obtain x where s: "apply_increment fld delta doc = (Inr x, doc')" "fld \<noteq> p" by (auto split: if_splits prod.splits sum.splits)
    from s(2) assms(3) show ?thesis
    proof (cases rule: path_cases)
      case apart
      with apply_increment_frame [OF assms(2) s(1)] assms(4) show ?thesis by simp
    next
      case (below ps)
      from s(1) show ?thesis
      proof (cases rule: apply_increment_cases)
        case (object o1 o2)
        with below doc descend_create_scalar [OF pv assms(5), of fld ps "increment_last fld (last (split_on (CHR ''.'') fld)) delta"]
        show ?thesis by auto
      qed simp
    qed
  qed
qed

lemma apply_updates_keep:
  assumes "try_fold (apply_update p) us doc = Inr doc'" and "wf_value doc" and "list_all update_wf us"
  shows "wf_value doc'" and "CHR ''.'' \<notin> set p \<Longrightarrow> field doc p = Some pv \<Longrightarrow> as_object pv = None \<Longrightarrow> field doc' p = Some pv"
proof -
  have "wf_value doc' \<and> (CHR ''.'' \<notin> set p \<and> field doc p = Some pv \<and> as_object pv = None \<longrightarrow> field doc' p = Some pv)"
    using assms
  proof (induction us arbitrary: doc)
    case (Cons u us)
    then obtain doc1 where d: "apply_update p u doc = Inr doc1" "try_fold (apply_update p) us doc1 = Inr doc'"
      by (auto simp: and_then_Inr_iff)
    have "wf_value doc1" using apply_update_wf [OF d(1)] Cons.prems by simp
    with Cons.IH [OF d(2)] Cons.prems apply_update_keeps [OF d(1)] show ?case by auto
  qed simp
  then show "wf_value doc'" "CHR ''.'' \<notin> set p \<Longrightarrow> field doc p = Some pv \<Longrightarrow> as_object pv = None \<Longrightarrow> field doc' p = Some pv" by auto
qed

lemma mutate_document_effect:
  assumes "mutate_document s us doc = Inr doc'" and "validate_document s doc = Inr ()" and "wf_value doc" and "list_all update_wf us"
  shows "wf_value doc' \<and> validate_document s doc' = Inr ()
    \<and> (\<forall>p. primary_field_of s = Some p \<and> CHR ''.'' \<notin> set (f_name p) \<longrightarrow> schema_document_raw_key s doc' = schema_document_raw_key s doc)"
proof -
  from assms(1) valid_encoded(2) [OF assms(2,3)] obtain p where p: "primary_field_of s = Some p"
    "try_fold (apply_update (f_name p)) us doc = Inr doc'" "validate_document s doc' = Inr ()"
    by (auto simp: mutate_document_def and_then_Inr_iff primary_field_def)
  note k = apply_updates_keep [OF p(2) assms(3,4)]
  have "schema_document_raw_key s doc' = schema_document_raw_key s doc" if dot: "CHR ''.'' \<notin> set (f_name p)"
  proof -
    from assms(2) obtain obj where obj: "doc = SV_Object obj" "wf_schema s" "\<forall>f \<in> set (s_fields s). conforms_field f obj"
      by (auto simp: validate_document_accepts)
    from obj(2) p(1) have pf: "p \<in> set (s_fields s)" "wf_primary p" by (auto elim!: wf_schema_primary)
    then have "conforms_field p obj" using obj(3) by blast
    then obtain v where v: "resolve_path obj (f_name p) = Some v" "v \<noteq> SV_Null" "conforms (f_type p) v"
      using pf(2) by (cases p) (auto simp: wf_primary_def split: option.splits if_splits)
    then have "as_object v = None" using pf(2) by (cases "f_type p"; cases v) (auto simp: wf_primary_def)
    moreover have fv: "field doc (f_name p) = Some v" using v(1) obj(1) by (simp add: field_def)
    ultimately have "field doc' (f_name p) = Some v" using k(2) dot by blast
    moreover obtain obj' where "doc' = SV_Object obj'" using p(3) by (auto simp: validate_document_accepts)
    ultimately show ?thesis using fv obj(1,2) p(1)
      by (simp add: schema_document_raw_key_def ensure_document_root_def primary_field_def)
  qed
  with k(1) p show ?thesis by auto
qed

section \<open>The retry loop\<close>

lemma decoded_document:
  assumes "decode_schema_raw_value s raw = Inr doc"
  shows "validate_document s doc = Inr ()" and "wf_value doc"
  using assms decode_document_sound by (auto simp: decode_schema_raw_value_def and_then_Inr_iff)

lemma get_schema_found:
  assumes "get_schema s pk st = (Inr (Some cur), st1)" and "schema_store_inv st"
  shows "schema_store_inv st1 \<and> (\<exists>key r. schema_primary_key_raw_key s pk = Inr key \<and> get_raw st1 (s_name s) key = Inr (Some r)
    \<and> decode_schema_raw_value s (rr_value r) = Inr (sr_document cur) \<and> sr_version cur = rr_version r)"
proof -
  obtain key where key: "schema_primary_key_raw_key s pk = Inr key" using assms(1) by (auto simp: get_schema_def split: sum.splits)
  obtain r st2 where en: "ensure_schema_indexes s st = (r, st2)" by fastforce
  with assms(1) key have "st1 = st2" "get_schema_by_raw_key st1 s key = Inr (Some cur)" by (auto simp: get_schema_def split: sum.splits)
  with ensure_effect(1) [OF en assms(2)] key show ?thesis
    by (auto simp: get_schema_by_raw_key_def and_then_Inr_iff split: option.splits)
qed

lemma get_schema_registers:
  assumes "get_schema s pk st = (Inr (Some cur), st1)" and "schema_store_inv st"
  shows "\<exists>ix. schema_indexes_for_collection st1 (s_name s) = Some ix \<and> sci_schema ix = s"
proof -
  obtain r st2 where en: "ensure_schema_indexes s st = (r, st2)" by fastforce
  with assms(1) obtain ix where "r = Inr ix" "st1 = st2" by (auto simp: get_schema_def split: sum.splits)
  with ensure_effect(5) [OF en assms(2)] show ?thesis by blast
qed

lemma stored_key:
  assumes "schema_store_inv st" and "get_raw st (s_name s) key = Inr (Some r)" and "decode_schema_raw_value s (rr_value r) = Inr doc"
    and "\<exists>ix. schema_indexes_for_collection st (s_name s) = Some ix \<and> sci_schema ix = s"
  shows "schema_document_raw_key s doc = Inr key"
proof -
  from assms(1,4) obtain ix where "documents_ok st ix" "sci_schema ix = s" by (auto simp: schema_store_inv_def schema_ok_def)
  moreover have "stored_document st s key = Some doc" using assms(2,3) by (simp add: stored_document_def)
  ultimately show ?thesis using stored_documentD(1) by blast
qed

text \<open>One attempt: what the loop read, what it wanted to write, and how the write ended.\<close>

lemma update_attempt:
  assumes "get_schema s pk st = (Inr (Some cur), st1)" and "schema_store_inv st" and "list_all update_wf us"
    and "mutate_document s us (sr_document cur) = Inr doc'"
    and "put_schema cf fl s doc' opts e1 = (res, e2)" and "schema_store_inv (fst e1)"
  shows "schema_store_inv (fst e2)" and "wf_value doc'"
proof -
  from get_schema_found [OF assms(1,2)] decoded_document have "validate_document s (sr_document cur) = Inr ()" "wf_value (sr_document cur)"
    by blast+
  from mutate_document_effect [OF assms(4) this assms(3)] show wf: "wf_value doc'" by blast
  show "schema_store_inv (fst e2)"
    using put_schema_effect [of cf fl s doc' opts "fst e1" "snd e1" res "fst e2" "snd e2"] assms(5,6) wf by simp
qed

lemma update_loop_success:
  assumes "update_loop cf fl s pk us opts others n e = (Inr wr, e')" and "schema_store_inv (fst e)" and "list_all update_wf us"
    and others: "\<And>n e. schema_store_inv (fst e) \<Longrightarrow> schema_store_inv (fst (others n e))"
  shows "\<exists>m st0 st1 d cur doc'. schema_store_inv st0 \<and> get_schema s pk st0 = (Inr (Some cur), st1)
    \<and> mutate_document s us (sr_document cur) = Inr doc'
    \<and> put_schema cf fl s doc' (opts\<lparr>expected_version := Some (sr_version cur)\<rparr>) (others m (st1, d)) = (Inr wr, e')"
  using assms(1,2)
proof (induction "max_retries - n" arbitrary: n e rule: less_induct)
  case less
  obtain st d where e: "e = (st, d)" by fastforce
  obtain r st1 where g: "get_schema s pk st = (r, st1)" by fastforce
  from less.prems(1) obtain cur doc' where c: "r = Inr (Some cur)" "mutate_document s us (sr_document cur) = Inr doc'"
    unfolding e update_loop.simps g by (auto split: sum.splits option.splits)
  let ?opts = "opts\<lparr>expected_version := Some (sr_version cur)\<rparr>"
  obtain r2 e2 where p: "put_schema cf fl s doc' ?opts (others n (st1, d)) = (r2, e2)" by (rule prod.exhaust)
  have inv: "schema_store_inv st" using less.prems(2) e by simp
  have "schema_store_inv st1" using get_schema_found [OF g [unfolded c(1)] inv] by simp
  then have inv1: "schema_store_inv (fst (others n (st1, d)))" using others [of "(st1, d)" n] by simp
  note a = update_attempt [OF g [unfolded c(1)] inv assms(3) c(2) p inv1]
  show ?case
  proof (cases r2)
    case (Inr wr')
    then have "wr' = wr" "e2 = e'" using less.prems(1) c p unfolding e update_loop.simps g by simp_all
    with inv g c p Inr show ?thesis by blast
  next
    case (Inl err)
    have "update_loop cf fl s pk us opts others (n + 1) e2 = (Inr wr, e') \<and> n + 1 < max_retries"
      using less.prems(1) c p Inl unfolding e update_loop.simps g
      by (cases err) (auto simp: and_then_Inr_iff split: if_splits)
    then have u: "update_loop cf fl s pk us opts others (n + 1) e2 = (Inr wr, e')" and "max_retries - (n + 1) < max_retries - n"
      by auto
    from less.hyps [OF this(2) u a(1)] show ?thesis .
  qed
qed

text \<open>The contract of the threads that run beside an update: they keep the stores consistent, records do
  not disappear (a deletion leaves a record), and whoever replaces a record changes its version.\<close>

definition stamped :: "schema \<Rightarrow> mfs_store \<Rightarrow> mfs_store \<Rightarrow> bool" where
  "stamped s st st' \<longleftrightarrow> (\<forall>key r. store_lookup st (s_name s) key = Some r \<longrightarrow>
     (\<exists>r'. store_lookup st' (s_name s) key = Some r' \<and> (rec_version r' = rec_version r \<longrightarrow> r' = r)))"

definition fair_others :: "schema \<Rightarrow> (nat \<Rightarrow> engine \<Rightarrow> engine) \<Rightarrow> bool" where
  "fair_others s others \<longleftrightarrow> (\<forall>n e. schema_store_inv (fst e) \<longrightarrow>
     schema_store_inv (fst (others n e)) \<and> stamped s (fst e) (fst (others n e)))"

lemma read_record:
  assumes "get_raw st coll key = Inr (Some r)"
  shows "store_lookup st coll key = Some \<lparr>rec_value = Some (rr_value r), rec_version = rr_version r\<rparr>"
  using assms unfolding get_raw_def raw_collection_of_def and_then_Inr_iff
  by (auto simp: store_lookup_def rc_get_def split: option.splits)

lemma record_read:
  assumes "store_lookup st coll key = Some \<lparr>rec_value = Some v, rec_version = ver\<rparr>"
  shows "get_raw st coll key = Inr (Some \<lparr>rr_value = v, rr_version = ver\<rparr>)"
  using assms by (auto simp: store_lookup_def get_raw_def raw_collection_of_def rc_get_def bind_eq_Some_conv)

section \<open>Statements\<close>


text \<open>The store with the one tagged document, and an update of its tag.\<close>

definition retagged :: schema_value where
  "retagged = SV_Object [(''id'', SV_String ''a''), (''tag'', SV_String ''u'')]"

lemma retagged_mutated: "mutate_document tag_schema [FU_Set ''tag'' (SV_String ''u'')] tag_document = Inr retagged"
  by code_simp

lemma retagged_valid: "validate_document tag_schema retagged = Inr ()" "schema_document_raw_key tag_schema retagged = Inr tag_key"
  "document_index_entries tag_indexes retagged = Inr [\<lparr>pe_field_idx = 0, pe_key = IK_String ''u''\<rparr>]"
  "document_index_entries tag_indexes tag_document = Inr [\<lparr>pe_field_idx = 0, pe_key = IK_String ''t''\<rparr>]"
  "schema_primary_key_raw_key tag_schema (SV_String ''a'') = Inr tag_key"
  by code_simp+

lemma tag_update_wf: "list_all update_wf [FU_Set ''tag'' (SV_String ''u'')]"
  by code_simp

lemma tag_shape:
  assumes "shape_ok ix" and "sci_schema ix = tag_schema"
  shows "sci_indexed_fields ix = sci_indexed_fields tag_indexes" and "refs_fields (sci_references ix) = []"
  using assms tag_indexes_new by (auto simp: shape_ok_def tag_indexes_def)

lemma retagged_prepared:
  assumes "shape_ok ix" and "sci_schema ix = tag_schema"
  shows "\<exists>plan. prepare_put st ix tag_key (Some tag_document) retagged = Inr plan"
proof -
  have e: "document_index_entries ix doc = document_index_entries tag_indexes doc" for doc
    using tag_shape [OF assms] assms(2) by (simp add: document_index_entries_def tag_indexes_def)
  show ?thesis using tag_shape [OF assms]
    by (simp add: prepare_put_def references_prepare_put_def entries_of_old_def document_entries_def e retagged_valid(3,4))
      (simp add: tag_indexes_def)
qed

definition in_memory :: write_options where
  "in_memory = default_write_options\<lparr>opt_durability := Some MemoryOnly\<rparr>"

lemma tag_update_runs:
  obtains wr st st' where "update_schema plain_crc no_faults tag_schema (SV_String ''a'') [FU_Set ''tag'' (SV_String ''u'')]
      in_memory (\<lambda>_ e. e) (st, new_disk) = (Inr wr, (st', new_disk))"
    and "schema_store_inv st" and "stored_document st tag_schema tag_key = Some tag_document"
proof -
  obtain wr0 st ix where p: "put_schema plain_crc no_faults tag_schema tag_document default_write_options (created_store, new_disk)
      = (Inr wr0, (st, new_disk))"
    and inv: "schema_store_inv st" and doc: "stored_document st tag_schema = [tag_key \<mapsto> tag_document]"
    and ix: "schema_indexes_for_collection st (s_name tag_schema) = Some ix" "sci_schema ix = tag_schema" "schema_ok st ix"
    by (rule sample_written)
  have "stored_document st tag_schema tag_key = Some tag_document" using doc by simp
  then obtain r where r: "get_raw st (s_name tag_schema) tag_key = Inr (Some r)"
    "decode_schema_raw_value tag_schema (rr_value r) = Inr tag_document"
    by (auto simp: stored_document_def split: sum.splits option.splits)
  have en: "ensure_schema_indexes tag_schema st = (Inr ix, st)"
    using ix tag_schema_valid by (simp add: ensure_schema_indexes_def validate_schema_def)
  have g: "get_schema tag_schema (SV_String ''a'') st = (Inr (Some \<lparr>sr_document = tag_document, sr_version = rr_version r\<rparr>), st)"
    using retagged_valid(5) en get_by_key_stored(1) [OF r] by (simp add: get_schema_def)
  note rec = read_record [OF r(1)]
  then obtain rc where rc: "map_of (st_collections st) (s_name tag_schema) = Some rc"
    "rc_lookup rc tag_key = Some \<lparr>rec_value = Some (rr_value r), rec_version = rr_version r\<rparr>"
    by (auto simp: store_lookup_def bind_eq_Some_conv)
  have ok: "store_ok st" "rc_ok rc" using inv rc(1) by (auto simp: schema_store_inv_def store_ok_def)
  have fits: "can_insert_or_replace hash_bytes tag_key (rc_records rc)" using present_fits [OF ok(2)] rc(2) by simp
  obtain plan where plan: "prepare_put st ix tag_key (Some tag_document) retagged = Inr plan"
    using retagged_prepared ix(2,3) by (auto simp: schema_ok_def)
  obtain wr st' where w: "put_schema plain_crc no_faults tag_schema retagged
      (in_memory\<lparr>expected_version := Some (rr_version r)\<rparr>) (st, new_disk) = (Inr wr, (st', new_disk))"
    using put_memory_only [OF ok(1) rc(1) ix(1,2) retagged_valid(1,2) _ fits _ plan,
        of "in_memory\<lparr>expected_version := Some (rr_version r)\<rparr>" plain_crc no_faults new_disk] rec r(2) rc(2)
    by (auto simp: old_document_def record_version_def in_memory_def effective_durability_def)
  have "update_schema plain_crc no_faults tag_schema (SV_String ''a'') [FU_Set ''tag'' (SV_String ''u'')]
      in_memory (\<lambda>_ e. e) (st, new_disk) = (Inr wr, (st', new_disk))"
    unfolding update_schema_def by (subst update_loop.simps) (simp add: g retagged_mutated w)
  then show ?thesis using inv doc by (intro that) auto
qed


lemma update_loop_agree:
  assumes "\<And>m. m < max_retries \<Longrightarrow> others m = others' m" and "n < max_retries"
  shows "update_loop cf fl s pk us opts others n e = update_loop cf fl s pk us opts others' n e"
  using assms(2)
proof (induction "max_retries - n" arbitrary: n e rule: less_induct)
  case less
  obtain st d where e: "e = (st, d)" by fastforce
  have "update_loop cf fl s pk us opts others (n + 1) e' = update_loop cf fl s pk us opts others' (n + 1) e'"
    if "\<not> max_retries \<le> n + 1" for e'
    using less.hyps [of "n + 1" e'] that by simp
  moreover have "others n = others' n" using assms(1) less.prems by blast
  ultimately show ?case unfolding e update_loop.simps
    by (auto split: prod.split sum.split option.split store_error.split)
qed

text \<open>C39. An update gives up after three attempts: whatever other threads would do after the third
  read, and forever after, makes no difference to the result nor to the store.\<close>

theorem update_bounded:
  "update_schema cf fl s pk us opts others e
     = update_schema cf fl s pk us opts (\<lambda>n. if n < 3 then others n else later n) e"
  unfolding update_schema_def by (rule update_loop_agree) (simp_all add: max_retries_def)

text \<open>A schema whose primary key is a nested field.\<close>

definition nested_schema :: schema where
  "nested_schema = \<lparr>s_name = ''c'', s_fields = [SchemaField ''a.b'' FT_String True False False True False None False False],
     enable_nested_fields = True, default_sort_field = None\<rparr>"

definition nested_document :: "string \<Rightarrow> schema_value" where
  "nested_document k = SV_Object [(''a'', SV_Object [(''b'', SV_String k)])]"


end
