(* ===== verification/Spec2Isabelle.thy ===== *)
theory Spec2Isabelle
  imports Schema_Codec Schema_Document Concurrent_Map Mfs_Value Checkpoint_Recovery Schema_Update
begin

text \<open>
  A verification development for the memory-first store, a Rust workspace of four crates under
  \<open>src/crates\<close>: \<open>mfs-core\<close> (in-memory maps, caches, write-back lanes and a simple log), \<open>mfs-store\<close> (the
  document store: values, schemas, raw collections, write-ahead log, checkpoints, recovery, schema
  mode), \<open>mfs-neural\<close> (dense indexes) and \<open>mfs-compat\<close> (object, page and schema stores on top). The
  facade crate \<open>memory-first-store\<close> only re-exports them. The development models \<open>mfs-store\<close> from the
  bytes on disk up to documents and their indexes, and the concurrent hash map of \<open>mfs-core\<close> it is
  built on.

  \<^bold>\<open>How the parts interact.\<close> A write to a schema collection (\<open>put_schema\<close>) validates the document,
  computes its primary key, prepares a plan for the exact indexes and the reference maps, and hands
  both to the raw store (\<open>write_with_hooks\<close>), which checks the expected version, appends a record to
  the write-ahead log as the durability mode demands, inserts the record in the concurrent map of the
  collection, and only then applies the plan. After a crash the newest readable checkpoint is loaded
  and the log after it is replayed.

  \<^bold>\<open>Conventions.\<close> A \<open>Result\<close> is a sum type with the error on the left (\<open>and_then\<close>, \<open>map_err\<close>,
  \<open>ok_or\<close>, \<open>try_fold\<close> are the source's combinators); a stateful fallible function is an operation
  \<open>('s, 'a) op\<close> that returns the result together with the new state; a panic is \<open>None\<close>. Bytes are
  \<open>8 word list\<close>, versions and sequence numbers \<open>64 word\<close> (their wrap-around is kept), \<open>usize\<close> lengths
  are \<open>nat\<close>, a Rust \<open>String\<close> is a \<open>string\<close> whose characters are its UTF-8 bytes (\<open>rust_string\<close>),
  an \<open>f64\<close> its bit pattern, a \<open>BTreeMap\<close> a sorted association list, a \<open>HashMap\<close> an association list
  with distinct keys. \<open>crc32c\<close> is a library: it is a parameter (\<open>crc_functions\<close>). The file system is
  the record \<open>disk\<close> with, for every file, its content and the prefix that has been synced; \<open>crash\<close>
  keeps any extension of the synced prefix, and \<open>io_faults\<close> decides for every system call, by its
  operation name, whether it fails. A directory listing is an argument of the functions that read one.

  \<^bold>\<open>Theories.\<close>

  \<^item> \<open>Prelude\<close>: bytes, little-endian integers, UTF-8, chaining of results and operations, and the
    locale \<open>cursor_reader\<close> of readers that advance a cursor. \<open>Rust_Collections\<close>: \<open>BTreeMap\<close>,
    \<open>HashMap\<close>, and \<open>f64\<close> arithmetic with exact rounding. \<open>Sequence_Codec\<close>: the locales \<open>item_codec\<close>
    and \<open>exact_codec\<close> of counted sequences, interpreted by every codec below.
  \<^item> \<open>Schema\<close> (\<open>schema.rs\<close>): field types, references, schema validation; \<open>validate\<close> accepts exactly
    the well-formed schemas.
  \<^item> \<open>Schema_Value\<close>, \<open>Schema_Document\<close>, \<open>Value_Reader\<close>, \<open>Schema_Codec\<close> (\<open>schema_value.rs\<close>): document
    values, dotted paths, set, unset and increment with their frame properties, document
    validation, and the binary codec with its round trip and its stability on arbitrary bytes.
    \<open>Mfs_Value\<close> (\<open>value.rs\<close>): the codec of the key-value types.
  \<^item> \<open>Concurrent_Map\<close> (\<open>concurrent_map.rs\<close>, \<open>hasher.rs\<close>): the open-addressing table, operation by
    operation; its invariant, its effect as a map (locale \<open>kv_table\<close>), rebuilding, and what goes
    wrong when insertions and removals are mixed.
  \<^item> \<open>Store_Types\<close> (\<open>types.rs\<close>, \<open>config.rs\<close>, \<open>error.rs\<close>), \<open>Store_State\<close> (the records of \<open>raw.rs\<close> and
    \<open>index.rs\<close>).
  \<^item> \<open>Wal_Codec\<close> and \<open>Wal_Segment\<close> (\<open>wal.rs\<close>): frames, scanning, torn tails, the segment writer over
    the disk, compaction; the locale \<open>durable_log\<close> states what a log promises across crashes and is
    interpreted by the segment writer and by the whole store.
  \<^item> \<open>Raw_Collection\<close>, \<open>Raw_Store\<close>, \<open>Store_Log\<close> (\<open>raw.rs\<close>): collections, versioned writes, durability
    acknowledgements, replay; all-or-nothing writes, survival of acknowledged writes, recovery.
  \<^item> \<open>Checkpoint_Codec\<close>, \<open>Paths\<close>, \<open>Checkpoint\<close>, \<open>Checkpoint_Recovery\<close> (\<open>checkpoint.rs\<close>): the file format,
    the atomic installation, the choice of the newest checkpoint, recovery from checkpoint and log.
  \<^item> \<open>Schema_Keys\<close>, \<open>Schema_Index\<close>, \<open>Schema_Mode\<close> (\<open>schema_mode.rs\<close>, \<open>index.rs\<close>, \<open>reference.rs\<close>): primary
    and index keys, plans, the operations on schema collections. \<open>Posting_Lists\<close>, \<open>Schema_Store\<close>:
    the invariant of schema collections and that every operation keeps it, as an \<open>inductive\<close>
    relation of reachable stores. \<open>Schema_Query\<close>, \<open>Schema_Collections\<close>: lookups against scans, and
    rebuilding. \<open>Schema_Update\<close>: partial updates under interference by other threads.

  \<^bold>\<open>Concurrency.\<close> Every operation of the raw store runs under the lock of its collection, and those of
  schema mode under the lock of the schema state, so they are single steps. Where the source releases
  the lock in the middle (\<open>update_schema\<close> between read and write, \<open>rebuild_schema_indexes\<close> between
  snapshot and replacement) the steps of other threads are an argument \<open>others\<close>. The epoch-based
  reclamation and the atomic orderings of \<open>concurrent_map.rs\<close> are not modelled: its operations are
  atomic here.

  \<^bold>\<open>Bounds.\<close> No definition uses fuel. Loops over bytes terminate because the position grows
  (\<open>scan_loop\<close>, the decoders), \<open>update_loop\<close> because it counts three attempts, probing because the
  probe sequence is a list of the length of the probe limit.

  \<^bold>\<open>Not modelled.\<close> The JSON loaders of schemas (\<open>serde_json\<close> is a library whose values the sources only
  traverse), \<open>Display\<close> texts except those the code compares, and the \<open>semantics.rs\<close> tables, which are
  constants without behaviour. The lock-free caches and write-back lanes of \<open>mfs-core\<close>
  (\<open>s3fifo.rs\<close>, \<open>writeback.rs\<close>, \<open>slot_writeback.rs\<close>, \<open>atomic_writeback.rs\<close>, \<open>lockfree.rs\<close>) and the dense
  indexes of \<open>mfs-neural\<close> are interleavings of atomic memory operations on raw pointers, whose
  meaning is that of a weak memory model. The stores of \<open>mfs-compat\<close> are adapters to SQLite, to
  HTTP and to background threads.
\<close>

end
